(* ===== verification/Prelude.thy ===== *)
theory Prelude
  imports Main "HOL-Library.Word" "HOL-Library.Multiset" "HOL-Library.Product_Lexorder"
begin

text \<open>
  Shared vocabulary of the development.

  \<^item> \<open>chain_exception\<close>: the exception classes of
    \<^verbatim>\<open>libraries/chain/include/eosio/chain/exceptions.hpp\<close> and
    \<^verbatim>\<open>libraries/chain/include/cyberway/chaindb/exception.hpp\<close> that the modelled code throws.
    A C++ function that may throw returns \<open>chain_exception + 'a\<close>; \<open>Inl\<close> is the throw.
    \<open>Undefined_behaviour\<close> marks what the C++ standard leaves undefined and the code does not
    guard (a division by zero, an element access past the end of a container); \<open>No_return\<close>
    marks a loop of the code that would not end.
  \<^item> \<open>bind_res\<close>, \<open>eos_assert\<close>, \<open>fold_res\<close>: sequencing, \<^verbatim>\<open>EOS_ASSERT\<close> and a loop over
    a container whose body may throw.
  \<^item> \<open>fm_find\<close>, \<open>fm_set\<close>, \<open>fm_emplace\<close>, \<open>fm_erase\<close>: \<^verbatim>\<open>std::map\<close> and \<^verbatim>\<open>fc::flat_map\<close>, as
    association lists in ascending key order, which is the order the code iterates in.
    The interface the components use them through is the locale \<open>ordered_map\<close>.
\<close>

section \<open>Exceptions as values\<close>

datatype (plugins only: code size) chain_exception =
    Undefined_behaviour
  | Name_type_exception
  | Domain_name_type_exception
  | Username_type_exception
  | Symbol_type_exception
  | Asset_type_exception
  | Parse_error_exception
  | Overflow_exception
  | Underflow_exception
  | Rate_limiting_state_inconsistent
  | Resource_limit_exception
  | Block_resource_exhausted
  | Account_resources_exceeded
  | Block_validate_exception
  | Unlinkable_block_exception
  | Wrong_producer
  | Producer_schedule_exception
  | Producer_double_confirm
  | Producer_not_in_schedule
  | Wrong_signing_key
  | Fork_database_exception
  | Fork_db_block_not_found
  | Authorization_exception
  | Invalid_permission
  | Permission_query_exception
  | Irrelevant_auth_exception
  | Unsatisfied_authorization
  | Tx_irrelevant_sig
  | Tx_not_found
  | Unlinkable_min_permission_action
  | Action_validate_exception
  | Transaction_exception
  | Session_exception
  | Driver_write_exception
  | Driver_duplicate_exception
  | Database_exception
  | Missing_auth_exception
  | Account_name_exists_exception
  | Account_query_exception
  | Set_exact_code
  | Set_exact_abi
  | Invalid_contract_vm_type
  | Invalid_contract_vm_version
  | Action_type_exception
  | Wasm_exception
  | Tx_no_action
  | Tx_no_auths
  | Tx_decompression_error
  | Expired_tx_exception
  | Invalid_ref_block_exception
  | Tx_duplicate_sig
  | Tx_duplicate
  | Tx_exp_too_far_exception
  | Unsupported_feature
  | Bw_provider_error
  | Block_usage_exceeded
  | Tx_usage_exceeded
  | Tx_subjective_usage_exceeded
  | Deadline_exception
  | Explicitly_billed_exception
  | Timer_off_exception
  | Subjective_block_production_exception
  | Fc_exception
  | Chaindb_midx_find_exception
  | Cache_primary_key_exception
  | Domain_exists_exception
  | Domain_query_exception
  | Username_exists_exception
  | Username_query_exception
  | No_return
  | Chain_exception

type_synonym 'a res = "chain_exception + 'a"

fun bind_res :: "'e + 'a \<Rightarrow> ('a \<Rightarrow> 'e + 'b) \<Rightarrow> 'e + 'b" where
  "bind_res (Inl e) f = Inl e"
| "bind_res (Inr x) f = f x"

definition eos_assert :: "bool \<Rightarrow> 'e \<Rightarrow> 'e + unit" where
  "eos_assert b e = (if b then Inr () else Inl e)"

fun fold_res :: "('a \<Rightarrow> 's \<Rightarrow> 'e + 's) \<Rightarrow> 'a list \<Rightarrow> 's \<Rightarrow> 'e + 's" where
  "fold_res f [] s = Inr s"
| "fold_res f (x # xs) s = bind_res (f x s) (fold_res f xs)"

named_theorems res_simps \<open>elimination of successful and failed steps\<close>

lemma bind_res_Inr [res_simps]: "bind_res m f = Inr y \<longleftrightarrow> (\<exists>x. m = Inr x \<and> f x = Inr y)"
  by (cases m) auto

lemma bind_res_Inl [res_simps]:
  "bind_res m f = Inl e \<longleftrightarrow> m = Inl e \<or> (\<exists>x. m = Inr x \<and> f x = Inl e)"
  by (cases m) auto

lemma eos_assert_Inr [res_simps]: "eos_assert b e = Inr u \<longleftrightarrow> b"
  by (cases u) (simp add: eos_assert_def)

lemma eos_assert_Inl [res_simps]: "eos_assert b e = Inl e' \<longleftrightarrow> \<not> b \<and> e' = e"
  by (auto simp: eos_assert_def)

lemma eos_assert_simps [simp]: "eos_assert True e = Inr ()" "eos_assert False e = Inl e"
  by (simp_all add: eos_assert_def)

lemma bind_res_cong [fundef_cong]:
  "m = m' \<Longrightarrow> (\<And>x. m' = Inr x \<Longrightarrow> f x = f' x) \<Longrightarrow> bind_res m f = bind_res m' f'"
  by (cases m') auto

lemma fold_res_cong [fundef_cong]:
  "xs = ys \<Longrightarrow> s = t \<Longrightarrow> (\<And>x r. x \<in> set ys \<Longrightarrow> f x r = g x r) \<Longrightarrow> fold_res f xs s = fold_res g ys t"
proof (induction xs arbitrary: ys s t)
  case Nil
  then show ?case by (cases ys) auto
next
  case (Cons x xs)
  then have "\<And>u. fold_res f xs u = fold_res g xs u" and "f x s = g x t" by auto
  with Cons.prems(1) show ?case by (cases "g x t") auto
qed

text \<open>A loop whose body keeps \<open>P\<close> keeps \<open>P\<close>.\<close>

lemma fold_res_invariant:
  assumes "fold_res f xs s = Inr s'" and "P s"
    and "\<And>x r r'. x \<in> set xs \<Longrightarrow> P r \<Longrightarrow> f x r = Inr r' \<Longrightarrow> P r'"
  shows "P s'"
  using assms
proof (induction xs arbitrary: s)
  case Nil
  then show ?case by simp
next
  case (Cons x xs)
  then obtain r where "f x s = Inr r" "fold_res f xs r = Inr s'" by (auto simp: res_simps)
  with Cons show ?case by (metis list.set_intros)
qed

lemma fold_res_append:
  "fold_res f (xs @ ys) s = bind_res (fold_res f xs s) (fold_res f ys)"
proof (induction xs arbitrary: s)
  case (Cons x xs)
  then show ?case by (cases "f x s") auto
qed simp

text \<open>A loop that ends has run its body at every element.\<close>

lemma fold_res_at:
  assumes "fold_res f xs s = Inr s'" and "x \<in> set xs"
  obtains ys zs r r' where "xs = ys @ x # zs" and "fold_res f ys s = Inr r" and "f x r = Inr r'"
    and "fold_res f zs r' = Inr s'"
proof -
  obtain ys zs where xs: "xs = ys @ x # zs" using assms(2) by (meson split_list)
  with assms(1) that show ?thesis by (auto simp: fold_res_append bind_res_Inr)
qed

section \<open>Ordered maps\<close>

text \<open>The interface: lookup after each update, and the representation invariant.\<close>

locale ordered_map =
  fixes empty :: 'm
    and find :: "'m \<Rightarrow> 'k \<Rightarrow> 'v option"
    and put :: "'k \<Rightarrow> 'v \<Rightarrow> 'm \<Rightarrow> 'm"
    and erase :: "'k \<Rightarrow> 'm \<Rightarrow> 'm"
    and invar :: "'m \<Rightarrow> bool"
  assumes find_empty: "find empty k = None"
    and find_put: "invar m \<Longrightarrow> find (put k v m) k' = (if k' = k then Some v else find m k')"
    and find_erase: "invar m \<Longrightarrow> find (erase k m) k' = (if k' = k then None else find m k')"
    and invar_empty: "invar empty"
    and invar_put: "invar m \<Longrightarrow> invar (put k v m)"
    and invar_erase: "invar m \<Longrightarrow> invar (erase k m)"
begin

lemma invar_fold_put: "invar m \<Longrightarrow> invar (fold (\<lambda>x. put (f x) (g x)) xs m)"
  by (induction xs arbitrary: m) (auto intro: invar_put)

lemma find_fold_put_notin:
  "invar m \<Longrightarrow> k \<notin> f ` set xs \<Longrightarrow> find (fold (\<lambda>x. put (f x) (g x)) xs m) k = find m k"
  by (induction xs arbitrary: m) (auto simp: find_put invar_put)

lemma find_fold_put:
  assumes "invar m"
  shows "find (fold (\<lambda>x. put (f x) (g (f x))) xs m) k
           = (if k \<in> f ` set xs then Some (g k) else find m k)"
  using assms
  by (induction xs arbitrary: m) (auto simp: find_put invar_put)

lemma find_put_other: "invar m \<Longrightarrow> k' \<noteq> k \<Longrightarrow> find (put k v m) k' = find m k'"
  by (simp add: find_put)

end

fun fm_find :: "('k \<times> 'v) list \<Rightarrow> 'k \<Rightarrow> 'v option" where
  "fm_find [] k = None"
| "fm_find ((a, v) # m) k = (if k = a then Some v else fm_find m k)"

fun fm_set :: "'k::linorder \<Rightarrow> 'v \<Rightarrow> ('k \<times> 'v) list \<Rightarrow> ('k \<times> 'v) list" where
  "fm_set k v [] = [(k, v)]"
| "fm_set k v ((a, w) # m) =
     (if k < a then (k, v) # (a, w) # m
      else if k = a then (a, v) # m
      else (a, w) # fm_set k v m)"

definition fm_emplace :: "'k::linorder \<Rightarrow> 'v \<Rightarrow> ('k \<times> 'v) list \<Rightarrow> ('k \<times> 'v) list" where
  "fm_emplace k v m = (case fm_find m k of None \<Rightarrow> fm_set k v m | Some _ \<Rightarrow> m)"

fun fm_erase :: "'k \<Rightarrow> ('k \<times> 'v) list \<Rightarrow> ('k \<times> 'v) list" where
  "fm_erase k [] = []"
| "fm_erase k ((a, w) # m) = (if k = a then m else (a, w) # fm_erase k m)"

definition fm_invar :: "('k::linorder \<times> 'v) list \<Rightarrow> bool" where
  "fm_invar m = sorted_wrt (<) (map fst m)"

lemma fm_find_None_iff: "fm_find m k = None \<longleftrightarrow> k \<notin> fst ` set m"
  by (induction m k rule: fm_find.induct) auto

lemma fm_find_SomeD: "fm_find m k = Some v \<Longrightarrow> (k, v) \<in> set m"
  by (induction m k rule: fm_find.induct) (auto split: if_splits)

lemma set_keys_fm_set [simp]: "fst ` set (fm_set k v m) = insert k (fst ` set m)"
  by (induction k v m rule: fm_set.induct) auto

lemma set_keys_fm_erase_subset: "fst ` set (fm_erase k m) \<subseteq> fst ` set m"
  by (induction k m rule: fm_erase.induct) auto

lemma fm_find_set [simp]: "fm_find (fm_set k v m) k' = (if k' = k then Some v else fm_find m k')"
  by (induction k v m rule: fm_set.induct) auto

lemma fm_invar_Cons:
  "fm_invar ((a, w) # m) \<longleftrightarrow> (\<forall>k \<in> fst ` set m. a < k) \<and> fm_invar m"
  by (auto simp: fm_invar_def)

lemma fm_find_less: "fm_invar ((a, w) # m) \<Longrightarrow> k < a \<Longrightarrow> fm_find m k = None"
  by (force simp: fm_invar_Cons fm_find_None_iff)

lemma fm_invar_Nil [simp]: "fm_invar []"
  by (simp add: fm_invar_def)

lemma fm_find_erase: "fm_invar m \<Longrightarrow> fm_find (fm_erase k m) k' = (if k' = k then None else fm_find m k')"
  by (induction k m rule: fm_erase.induct) (force simp: fm_invar_Cons fm_find_None_iff)+

lemma fm_invar_set: "fm_invar m \<Longrightarrow> fm_invar (fm_set k v m)"
  by (induction k v m rule: fm_set.induct) (auto simp: fm_invar_Cons)

lemma fm_invar_erase: "fm_invar m \<Longrightarrow> fm_invar (fm_erase k m)"
proof (induction k m rule: fm_erase.induct)
  case (2 k a w m)
  then show ?case using set_keys_fm_erase_subset [of k m] by (fastforce simp: fm_invar_Cons)
qed simp

interpretation fm: ordered_map "[]" fm_find fm_set fm_erase fm_invar
  by unfold_locales (auto simp: fm_find_erase fm_invar_set fm_invar_erase)

lemma fm_find_emplace:
  "fm_find (fm_emplace k v m) k' = (if k' = k \<and> fm_find m k = None then Some v else fm_find m k')"
  by (auto simp: fm_emplace_def split: option.splits)

lemma fm_invar_emplace: "fm_invar m \<Longrightarrow> fm_invar (fm_emplace k v m)"
  by (auto simp: fm_emplace_def fm_invar_set split: option.splits)

lemma fm_find_Some_iff: "fm_invar m \<Longrightarrow> fm_find m k = Some v \<longleftrightarrow> (k, v) \<in> set m"
proof (induction m k rule: fm_find.induct)
  case (2 a w m k)
  have "k = a \<Longrightarrow> (k, v) \<notin> set m"
    using 2(2) by (force simp: fm_invar_Cons)
  with 2 show ?case by (auto simp: fm_invar_Cons)
qed simp

lemma fm_invar_distinct: "fm_invar m \<Longrightarrow> distinct (map fst m)"
  by (simp add: fm_invar_def strict_sorted_iff)

end
