(* ===== verification/IntArith.thy ===== *)
theory IntArith
  imports Prelude "HOL-Library.Signed_Division"
begin

text \<open>
  \<^verbatim>\<open>libraries/chain/include/eosio/chain/int_arithmetic.hpp\<close>: proportions of 64-bit integers
  computed in 128 bits and cast back with a range check.  A C++ integer type is its signedness
  and width; its values are integers in the range of the type.  C++ integer division truncates
  towards zero (\<open>sdiv\<close>, \<open>smod\<close>).
\<close>

section \<open>Integer types\<close>

datatype int_type = Int_type (signed_ty: bool) (width: nat)

definition ty_min :: "int_type \<Rightarrow> int" where
  "ty_min t = (if signed_ty t then - (2 ^ (width t - 1)) else 0)"

definition ty_max :: "int_type \<Rightarrow> int" where
  "ty_max t = (if signed_ty t then 2 ^ (width t - 1) - 1 else 2 ^ width t - 1)"

definition in_ty :: "int_type \<Rightarrow> int \<Rightarrow> bool" where
  "in_ty t v \<longleftrightarrow> ty_min t \<le> v \<and> v \<le> ty_max t"

abbreviation "int64_t \<equiv> Int_type True 64"
abbreviation "uint64_t \<equiv> Int_type False 64"
abbreviation "int128_t \<equiv> Int_type True 128"
abbreviation "uint128_t \<equiv> Int_type False 128"

definition greater_int_t :: "int_type \<Rightarrow> int_type" where
  "greater_int_t t = Int_type (signed_ty t) (2 * width t)"

section \<open>The operations\<close>

definition integer_divide_ceil :: "int \<Rightarrow> int \<Rightarrow> int res" where
  "integer_divide_ceil num den =
     (if den = 0 then Inl Undefined_behaviour
      else Inr (num sdiv den + (if num smod den > 0 then 1 else 0)))"

definition downgrade_cast :: "int_type \<Rightarrow> int_type \<Rightarrow> int \<Rightarrow> bool \<Rightarrow> int res" where
  "downgrade_cast lesserT greaterT val strict =
     (let signedness_mismatch = (signed_ty lesserT \<noteq> signed_ty greaterT);
          mx = ty_max lesserT;
          mn = (if signedness_mismatch then 0 else ty_min lesserT)
      in if strict then
           bind_res (eos_assert (val \<ge> mn \<and> val \<le> mx) Rate_limiting_state_inconsistent)
             (\<lambda>_. Inr val)
         else Inr (max (min val mx) mn))"

definition safe_prop :: "int_type \<Rightarrow> int \<Rightarrow> int \<Rightarrow> int \<Rightarrow> bool \<Rightarrow> int res" where
  "safe_prop t arg numer denom strict =
     (if arg = 0 \<or> numer = 0 then Inr 0
      else if denom = 0 then Inl Undefined_behaviour
      else downgrade_cast t (greater_int_t t) ((arg * numer) sdiv denom) strict)"

definition safe_prop_ceil :: "int_type \<Rightarrow> int \<Rightarrow> int \<Rightarrow> int \<Rightarrow> bool \<Rightarrow> int res" where
  "safe_prop_ceil t arg numer denom strict =
     (if arg = 0 \<or> numer = 0 then Inr 0
      else if denom = 0 then Inl Undefined_behaviour
      else
        let mul = arg * numer in
        bind_res (downgrade_cast t (greater_int_t t) (mul sdiv denom) strict) (\<lambda>dv.
          Inr (if mul smod denom \<noteq> 0
               then (if (mul \<ge> 0) = (denom \<ge> 0)
                     then (if dv \<noteq> ty_max t then dv + 1 else dv)
                     else (if dv \<noteq> ty_min t then dv - 1 else dv))
               else dv)))"

definition percent_100 :: int where "percent_100 = 10000"
definition percent_1 :: int where "percent_1 = 100"

definition safe_pct :: "int_type \<Rightarrow> int \<Rightarrow> int \<Rightarrow> bool \<Rightarrow> int res" where
  "safe_pct t arg total_v strict = safe_prop t arg total_v percent_100 strict"

definition safe_share_to_pct :: "int_type \<Rightarrow> int \<Rightarrow> int \<Rightarrow> bool \<Rightarrow> int res" where
  "safe_share_to_pct t arg total_v strict = safe_prop t arg percent_100 total_v strict"

section \<open>Lemmas\<close>

lemma sdiv_nonneg: "0 \<le> a \<Longrightarrow> 0 < b \<Longrightarrow> a sdiv b = a div (b::int)"
  by (cases "a = 0") (simp_all add: signed_divide_int_def sgn_if)

lemma smod_nonneg: "0 \<le> a \<Longrightarrow> 0 < b \<Longrightarrow> a smod b = a mod (b::int)"
  by (cases "a = 0") (simp_all add: signed_modulo_int_def sgn_if)

lemma ty_min_nonpos: "ty_min t \<le> 0"
  by (simp add: ty_min_def)

lemma ty_max_nonneg: "0 \<le> ty_max t"
  by (simp add: ty_max_def)

lemma in_ty_0 [simp]: "in_ty t 0"
  by (simp add: in_ty_def ty_min_nonpos ty_max_nonneg)

lemma in_ty_le: "0 \<le> a \<Longrightarrow> a \<le> b \<Longrightarrow> in_ty t b \<Longrightarrow> in_ty t a"
  using ty_min_nonpos [of t] by (simp add: in_ty_def)

text \<open>The result of a strict cast is its argument, and lies in the target type.\<close>

lemma downgrade_cast_strict:
  "downgrade_cast t (greater_int_t t) v True = Inr r \<longleftrightarrow> r = v \<and> in_ty t v"
  by (auto simp: downgrade_cast_def Let_def in_ty_def res_simps greater_int_t_def)

lemma downgrade_cast_clamp:
  "downgrade_cast t (greater_int_t t) v False = Inr (max (min v (ty_max t)) (ty_min t))"
  by (simp add: downgrade_cast_def Let_def greater_int_t_def)

lemma safe_prop_strict_nonneg:
  assumes "0 \<le> arg" "0 \<le> numer" "0 < denom"
  shows "safe_prop t arg numer denom True = Inr r \<longleftrightarrow>
           r = arg * numer div denom \<and> in_ty t (arg * numer div denom)"
  using assms
  by (auto simp: safe_prop_def downgrade_cast_strict sdiv_nonneg)

lemma safe_prop_strict_le:
  assumes "0 \<le> arg" "0 \<le> numer" "numer \<le> denom" "0 < denom" "in_ty t arg"
  shows "safe_prop t arg numer denom True = Inr (arg * numer div denom)"
    and "0 \<le> arg * numer div denom" and "arg * numer div denom \<le> arg"
proof -
  have "arg * numer \<le> arg * denom" using assms by (simp add: mult_left_mono)
  then have "arg * numer div denom \<le> arg * denom div denom"
    using assms(4) by (rule zdiv_mono1)
  then show le: "arg * numer div denom \<le> arg" using assms(4) by simp
  show ge: "0 \<le> arg * numer div denom" using assms by (simp add: pos_imp_zdiv_nonneg_iff)
  show "safe_prop t arg numer denom True = Inr (arg * numer div denom)"
    using assms ge le by (simp add: safe_prop_strict_nonneg in_ty_le)
qed

lemma safe_prop_clamp_nonneg:
  assumes "0 \<le> arg" "0 \<le> numer" "0 < denom"
  shows "safe_prop t arg numer denom False = Inr (min (arg * numer div denom) (ty_max t))"
proof -
  have "0 \<le> arg * numer div denom" using assms by (simp add: pos_imp_zdiv_nonneg_iff)
  then show ?thesis
    using assms ty_max_nonneg [of t] ty_min_nonpos [of t]
    by (auto simp: safe_prop_def downgrade_cast_clamp sdiv_nonneg)
qed

lemma safe_prop_ceil_strict_nonneg:
  assumes "0 \<le> arg" "0 \<le> numer" "0 < denom"
  shows "safe_prop_ceil t arg numer denom True = Inr r \<longleftrightarrow>
           in_ty t (arg * numer div denom) \<and>
           r = (if arg * numer mod denom = 0 then arg * numer div denom
                else min (arg * numer div denom + 1) (ty_max t))"
  using assms ty_min_nonpos [of t] ty_max_nonneg [of t]
  by (auto simp: safe_prop_ceil_def downgrade_cast_strict sdiv_nonneg smod_nonneg res_simps Let_def
        in_ty_def)

end
