(* ===== verification/Names.thy ===== *)
theory Names
  imports Prelude
begin

unbundle bit_operations_syntax

text \<open>
  Account, action and table names: 13 characters of a 32-letter alphabet packed into 64 bits
  (\<^verbatim>\<open>libraries/chain/include/eosio/chain/name.hpp\<close>, \<^verbatim>\<open>libraries/chain/name.cpp\<close>), and the copy of
  that codec the database layer uses, in which \<open>_\<close> takes the place of \<open>.\<close>
  (\<^verbatim>\<open>libraries/chain/chaindb/names.cpp\<close>).  A C string is a \<open>string\<close>; reading at its length
  gives the terminating zero.
\<close>

section \<open>The codec\<close>

type_synonym name_value = "64 word"

definition c_str_at :: "string \<Rightarrow> nat \<Rightarrow> char" where
  "c_str_at s i = (if i < length s then s ! i else CHR 0x00)"

definition char_to_symbol :: "char \<Rightarrow> 64 word" where
  "char_to_symbol c =
     (let n = of_char c :: nat in
      if 97 \<le> n \<and> n \<le> 122 then word_of_nat (n - 97 + 6)
      else if 49 \<le> n \<and> n \<le> 53 then word_of_nat (n - 49 + 1)
      else 0)"

function string_to_name_loop :: "string \<Rightarrow> nat \<Rightarrow> 64 word \<Rightarrow> nat \<times> 64 word" where
  "string_to_name_loop s i nm =
     (if c_str_at s i \<noteq> CHR 0x00 \<and> i < 12
      then string_to_name_loop s (Suc i)
             (nm OR push_bit (64 - 5 * (i + 1)) (char_to_symbol (c_str_at s i) AND 0x1f))
      else (i, nm))"
  by pat_completeness auto
termination by (relation "measure (\<lambda>(s, i, nm). 12 - i)") auto

declare string_to_name_loop.simps [simp del]

definition string_to_name :: "string \<Rightarrow> 64 word" where
  "string_to_name s =
     (case string_to_name_loop s 0 0 of (i, nm) \<Rightarrow>
        if i = 12 then nm OR (char_to_symbol (c_str_at s 12) AND 0x0F) else nm)"

definition charmap :: string where
  "charmap = ''.12345abcdefghijklmnopqrstuvwxyz''"

definition db_charmap :: string where
  "db_charmap = ''_12345abcdefghijklmnopqrstuvwxyz''"

fun print_loop :: "string \<Rightarrow> nat \<Rightarrow> nat \<Rightarrow> 64 word \<Rightarrow> string \<Rightarrow> string" where
  "print_loop cm 0 i tmp str = str"
| "print_loop cm (Suc n) i tmp str =
     print_loop cm n (Suc i) (drop_bit 5 tmp) (str[12 - i := cm ! unat (tmp AND 0x1f)])"

definition trim_right :: "char \<Rightarrow> string \<Rightarrow> string" where
  "trim_right c s = rev (dropWhile (\<lambda>x. x = c) (rev s))"

definition name_to_string :: "64 word \<Rightarrow> string" where
  "name_to_string value =
     (let str = (replicate 13 CHR ''.'')[12 := charmap ! unat (value AND 0x0f)]
      in trim_right CHR ''.'' (print_loop charmap 12 1 (drop_bit 4 value) str))"

definition name_set :: "string \<Rightarrow> 64 word res" where
  "name_set str =
     bind_res (eos_assert (length (takeWhile (\<lambda>c. c \<noteq> CHR 0x00) str) \<le> 13) Name_type_exception) (\<lambda>_.
       let value = string_to_name str in
       bind_res (eos_assert (name_to_string value = takeWhile (\<lambda>c. c \<noteq> CHR 0x00) str) Name_type_exception)
         (\<lambda>_. Inr value))"

definition db_name_to_string :: "64 word \<Rightarrow> string" where
  "db_name_to_string value =
     (let str = (replicate 13 CHR ''_'')[12 := db_charmap ! unat (value AND 0x0f)]
      in trim_right CHR ''_'' (print_loop db_charmap 12 1 (drop_bit 4 value) str))"

definition db_char_to_symbol :: "char \<Rightarrow> 64 word res" where
  "db_char_to_symbol c =
     (let n = of_char c :: nat in
      if 97 \<le> n \<and> n \<le> 122 then Inr (word_of_nat (n - 97 + 6))
      else if 49 \<le> n \<and> n \<le> 53 then Inr (word_of_nat (n - 49 + 1))
      else bind_res (eos_assert (c = CHR ''_'') Name_type_exception) (\<lambda>_. Inr 0))"

function db_string_to_name_loop :: "string \<Rightarrow> nat \<Rightarrow> 64 word \<Rightarrow> (64 word) res" where
  "db_string_to_name_loop s i v =
     (if c_str_at s i \<noteq> CHR 0x00 \<and> i < 12
      then bind_res (db_char_to_symbol (c_str_at s i)) (\<lambda>x.
             db_string_to_name_loop s (Suc i) (v OR push_bit (64 - 5 * (i + 1)) (x AND 0x1f)))
      else Inr v)"
  by pat_completeness auto
termination by (relation "measure (\<lambda>(s, i, nm). 12 - i)") auto

declare db_string_to_name_loop.simps [simp del]

definition db_string_to_name :: "string \<Rightarrow> 64 word res" where
  "db_string_to_name s =
     (let len = length (takeWhile (\<lambda>c. c \<noteq> CHR 0x00) s) in
      bind_res (eos_assert (len \<le> 13) Name_type_exception) (\<lambda>_.
      bind_res (db_string_to_name_loop s 0 0) (\<lambda>v.
        if len = 13 then bind_res (db_char_to_symbol (c_str_at s 12)) (\<lambda>x. Inr (v OR (x AND 0x0F)))
        else Inr v)))"

section \<open>What a string encodes\<close>

lemma char_to_symbol_NUL [simp]: "char_to_symbol CHR 0x00 = 0"
  by (simp add: char_to_symbol_def)

lemma char_to_symbol_dot [simp]: "char_to_symbol CHR ''.'' = 0" "char_to_symbol CHR ''_'' = 0"
  by (simp_all add: char_to_symbol_def)

text \<open>The five-bit group of position \<open>k\<close>.\<close>

definition sym_at :: "string \<Rightarrow> nat \<Rightarrow> 64 word" where
  "sym_at s k = char_to_symbol (c_str_at s k)"

definition or_groups :: "string \<Rightarrow> nat list \<Rightarrow> 64 word \<Rightarrow> 64 word" where
  "or_groups s ks nm = fold (\<lambda>k a. a OR push_bit (64 - 5 * (k + 1)) (sym_at s k AND 0x1f)) ks nm"

lemma or_groups_beyond:
  "\<forall>k \<in> set ks. length s \<le> k \<Longrightarrow> or_groups s ks nm = nm"
  by (induction ks arbitrary: nm) (auto simp: or_groups_def sym_at_def c_str_at_def)

lemma string_to_name_loop_eq:
  assumes "CHR 0x00 \<notin> set s" "i \<le> 12"
  shows "string_to_name_loop s i nm
           = (if i < length s \<and> i < 12 then min 12 (length s) else i, or_groups s [i..<12] nm)"
  using assms
proof (induction s i nm rule: string_to_name_loop.induct)
  case (1 s i nm)
  show ?case
  proof (cases "i < length s \<and> i < 12")
    case True
    then have nz: "c_str_at s i \<noteq> CHR 0x00"
      using 1(2) by (auto simp: c_str_at_def in_set_conv_nth)
    have "string_to_name_loop s i nm =
        string_to_name_loop s (Suc i) (nm OR push_bit (64 - 5 * (i + 1)) (sym_at s i AND 0x1f))"
      using True nz by (subst string_to_name_loop.simps) (simp add: sym_at_def)
    moreover have "[i..<12] = i # [Suc i..<12]" using True by (simp add: upt_conv_Cons)
    ultimately show ?thesis
      using 1(1) [OF conjI] nz True 1(2) by (auto simp: or_groups_def sym_at_def)
  next
    case False
    have "string_to_name_loop s i nm = (i, nm)"
      using False by (subst string_to_name_loop.simps) (auto simp: c_str_at_def)
    moreover have "or_groups s [i..<12] nm = nm"
    proof (cases "i = 12")
      case True
      then show ?thesis by (simp add: or_groups_def)
    next
      case False
      with \<open>\<not> (i < length s \<and> i < 12)\<close> 1(3) show ?thesis by (intro or_groups_beyond) auto
    qed
    ultimately show ?thesis using False by auto
  qed
qed

lemma string_to_name_eq:
  assumes "CHR 0x00 \<notin> set s"
  shows "string_to_name s = or_groups s [0..<12] 0 OR (sym_at s 12 AND 0x0F)"
proof -
  have "sym_at s 12 = 0" if "length s < 12" using that by (simp add: sym_at_def c_str_at_def)
  moreover have "string_to_name_loop s 0 0
      = (if 0 < length s then min 12 (length s) else 0, or_groups s [0..<12] 0)"
    using string_to_name_loop_eq [OF assms, of 0 0] by (simp del: upt_rec_numeral)
  ultimately show ?thesis
    by (cases "s = []") (simp_all add: string_to_name_def sym_at_def del: upt_rec_numeral)
qed

lemma or_groups_cong:
  "(\<And>k. k \<in> set ks \<Longrightarrow> sym_at s k = sym_at t k) \<Longrightarrow> or_groups s ks nm = or_groups t ks nm"
  by (induction ks arbitrary: nm) (auto simp: or_groups_def)

lemma trim_right_prefix: "\<exists>n. s = trim_right c s @ replicate n c"
proof -
  have "rev s = takeWhile (\<lambda>x. x = c) (rev s) @ dropWhile (\<lambda>x. x = c) (rev s)" by simp
  then have "s = trim_right c s @ rev (takeWhile (\<lambda>x. x = c) (rev s))"
    by (metis rev_append rev_rev_ident trim_right_def)
  moreover have "takeWhile (\<lambda>x. x = c) (rev s) = replicate (length (takeWhile (\<lambda>x. x = c) (rev s))) c"
    by (metis (full_types) replicate_eqI set_takeWhileD)
  ultimately show ?thesis by (metis rev_replicate)
qed

lemma length_trim_right: "length (trim_right c s) \<le> length s"
  by (metis trim_right_prefix length_append le_add1)

lemma sym_at_trim_right:
  assumes "char_to_symbol c = 0"
  shows "sym_at (trim_right c s) k = sym_at s k"
proof -
  obtain n where n: "s = trim_right c s @ replicate n c" using trim_right_prefix by blast
  show ?thesis
  proof (cases "k < length (trim_right c s)")
    case True
    then show ?thesis by (subst (2) n) (simp add: sym_at_def c_str_at_def nth_append)
  next
    case False
    then show ?thesis
      using assms by (subst (2) n) (simp add: sym_at_def c_str_at_def nth_append)
  qed
qed

section \<open>The codec interface and its round trip\<close>

definition name_groups :: "64 word \<Rightarrow> nat \<Rightarrow> nat" where
  "name_groups v k = unat (drop_bit (64 - 5 * (k + 1)) v AND 0x1f)"

lemma print_loop_eq:
  assumes "length str = 13"
  shows "print_loop cm 12 1 (drop_bit 4 v) str
           = map (\<lambda>k. cm ! name_groups v k) [0..<12] @ [str ! 12]"
proof -
  obtain a0 a1 a2 a3 a4 a5 a6 a7 a8 a9 a10 a11 a12
    where str: "str = [a0, a1, a2, a3, a4, a5, a6, a7, a8, a9, a10, a11, a12]"
    using assms by (auto simp: numeral_eq_Suc length_Suc_conv)
  have n: "(12::nat) = Suc (Suc (Suc (Suc (Suc (Suc (Suc (Suc (Suc (Suc (Suc (Suc 0)))))))))))" by simp
  show ?thesis
    unfolding str by (subst n) (simp add: name_groups_def upt_rec drop_bit_drop_bit)
qed

lemma and_31: "x AND (31 :: 64 word) = take_bit 5 x"
  by (simp add: take_bit_eq_mask mask_eq_exp_minus_1)

lemma and_15: "x AND (15 :: 64 word) = take_bit 4 x"
  by (simp add: take_bit_eq_mask mask_eq_exp_minus_1)

lemma bit_fold_or:
  "bit (fold (\<lambda>k a. a OR f k) ks (nm :: 64 word)) n \<longleftrightarrow> bit nm n \<or> (\<exists>k \<in> set ks. bit (f k) n)"
  by (induction ks arbitrary: nm) (auto simp: bit_or_iff)

text \<open>The twelve five-bit groups and the low four bits cover the word.\<close>

lemma word64_groups:
  fixes v :: "64 word"
  shows "fold (\<lambda>k a. a OR push_bit (64 - 5 * (k + 1)) (drop_bit (64 - 5 * (k + 1)) v AND 0x1f))
           [0..<12] 0 OR (v AND 0x0F) = v" (is "?l = v")
proof (rule bit_word_eqI)
  fix n assume "n < LENGTH(64)"
  then have n: "n < 64" by simp
  have grp: "bit (push_bit (59 - 5 * k) (take_bit 5 (drop_bit (59 - 5 * k) v))) n
      \<longleftrightarrow> 59 - 5 * k \<le> n \<and> n - (59 - 5 * k) < 5 \<and> bit v n" for k
    using n by (auto simp: bit_push_bit_iff bit_take_bit_iff bit_drop_bit_eq)
  have "bit ?l n \<longleftrightarrow> (\<exists>k<12. 59 - 5 * k \<le> n \<and> n - (59 - 5 * k) < 5 \<and> bit v n) \<or> (n < 4 \<and> bit v n)"
    unfolding and_31 and_15 by (auto simp: bit_or_iff bit_fold_or grp bit_take_bit_iff)
  also have "\<dots> \<longleftrightarrow> bit v n"
  proof (cases "n < 4")
    case False
    have "59 - 5 * ((63 - n) div 5) \<le> n \<and> n - (59 - 5 * ((63 - n) div 5)) < 5 \<and> (63 - n) div 5 < 12"
      using n False by auto
    then show ?thesis by blast
  qed auto
  finally show "bit ?l n = bit v n" .
qed

locale name_codec =
  fixes cm :: string and fill :: char
  assumes cm_length: "length cm = 32"
    and cm_map: "map char_to_symbol cm = map word_of_nat [0..<32]"
    and cm_NUL: "CHR 0x00 \<notin> set cm"
    and fill_symbol: "char_to_symbol fill = 0"
begin

lemma cm_symbol:
  assumes "j < 32"
  shows "char_to_symbol (cm ! j) = word_of_nat j"
proof -
  have "char_to_symbol (cm ! j) = map char_to_symbol cm ! j" using assms cm_length by simp
  also have "\<dots> = word_of_nat j" unfolding cm_map using assms by (simp del: upt_rec_numeral)
  finally show ?thesis .
qed

definition print_name :: "64 word \<Rightarrow> string" where
  "print_name v = trim_right fill
     (print_loop cm 12 1 (drop_bit 4 v) ((replicate 13 fill)[12 := cm ! unat (v AND 0x0f)]))"

lemma print_name_eq:
  "print_name v = trim_right fill (map (\<lambda>k. cm ! name_groups v k) [0..<12] @ [cm ! unat (v AND 0x0f)])"
  unfolding print_name_def by (subst print_loop_eq) simp_all

lemma groups_less: "name_groups v k < 32" "unat (v AND (0x0f :: 64 word)) < 32"
proof -
  have "unat (take_bit 5 x) < 2 ^ 5" "unat (take_bit 4 x) < 2 ^ 4" for x :: "64 word"
    by (simp_all only: unsigned_take_bit_eq take_bit_nat_less_exp)
  from this(1) this(2) [of v] show "name_groups v k < 32" "unat (v AND (0x0f :: 64 word)) < 32"
    by (simp_all add: name_groups_def and_31 and_15)
qed

lemma set_print_name: "set (print_name v) \<subseteq> set cm"
proof -
  let ?s = "map (\<lambda>k. cm ! name_groups v k) [0..<12] @ [cm ! unat (v AND 0x0f)]"
  have "set (print_name v) \<subseteq> set ?s"
    by (metis print_name_eq trim_right_def set_dropWhileD set_rev subsetI)
  moreover have "set ?s \<subseteq> set cm"
    using groups_less cm_length by (auto simp del: upt_rec_numeral)
  ultimately show ?thesis by blast
qed

lemma print_name_no_NUL: "CHR 0x00 \<notin> set (print_name v)"
  using set_print_name [of v] cm_NUL by blast

lemma print_name_length: "length (print_name v) \<le> 13"
  using length_trim_right [of fill "map (\<lambda>k. cm ! name_groups v k) [0..<12] @ [cm ! unat (v AND 0x0f)]"]
  by (simp add: print_name_eq del: upt_rec_numeral)

lemma roundtrip: "string_to_name (print_name v) = v"
proof -
  let ?s = "map (\<lambda>k. cm ! name_groups v k) [0..<12] @ [cm ! unat (v AND 0x0f)]"
  have sym: "sym_at (print_name v) k = sym_at ?s k" for k
    by (simp only: print_name_eq sym_at_trim_right [OF fill_symbol])
  have grp: "sym_at ?s k = drop_bit (64 - 5 * (k + 1)) v AND 0x1f" if "k < 12" for k
    using that cm_symbol [OF groups_less(1)]
    by (simp add: sym_at_def c_str_at_def nth_append name_groups_def del: upt_rec_numeral)
  have low: "sym_at ?s 12 = v AND 0x0f"
    using cm_symbol [OF groups_less(2)]
    by (simp add: sym_at_def c_str_at_def nth_append del: upt_rec_numeral)
  have "or_groups (print_name v) [0..<12] 0
      = fold (\<lambda>k a. a OR push_bit (64 - 5 * (k + 1)) (drop_bit (64 - 5 * (k + 1)) v AND 0x1f)) [0..<12] 0"
    unfolding or_groups_def sym
    by (rule fold_cong) (simp_all only: grp set_upt atLeastLessThan_iff and.assoc and.idem)
  then show ?thesis
    using word64_groups [of v] string_to_name_eq [OF print_name_no_NUL, of v]
    by (simp only: sym low and.assoc and.idem)
qed

lemma print_name_inject: "print_name v = print_name w \<Longrightarrow> v = w"
  by (metis roundtrip)

end

interpretation nm: name_codec charmap "CHR ''.''"
proof
  show "map char_to_symbol charmap = map word_of_nat [0..<32]"
    by (simp add: charmap_def char_to_symbol_def upt_rec)
qed (simp_all add: charmap_def)

interpretation db: name_codec db_charmap "CHR ''_''"
proof
  show "map char_to_symbol db_charmap = map word_of_nat [0..<32]"
    by (simp add: db_charmap_def char_to_symbol_def upt_rec)
qed (simp_all add: db_charmap_def)

lemma name_to_string_print: "name_to_string v = nm.print_name v"
  by (simp only: name_to_string_def nm.print_name_def Let_def)

lemma db_name_to_string_print: "db_name_to_string v = db.print_name v"
  by (simp only: db_name_to_string_def db.print_name_def Let_def)

lemma takeWhile_no_NUL: "CHR 0x00 \<notin> set s \<Longrightarrow> takeWhile (\<lambda>c. c \<noteq> CHR 0x00) s = s"
  by (simp add: takeWhile_eq_all_conv) metis

lemma db_char_to_symbol_Inr: "db_char_to_symbol c = Inr x \<Longrightarrow> x = char_to_symbol c"
  by (auto simp: db_char_to_symbol_def char_to_symbol_def Let_def res_simps split: if_splits)

lemma db_string_to_name_loop_eq:
  assumes "\<forall>c \<in> set s. db_char_to_symbol c = Inr (char_to_symbol c)"
  shows "db_string_to_name_loop s i v = Inr (snd (string_to_name_loop s i v))"
  using assms
proof (induction s i v rule: string_to_name_loop.induct)
  case (1 s i v)
  show ?case
  proof (cases "c_str_at s i \<noteq> CHR 0x00 \<and> i < 12")
    case True
    then have "c_str_at s i \<in> set s" by (auto simp: c_str_at_def split: if_splits)
    with 1 True show ?thesis
      by (simp add: string_to_name_loop.simps [of s i] db_string_to_name_loop.simps [of s i])
  next
    case False
    then show ?thesis
      by (auto simp: string_to_name_loop.simps [of s i] db_string_to_name_loop.simps [of s i])
  qed
qed

lemma db_charmap_ok: "\<forall>c \<in> set db_charmap. db_char_to_symbol c = Inr (char_to_symbol c)"
  by (simp add: db_charmap_def db_char_to_symbol_def char_to_symbol_def)

lemma db_print_chars: "c \<in> set (db.print_name v) \<Longrightarrow> db_char_to_symbol c = Inr (char_to_symbol c)"
  using db.set_print_name [of v] db_charmap_ok by blast

lemma db_string_to_name_ok:
  assumes "CHR 0x00 \<notin> set s" "length s \<le> 13" "\<forall>c \<in> set s. db_char_to_symbol c = Inr (char_to_symbol c)"
  shows "db_string_to_name s = Inr (string_to_name s)"
proof -
  have "length s < 13 \<Longrightarrow> char_to_symbol (c_str_at s 12) = 0" by (simp add: c_str_at_def)
  moreover have "length s = 13 \<Longrightarrow> c_str_at s 12 \<in> set s" by (simp add: c_str_at_def)
  moreover have "fst (string_to_name_loop s 0 0) = 12" if "length s = 13"
    using that string_to_name_loop_eq [OF assms(1), of 0 0] by (auto simp del: upt_rec_numeral)
  ultimately show ?thesis
    using assms
    by (auto simp: db_string_to_name_def string_to_name_def takeWhile_no_NUL
          db_string_to_name_loop_eq case_prod_unfold Let_def)
qed

section \<open>Properties\<close>

text \<open>
  C36. \<open>name::set\<close> accepts a C string exactly when it is the canonical spelling of a 64-bit value, and
  then stores that value: a name printed with \<open>operator string\<close> and set again is unchanged, for every
  64-bit value, and no string that prints differently is ever accepted.
\<close>

theorem name_set_canonical:
  assumes "CHR 0x00 \<notin> set s"
  shows "name_set s = Inr v \<longleftrightarrow> s = name_to_string v"
proof
  assume "name_set s = Inr v"
  with assms show "s = name_to_string v"
    by (auto simp: name_set_def takeWhile_no_NUL Let_def res_simps)
next
  assume s: "s = name_to_string v"
  then have "string_to_name s = v" by (simp add: name_to_string_print nm.roundtrip)
  with s assms show "name_set s = Inr v"
    using nm.print_name_length [of v]
    by (simp add: name_set_def takeWhile_no_NUL Let_def res_simps name_to_string_print)
qed

theorem name_set_canonical_witness: "name_set ''cyber.token'' = Inr 5156247203395839488"
  using name_set_canonical [of "''cyber.token''" 5156247203395839488] by code_simp

text \<open>
  C37. The database codec prints every 64-bit name to a string it parses back to the same name, without
  raising \<open>name_type_exception\<close>.
\<close>

theorem db_name_roundtrip: "db_string_to_name (db_name_to_string v) = Inr v"
  using db_string_to_name_ok [OF db.print_name_no_NUL db.print_name_length, of v] db_print_chars
  by (simp add: db_name_to_string_print db.roundtrip)

end
