(* ===== verification/DomainNames.thy ===== *)
theory DomainNames
  imports Prelude
begin

text \<open>
  Domain names and user names: \<^verbatim>\<open>libraries/chain/cyberway/domain_name.cpp\<close> and
  \<^verbatim>\<open>libraries/chain/include/cyberway/chain/domain_name.hpp\<close>.
\<close>

section \<open>The validator\<close>

definition domain_max_size :: nat where "domain_max_size = 253"
definition domain_min_part_size :: nat where "domain_min_part_size = 1"
definition domain_max_part_size :: nat where "domain_max_part_size = 63"
definition username_max_size :: nat where "username_max_size = 32"
definition username_min_part_size :: nat where "username_min_part_size = 1"
definition username_max_part_size :: nat where "username_max_part_size = username_max_size"

definition is_digit :: "char \<Rightarrow> bool" where
  "is_digit c \<longleftrightarrow> (48::nat) \<le> of_char c \<and> of_char c \<le> (57::nat)"

definition is_letter :: "char \<Rightarrow> bool" where
  "is_letter c \<longleftrightarrow> (97::nat) \<le> of_char c \<and> of_char c \<le> (122::nat)"

definition is_allowed_punct :: "char \<Rightarrow> bool" where
  "is_allowed_punct c \<longleftrightarrow> c = CHR ''-'' \<or> c = CHR ''.''"

definition is_valid_char :: "char \<Rightarrow> bool" where
  "is_valid_char c \<longleftrightarrow> is_letter c \<or> is_digit c \<or> is_allowed_punct c"

datatype name_error =
  Valid | Name_empty | Name_too_long | Part_too_short | Part_too_long | Bad_part_edge | Bad_char
  | All_numeric

definition validate_part :: "string \<Rightarrow> nat \<Rightarrow> nat \<Rightarrow> name_error" where
  "validate_part n min_size max_size =
     (if length n < min_size then Part_too_short
      else if length n > max_size then Part_too_long
      else if n = [] then Valid
      else if hd n = CHR ''-'' \<or> last n = CHR ''-'' then Bad_part_edge
      else Valid)"

text \<open>\<open>boost::split\<close> with \<open>is_any_of(".")\<close>: one part more than there are dots, empty parts kept.\<close>

fun split_dots :: "string \<Rightarrow> string list" where
  "split_dots [] = [[]]"
| "split_dots (c # cs) =
     (if c = CHR ''.'' then [] # split_dots cs
      else (case split_dots cs of [] \<Rightarrow> [[c]] | p # ps \<Rightarrow> (c # p) # ps))"

fun validate_parts :: "string list \<Rightarrow> nat \<Rightarrow> nat \<Rightarrow> name_error" where
  "validate_parts [] min_part max_part = Valid"
| "validate_parts (p # ps) min_part max_part =
     (let r = validate_part p min_part max_part in
      if r \<noteq> Valid then r else validate_parts ps min_part max_part)"

definition validate_domain_name_impl :: "string \<Rightarrow> nat \<Rightarrow> nat \<Rightarrow> nat \<Rightarrow> bool \<Rightarrow> name_error" where
  "validate_domain_name_impl d max_size min_part max_part strict_tld =
     (if length d = 0 then Name_empty
      else if length d > max_size then Name_too_long
      else if \<not> list_all is_valid_char d then Bad_char
      else
        let parts = split_dots d;
            r = validate_parts parts min_part max_part
        in if r \<noteq> Valid then r
           else if strict_tld \<and> list_all is_digit (last parts) then All_numeric
           else Valid)"

definition validate_domain_name :: "string \<Rightarrow> unit res" where
  "validate_domain_name n =
     (let r = validate_domain_name_impl n domain_max_size domain_min_part_size domain_max_part_size True
      in eos_assert (r = Valid) Domain_name_type_exception)"

definition validate_username :: "string \<Rightarrow> unit res" where
  "validate_username n =
     (let r = validate_domain_name_impl n username_max_size username_min_part_size
                username_max_part_size False
      in eos_assert (r = Valid) Username_type_exception)"

text \<open>
  The error text is picked by the code's \<open>err[r]\<close>: eight entries for domains, seven for user names
  (the enumerator \<open>all_numeric\<close>, the eighth, has no user name text).
\<close>

definition name_error_index :: "name_error \<Rightarrow> nat" where
  "name_error_index e =
     (case e of Valid \<Rightarrow> 0 | Name_empty \<Rightarrow> 1 | Name_too_long \<Rightarrow> 2 | Part_too_short \<Rightarrow> 3
      | Part_too_long \<Rightarrow> 4 | Bad_part_edge \<Rightarrow> 5 | Bad_char \<Rightarrow> 6 | All_numeric \<Rightarrow> 7)"

definition username_err_size :: nat where "username_err_size = 7"

section \<open>Splitting\<close>

fun join_dots :: "string list \<Rightarrow> string" where
  "join_dots [] = []"
| "join_dots [p] = p"
| "join_dots (p # q # ps) = p @ CHR ''.'' # join_dots (q # ps)"

lemma split_dots_nonempty [simp]: "split_dots d \<noteq> []"
  by (induction d) (auto split: list.splits)

lemma join_split [simp]: "join_dots (split_dots d) = d"
proof (induction d)
  case (Cons c d)
  then show ?case
    by (cases "split_dots d"; cases "tl (split_dots d)") auto
qed simp

lemma split_dots_no_dot: "p \<in> set (split_dots d) \<Longrightarrow> CHR ''.'' \<notin> set p"
  by (induction d arbitrary: p) (auto split: if_splits list.splits)

lemma split_dots_no_dot_append:
  "CHR ''.'' \<notin> set p \<Longrightarrow> split_dots (p @ CHR ''.'' # d) = p # split_dots d"
  by (induction p) auto

lemma split_dots_single: "CHR ''.'' \<notin> set p \<Longrightarrow> split_dots p = [p]"
  by (induction p) auto

lemma split_join:
  "ps \<noteq> [] \<Longrightarrow> \<forall>p \<in> set ps. CHR ''.'' \<notin> set p \<Longrightarrow> split_dots (join_dots ps) = ps"
  by (induction ps rule: join_dots.induct) (auto simp: split_dots_no_dot_append split_dots_single)

lemma set_join_dots: "c \<in> set (join_dots ps) \<Longrightarrow> c = CHR ''.'' \<or> (\<exists>p \<in> set ps. c \<in> set p)"
  by (induction ps rule: join_dots.induct) auto

lemma set_split_dots: "p \<in> set (split_dots d) \<Longrightarrow> set p \<subseteq> set d"
  by (induction d arbitrary: p) (fastforce split: if_splits list.splits)+

section \<open>The grammar\<close>

text \<open>A label: letters, digits and inner hyphens, of a length in the given range.\<close>

definition label_ok :: "nat \<Rightarrow> nat \<Rightarrow> string \<Rightarrow> bool" where
  "label_ok lo hi p \<longleftrightarrow> lo \<le> length p \<and> length p \<le> hi
     \<and> (p \<noteq> [] \<longrightarrow> hd p \<noteq> CHR ''-'' \<and> last p \<noteq> CHR ''-'')
     \<and> (\<forall>c \<in> set p. is_letter c \<or> is_digit c \<or> c = CHR ''-'')"

lemma validate_part_Valid:
  "validate_part p lo hi = Valid \<longleftrightarrow>
     lo \<le> length p \<and> length p \<le> hi \<and> (p \<noteq> [] \<longrightarrow> hd p \<noteq> CHR ''-'' \<and> last p \<noteq> CHR ''-'')"
  by (auto simp: validate_part_def)

lemma validate_parts_Valid:
  "validate_parts ps lo hi = Valid \<longleftrightarrow> (\<forall>p \<in> set ps. validate_part p lo hi = Valid)"
  by (induction ps lo hi rule: validate_parts.induct) (auto simp: Let_def)

lemma dot_not_label_char: "\<not> is_letter CHR ''.''" "\<not> is_digit CHR ''.''" "CHR ''.'' \<noteq> CHR ''-''"
  by (simp_all add: is_letter_def is_digit_def)

lemma validate_impl_Valid:
  assumes "0 < lo"
  shows "validate_domain_name_impl d mx lo hi strict = Valid \<longleftrightarrow>
    (\<exists>ps. ps \<noteq> [] \<and> d = join_dots ps \<and> length d \<le> mx \<and> (\<forall>p \<in> set ps. label_ok lo hi p)
      \<and> (strict \<longrightarrow> \<not> list_all is_digit (last ps)))" (is "?v \<longleftrightarrow> (\<exists>ps. ?g ps)")
proof
  assume v: ?v
  then have chars: "list_all is_valid_char d" and len: "length d \<le> mx"
    and parts: "validate_parts (split_dots d) lo hi = Valid"
    and tld: "strict \<longrightarrow> \<not> list_all is_digit (last (split_dots d))"
    by (auto simp: validate_domain_name_impl_def Let_def split: if_splits)
  have "label_ok lo hi p" if "p \<in> set (split_dots d)" for p
    using that parts chars set_split_dots [OF that] split_dots_no_dot [OF that]
    by (auto simp: label_ok_def validate_parts_Valid validate_part_Valid list_all_iff is_valid_char_def
          is_allowed_punct_def)
  with len tld have "?g (split_dots d)" by auto
  then show "\<exists>ps. ?g ps" ..
next
  assume "\<exists>ps. ?g ps"
  then obtain ps where g: "?g ps" ..
  have nodot: "\<forall>p \<in> set ps. CHR ''.'' \<notin> set p"
    using g dot_not_label_char by (auto simp: label_ok_def)
  with g have split: "split_dots d = ps" by (simp add: split_join)
  have "d \<noteq> []"
  proof
    assume "d = []"
    with split have "ps = [[]]" by simp
    with g assms show False by (simp add: label_ok_def)
  qed
  moreover have "list_all is_valid_char d"
    using g set_join_dots [of _ ps]
    by (fastforce simp: list_all_iff is_valid_char_def is_allowed_punct_def label_ok_def)
  moreover have "validate_parts ps lo hi = Valid"
    using g by (auto simp: validate_parts_Valid validate_part_Valid label_ok_def)
  ultimately show ?v using g split by (auto simp: validate_domain_name_impl_def Let_def)
qed

lemma validate_parts_not_numeric: "validate_parts ps lo hi \<noteq> All_numeric"
  by (induction ps lo hi rule: validate_parts.induct) (auto simp: Let_def validate_part_def)

section \<open>Properties\<close>

text \<open>
  C38. \<open>validate_domain_name\<close> accepts exactly the names of the grammar: one or more labels joined by dots,
  at most 253 characters in all, each label 1 to 63 letters, digits or hyphens, no label beginning or
  ending with a hyphen, and the last label not all digits; everything else raises
  \<open>domain_name_type_exception\<close>.
\<close>

theorem validate_domain_name_grammar:
  "validate_domain_name d =
     (if \<exists>ps. ps \<noteq> [] \<and> d = join_dots ps \<and> length d \<le> 253 \<and> (\<forall>p \<in> set ps. label_ok 1 63 p)
             \<and> \<not> list_all is_digit (last ps)
      then Inr () else Inl Domain_name_type_exception)"
  using validate_impl_Valid [of 1 d 253 63 True]
  by (simp add: validate_domain_name_def eos_assert_def domain_max_size_def domain_min_part_size_def
        domain_max_part_size_def Let_def)

theorem validate_domain_name_grammar_witness:
  "validate_domain_name ''a-1.golos.io'' = Inr ()"
proof -
  have "\<exists>ps. ps \<noteq> [] \<and> ''a-1.golos.io'' = join_dots ps \<and> length ''a-1.golos.io'' \<le> 253
      \<and> (\<forall>p \<in> set ps. label_ok 1 63 p) \<and> \<not> list_all is_digit (last ps)"
    by (rule exI [of _ "[''a-1'', ''golos'', ''io'']"])
      (simp add: label_ok_def is_digit_def is_letter_def)
  then show ?thesis using validate_domain_name_grammar [of "''a-1.golos.io''"] by simp
qed

text \<open>
  A rejected user name selects an existing error text: the result of validating a user name is never
  \<open>all_numeric\<close>, so the index into the seven texts of \<open>validate_username\<close> stays in range.
\<close>

theorem validate_username_error_in_range:
  "name_error_index (validate_domain_name_impl n username_max_size username_min_part_size
     username_max_part_size False) < username_err_size"
proof -
  have "validate_domain_name_impl n username_max_size username_min_part_size
     username_max_part_size False \<noteq> All_numeric"
    using validate_parts_not_numeric
    by (simp add: validate_domain_name_impl_def Let_def)
  then show ?thesis
    by (auto simp: name_error_index_def username_err_size_def split: name_error.splits)
qed

end
