(* ===== verification/Symbols.thy ===== *)
theory Symbols
  imports Prelude IntArith "HOL-Library.Char_ord"
begin

text \<open>
  Token symbols and assets: \<^verbatim>\<open>include/eosio/chain/symbol.hpp\<close>, \<^verbatim>\<open>include/eosio/chain/asset.hpp\<close>
  and \<^verbatim>\<open>asset.cpp\<close>.

  A symbol is a \<open>uint64_t\<close> whose low byte is the number of decimals and whose other seven bytes are the
  upper case name. The string helpers of the \<open>fc\<close> library (\<open>fc::trim\<close>, \<open>fc::to_uint64\<close>,
  \<open>fc::to_int64\<close>, \<open>fc::to_string\<close> and the checked arithmetic of \<open>fc::safe<int64_t>\<close>) are not part
  of the repository: they are the fields of \<open>fc_lib\<close>, an argument of the operations that call them.
  \<open>fc_lib_ok\<close> states what the code relies on: decimal conversion, and exact arithmetic when the result is
  representable. \<open>fc_reference\<close> is one such library.
\<close>

unbundle bit_operations_syntax

section \<open>Decimal text\<close>

text \<open>\<open>std::to_string\<close> of an unsigned value.\<close>

fun to_dec :: "nat \<Rightarrow> string" where
  "to_dec n = (if n < 10 then [char_of (48 + n)] else to_dec (n div 10) @ [char_of (48 + n mod 10)])"

definition dec_digit :: "char \<Rightarrow> bool" where
  "dec_digit c \<longleftrightarrow> CHR ''0'' \<le> c \<and> c \<le> CHR ''9''"

definition dec_val :: "string \<Rightarrow> nat" where
  "dec_val s = foldl (\<lambda>a c. 10 * a + (of_char c - 48)) 0 s"

record fc_lib =
  fc_trim :: "string \<Rightarrow> string"
  fc_to_uint64 :: "string \<Rightarrow> 64 word res"
  fc_to_int64 :: "string \<Rightarrow> int res"
  fc_to_string :: "int \<Rightarrow> string"
  fc_safe_mul :: "int \<Rightarrow> int \<Rightarrow> int res"
  fc_safe_add :: "int \<Rightarrow> int \<Rightarrow> int res"

definition is_blank :: "char \<Rightarrow> bool" where
  "is_blank c \<longleftrightarrow> c \<in> {CHR '' '', CHR 0x09, CHR 0x0A, CHR 0x0B, CHR 0x0C, CHR 0x0D}"

definition decimal :: "string \<Rightarrow> bool" where
  "decimal s \<longleftrightarrow> s \<noteq> [] \<and> list_all dec_digit s"

definition fc_lib_ok :: "fc_lib \<Rightarrow> bool" where
  "fc_lib_ok L \<longleftrightarrow>
     (\<forall>s. s \<noteq> [] \<and> \<not> is_blank (hd s) \<and> \<not> is_blank (last s) \<longrightarrow> fc_trim L s = s)
   \<and> (\<forall>s. decimal s \<and> dec_val s < 2 ^ 64 \<longrightarrow> fc_to_uint64 L s = Inr (of_nat (dec_val s)))
   \<and> (\<forall>s. decimal s \<and> dec_val s < 2 ^ 63 \<longrightarrow>
        fc_to_int64 L s = Inr (int (dec_val s)) \<and> fc_to_int64 L (CHR ''-'' # s) = Inr (- int (dec_val s)))
   \<and> (\<forall>n. fc_to_string L (int n) = to_dec n)
   \<and> (\<forall>a b. in_ty int64_t (a * b) \<longrightarrow> fc_safe_mul L a b = Inr (a * b))
   \<and> (\<forall>a b. in_ty int64_t (a + b) \<longrightarrow> fc_safe_add L a b = Inr (a + b))"

section \<open>Symbols\<close>

record symbol = m_value :: "64 word"

definition upper_case :: "char \<Rightarrow> bool" where
  "upper_case c \<longleftrightarrow> CHR ''A'' \<le> c \<and> c \<le> CHR ''Z''"

text \<open>
  The loop of \<open>string_to_symbol\<close>. From the eighth character on the shift distance reaches the width of
  the operand, which C++ leaves undefined.
\<close>

fun string_to_symbol_loop :: "string \<Rightarrow> nat \<Rightarrow> 64 word \<Rightarrow> 64 word res" where
  "string_to_symbol_loop [] i result = Inr result"
| "string_to_symbol_loop (c # cs) i result =
     (if \<not> upper_case c then Inl Symbol_type_exception
      else if 64 \<le> 8 * (i + 1) then Inl Undefined_behaviour
      else string_to_symbol_loop cs (i + 1) (result OR push_bit (8 * (i + 1)) (of_nat (of_char c))))"

definition c_str :: "string \<Rightarrow> string" where
  "c_str s = takeWhile (\<lambda>c. c \<noteq> CHR 0x00) s"

definition string_to_symbol :: "8 word \<Rightarrow> string \<Rightarrow> 64 word res" where
  "string_to_symbol precision str =
     bind_res (string_to_symbol_loop (c_str str) 0 0) (\<lambda>result. Inr (result OR ucast precision))"

definition max_precision :: nat where "max_precision = 18"

lemma unat_drop_bit_8: "0 < (v :: 64 word) \<Longrightarrow> unat (drop_bit 8 v) < unat v"
  unfolding unat_drop_bit_eq by (simp add: drop_bit_eq_div word_gt_0 unat_gt_0)

function symbol_name_loop :: "64 word \<Rightarrow> string" where
  "symbol_name_loop v =
     (if v > 0 then char_of (unat (v AND 0xFF)) # symbol_name_loop (drop_bit 8 v) else [])"
  by auto
termination
  by (relation "measure unat") (simp_all add: unat_drop_bit_8)

definition symbol_name :: "symbol \<Rightarrow> string" where
  "symbol_name s = symbol_name_loop (drop_bit 8 (m_value s))"

definition decimals :: "symbol \<Rightarrow> 8 word" where
  "decimals s = ucast (m_value s AND 0xFF)"

definition valid_name :: "string \<Rightarrow> bool" where
  "valid_name s \<longleftrightarrow> list_all upper_case s"

definition symbol_valid :: "symbol \<Rightarrow> bool" where
  "symbol_valid s \<longleftrightarrow> unat (decimals s) \<le> max_precision \<and> valid_name (symbol_name s)"

definition mk_symbol :: "64 word \<Rightarrow> symbol res" where
  "mk_symbol v =
     (let s = \<lparr>m_value = v\<rparr> in if symbol_valid s then Inr s else Inl Symbol_type_exception)"

definition mk_symbol_str :: "8 word \<Rightarrow> string \<Rightarrow> symbol res" where
  "mk_symbol_str p s = bind_res (string_to_symbol p s) mk_symbol"

fun find_char :: "char \<Rightarrow> string \<Rightarrow> nat option" where
  "find_char c [] = None"
| "find_char c (d # s) = (if c = d then Some 0 else map_option Suc (find_char c s))"

definition symbol_from_string :: "fc_lib \<Rightarrow> string \<Rightarrow> symbol res" where
  "symbol_from_string L from =
     (let s = fc_trim L from in
      bind_res (eos_assert (s \<noteq> []) Symbol_type_exception) (\<lambda>_.
      case find_char CHR '','' s of
        None \<Rightarrow> Inl Symbol_type_exception
      | Some comma_pos \<Rightarrow>
          bind_res (fc_to_uint64 L (take comma_pos s)) (\<lambda>n.
          let p = (ucast n :: 8 word); name_part = drop (comma_pos + 1) s in
          bind_res (eos_assert (unat p \<le> max_precision) Symbol_type_exception) (\<lambda>_.
          bind_res (string_to_symbol p name_part) mk_symbol))))"

definition symbol_to_string :: "symbol \<Rightarrow> string" where
  "symbol_to_string s = to_dec (unat (decimals s)) @ CHR '','' # symbol_name s"

fun precision_loop :: "nat \<Rightarrow> 64 word \<Rightarrow> 64 word" where
  "precision_loop 0 p10 = p10"
| "precision_loop (Suc p) p10 = precision_loop p (p10 * 10)"

definition symbol_precision :: "symbol \<Rightarrow> 64 word res" where
  "symbol_precision s =
     bind_res (eos_assert (unat (decimals s) \<le> max_precision) Symbol_type_exception) (\<lambda>_.
     Inr (precision_loop (unat (decimals s)) 1))"

definition to_symbol_code :: "symbol \<Rightarrow> 64 word" where
  "to_symbol_code s = drop_bit 8 (m_value s)"

record symbol_info =
  si_decs :: "8 word"
  si_sym :: "64 word"

definition symbol_info_of :: "symbol \<Rightarrow> symbol_info" where
  "symbol_info_of s = \<lparr>si_decs = decimals s, si_sym = to_symbol_code s\<rparr>"

definition symbol_of_info :: "symbol_info \<Rightarrow> symbol res" where
  "symbol_of_info i = mk_symbol (push_bit 8 (si_sym i) OR ucast (si_decs i))"

section \<open>Assets\<close>

record asset =
  amount :: int
  sym :: symbol

definition max_amount :: int where "max_amount = 2 ^ 62 - 1"

definition is_amount_within_range :: "asset \<Rightarrow> bool" where
  "is_amount_within_range a \<longleftrightarrow> - max_amount \<le> amount a \<and> amount a \<le> max_amount"

definition asset_is_valid :: "asset \<Rightarrow> bool" where
  "asset_is_valid a \<longleftrightarrow> is_amount_within_range a \<and> symbol_valid (sym a)"

definition mk_asset :: "int \<Rightarrow> symbol \<Rightarrow> asset res" where
  "mk_asset a s =
     (let r = \<lparr>amount = a, sym = s\<rparr> in
      bind_res (eos_assert (is_amount_within_range r) Asset_type_exception) (\<lambda>_.
      bind_res (eos_assert (symbol_valid s) Asset_type_exception) (\<lambda>_. Inr r)))"

definition asset_precision :: "asset \<Rightarrow> int res" where
  "asset_precision a = bind_res (symbol_precision (sym a)) (\<lambda>p. Inr (sint p))"

text \<open>Signed overflow is undefined in C++.\<close>

definition i64 :: "int \<Rightarrow> int res" where
  "i64 n = (if in_ty int64_t n then Inr n else Inl Undefined_behaviour)"

definition asset_add_assign :: "asset \<Rightarrow> asset \<Rightarrow> asset res" where
  "asset_add_assign a b =
     bind_res (eos_assert (sym a = sym b) Asset_type_exception) (\<lambda>_.
     bind_res (i64 (amount a + amount b)) (\<lambda>n. Inr (a\<lparr>amount := n\<rparr>)))"

definition asset_sub_assign :: "asset \<Rightarrow> asset \<Rightarrow> asset res" where
  "asset_sub_assign a b =
     bind_res (eos_assert (sym a = sym b) Asset_type_exception) (\<lambda>_.
     bind_res (i64 (amount a - amount b)) (\<lambda>n. Inr (a\<lparr>amount := n\<rparr>)))"

definition asset_neg :: "asset \<Rightarrow> asset res" where
  "asset_neg a = bind_res (i64 (- amount a)) (\<lambda>n. mk_asset n (sym a))"

definition asset_plus :: "asset \<Rightarrow> asset \<Rightarrow> asset res" where
  "asset_plus a b =
     bind_res (eos_assert (sym a = sym b) Asset_type_exception) (\<lambda>_.
     bind_res (i64 (amount a + amount b)) (\<lambda>n. mk_asset n (sym a)))"

definition asset_minus :: "asset \<Rightarrow> asset \<Rightarrow> asset res" where
  "asset_minus a b =
     bind_res (eos_assert (sym a = sym b) Asset_type_exception) (\<lambda>_.
     bind_res (i64 (amount a - amount b)) (\<lambda>n. mk_asset n (sym a)))"

definition asset_less :: "asset \<Rightarrow> asset \<Rightarrow> bool res" where
  "asset_less a b =
     bind_res (eos_assert (sym a = sym b) Asset_type_exception) (\<lambda>_.
     Inr (amount a < amount b \<or> amount a = amount b \<and> m_value (sym a) < m_value (sym b)))"

definition asset_less_eq :: "asset \<Rightarrow> asset \<Rightarrow> bool res" where
  "asset_less_eq a b = (if a = b then Inr True else asset_less a b)"

definition asset_to_string :: "fc_lib \<Rightarrow> asset \<Rightarrow> string res" where
  "asset_to_string L a =
     (let sign = (if amount a < 0 then ''-'' else '''') in
      bind_res (i64 \<bar>amount a\<bar>) (\<lambda>abs_amount.
      bind_res (asset_precision a) (\<lambda>prec.
      let result = fc_to_string L (abs_amount sdiv prec) in
      let result = (if decimals (sym a) \<noteq> 0
                    then result @ ''.'' @ drop 1 (fc_to_string L (prec + abs_amount smod prec))
                    else result) in
      Inr (sign @ result @ '' '' @ symbol_name (sym a)))))"

definition asset_parse_amount :: "fc_lib \<Rightarrow> string \<Rightarrow> nat option \<Rightarrow> (int \<times> int) res" where
  "asset_parse_amount L amount_str dot_pos =
     (case dot_pos of
        Some d \<Rightarrow>
          bind_res (fc_to_int64 L (take d amount_str)) (\<lambda>int_part.
          bind_res (fc_to_int64 L (drop (d + 1) amount_str)) (\<lambda>fract_part.
          if take 1 amount_str = ''-''
          then bind_res (fc_safe_mul L fract_part (- 1)) (\<lambda>fract_part. Inr (int_part, fract_part))
          else Inr (int_part, fract_part)))
      | None \<Rightarrow> bind_res (fc_to_int64 L amount_str) (\<lambda>int_part. Inr (int_part, 0)))"

definition asset_from_string :: "fc_lib \<Rightarrow> string \<Rightarrow> asset res" where
  "asset_from_string L from =
     (let s = fc_trim L from in
      case find_char CHR '' '' s of
        None \<Rightarrow> Inl Asset_type_exception
      | Some space_pos \<Rightarrow>
          let symbol_str = fc_trim L (drop (space_pos + 1) s);
              amount_str = take space_pos s;
              dot_pos = find_char CHR ''.'' amount_str in
          bind_res (eos_assert (dot_pos = None \<or> dot_pos \<noteq> Some (length amount_str - 1))
                      Asset_type_exception) (\<lambda>_.
          let precision_digit_str =
                (case dot_pos of Some d \<Rightarrow> to_dec (length amount_str - d - 1) | None \<Rightarrow> ''0'') in
          bind_res (symbol_from_string L (precision_digit_str @ '','' @ symbol_str)) (\<lambda>sy.
          bind_res (asset_parse_amount L amount_str dot_pos) (\<lambda>(int_part, fract_part).
          bind_res (symbol_precision sy) (\<lambda>p.
          bind_res (fc_safe_mul L int_part (sint p)) (\<lambda>a.
          bind_res (fc_safe_add L a fract_part) (\<lambda>a.
          mk_asset a sy)))))))"

section \<open>Decimal conversion\<close>

declare to_dec.simps [simp del] symbol_name_loop.simps [simp del]

lemma of_char_digit: "k < 10 \<Longrightarrow> of_char (char_of (48 + k) :: char) = (48 + k :: nat)"
  by simp

lemma dec_digit_char_of: "k < 10 \<Longrightarrow> dec_digit (char_of (48 + k :: nat))"
  by (simp add: dec_digit_def less_eq_char_def)

lemma dec_val_snoc [simp]: "dec_val (s @ [c]) = 10 * dec_val s + (of_char c - 48)"
  by (simp add: dec_val_def)

lemma dec_val_Nil [simp]: "dec_val [] = 0"
  by (simp add: dec_val_def)

lemma to_dec_decimal: "decimal (to_dec n)"
proof (induction n rule: to_dec.induct)
  case (1 n)
  then show ?case
    by (subst to_dec.simps) (auto simp: decimal_def dec_digit_char_of)
qed

lemma dec_val_to_dec [simp]: "dec_val (to_dec n) = n"
proof (induction n rule: to_dec.induct)
  case (1 n)
  have "dec_val [char_of (48 + n)] = n" if "n < 10"
    using dec_val_snoc [of "[]" "char_of (48 + n)"] of_char_digit [OF that] by simp
  with 1 show ?case
    by (subst to_dec.simps) (auto simp: of_char_digit simp del: of_char_of)
qed

text \<open>Adding the power of ten keeps the leading zeros of the fraction.\<close>

lemma to_dec_padded:
  "f < 10 ^ d \<Longrightarrow>
   \<exists>s. to_dec (10 ^ d + f) = CHR ''1'' # s \<and> length s = d \<and> list_all dec_digit s \<and> dec_val s = f"
proof (induction d arbitrary: f)
  case 0
  have "char_of (49 :: nat) = CHR ''1''" by code_simp
  with 0 show ?case by (simp add: to_dec.simps)
next
  case (Suc d)
  from Suc.prems have "f div 10 < 10 ^ d" by (simp add: less_mult_imp_div_less mult.commute)
  with Suc.IH obtain s where s: "to_dec (10 ^ d + f div 10) = CHR ''1'' # s" "length s = d"
    "list_all dec_digit s" "dec_val s = f div 10" by blast
  have ge: "\<not> 10 ^ Suc d + f < 10" using one_le_power [of "10 :: nat" d] by (simp only: power_Suc) linarith
  have "to_dec (10 ^ Suc d + f) = CHR ''1'' # s @ [char_of (48 + f mod 10)]"
    using s(1) ge by (subst to_dec.simps) (simp add: div_add1_eq [of "10 * 10 ^ d" f 10])
  moreover have "dec_val (s @ [char_of (48 + f mod 10)]) = f"
    unfolding dec_val_snoc using s(4) of_char_digit [of "f mod 10"] by simp
  ultimately show ?case using s by (auto simp: dec_digit_char_of)
qed

lemma find_char_None: "c \<notin> set s \<Longrightarrow> find_char c s = None"
  by (induction s) auto

lemma find_char_append: "c \<notin> set s \<Longrightarrow> find_char c (s @ c # t) = Some (length s)"
  by (induction s) auto

lemma dec_digit_neq:
  "dec_digit c \<Longrightarrow> c \<noteq> CHR ''-'' \<and> c \<noteq> CHR ''.'' \<and> c \<noteq> CHR '' '' \<and> c \<noteq> CHR '','' \<and> \<not> is_blank c"
  by (auto simp: dec_digit_def is_blank_def less_eq_char_def)

lemma upper_case_neq:
  "upper_case c \<Longrightarrow> c \<noteq> CHR 0x00 \<and> c \<noteq> CHR '','' \<and> c \<noteq> CHR '' '' \<and> \<not> is_blank c"
  by (auto simp: upper_case_def is_blank_def less_eq_char_def)

section \<open>Symbols and their names\<close>

lemma take_bit_8: "(w :: 64 word) AND 0xFF = take_bit 8 w"
  by (simp add: take_bit_eq_mask mask_eq_exp_minus_1)

lemma decimals_eq: "decimals s = ucast (m_value s)"
  unfolding decimals_def take_bit_8
  by (rule bit_word_eqI) (auto simp: bit_simps)

lemma symbol_name_loop_nz:
  "w \<noteq> 0 \<Longrightarrow> symbol_name_loop w = char_of (unat (w AND 0xFF)) # symbol_name_loop (drop_bit 8 w)"
  by (simp add: symbol_name_loop.simps [of w] word_gt_0)

lemma symbol_name_loop_Nil: "symbol_name_loop w = [] \<longleftrightarrow> w = 0"
  by (simp add: symbol_name_loop.simps [of w] word_gt_0)

lemma symbol_char_round:
  "of_nat (of_char (char_of (unat ((w :: 64 word) AND 0xFF)) :: char)) = w AND 0xFF"
proof -
  have "unat (take_bit 8 w) < 256"
    using take_bit_nat_less_exp [of 8 "unat w"] by (simp add: unsigned_take_bit_eq)
  then show ?thesis by (simp add: take_bit_8 del: take_bit_of_nat)
qed

lemma or_push_split:
  "k' = k + 8 \<Longrightarrow>
   push_bit k (take_bit 8 (drop_bit k v)) OR push_bit k' (drop_bit k' v) = push_bit k (drop_bit k (v :: 64 word))"
proof (rule bit_word_eqI)
  fix n assume "k' = k + 8" "n < LENGTH(64)"
  then show "bit (push_bit k (take_bit 8 (drop_bit k v)) OR push_bit k' (drop_bit k' v)) n
      = bit (push_bit k (drop_bit k v)) n"
    by (cases "k + 8 \<le> n") (auto simp: bit_simps)
qed

lemma symbol_loop_name:
  assumes "list_all upper_case (symbol_name_loop (drop_bit (8 * (i + 1)) v))"
  shows "string_to_symbol_loop (symbol_name_loop (drop_bit (8 * (i + 1)) v)) i r
    = Inr (r OR push_bit (8 * (i + 1)) (drop_bit (8 * (i + 1)) v))"
  using assms
proof (induction "symbol_name_loop (drop_bit (8 * (i + 1)) v)" arbitrary: i r)
  case Nil
  then have "drop_bit (8 * (i + 1)) v = 0" by (metis symbol_name_loop_Nil)
  with Nil show ?case by simp
next
  case (Cons c cs)
  let ?k = "8 * (i + 1)" and ?w = "drop_bit (8 * (i + 1)) v"
  have nz: "?w \<noteq> 0"
    using Cons.hyps(2) symbol_name_loop_Nil by (metis list.distinct(1))
  have nx: "drop_bit 8 ?w = drop_bit (8 * (Suc i + 1)) v" by (simp add: drop_bit_drop_bit)
  have c: "c = char_of (unat (?w AND 0xFF))" and cs: "cs = symbol_name_loop (drop_bit (8 * (Suc i + 1)) v)"
    using Cons.hyps(2) symbol_name_loop_nz [OF nz] nx by (metis list.inject)+
  have k: "\<not> 64 \<le> ?k"
  proof
    assume "64 \<le> ?k"
    then have "?w = 0" by (simp add: bit_eq_iff bit_simps)
    with nz show False by simp
  qed
  have merge: "push_bit ?k (?w AND 0xFF) OR push_bit (8 * (Suc i + 1)) (drop_bit (8 * (Suc i + 1)) v)
      = push_bit ?k ?w"
    unfolding take_bit_8 by (rule or_push_split) simp
  have up: "upper_case c" "list_all upper_case cs"
    using Cons.prems unfolding Cons.hyps(2) [symmetric] by simp_all
  have "string_to_symbol_loop (c # cs) i r =
      string_to_symbol_loop cs (Suc i) (r OR push_bit ?k (?w AND 0xFF))"
    unfolding string_to_symbol_loop.simps(2) unfolding c symbol_char_round
    using k up(1) unfolding c by simp
  also have "\<dots> = Inr ((r OR push_bit ?k (?w AND 0xFF)) OR
      push_bit (8 * (Suc i + 1)) (drop_bit (8 * (Suc i + 1)) v))"
    using Cons.hyps(1) [OF cs] up(2) cs by simp
  also have "\<dots> = Inr (r OR push_bit ?k ?w)" unfolding or.assoc merge ..
  finally show ?case unfolding Cons.hyps(2) [symmetric] .
qed

lemma c_str_upper: "list_all upper_case s \<Longrightarrow> c_str s = s"
  using upper_case_neq by (auto simp: c_str_def takeWhile_eq_all_conv list_all_iff)

lemma string_to_symbol_name:
  assumes "valid_name (symbol_name s)"
  shows "string_to_symbol (decimals s) (symbol_name s) = Inr (m_value s)"
proof -
  have "push_bit 8 (drop_bit 8 (m_value s)) OR ucast (ucast (m_value s) :: 8 word) = m_value s"
    by (rule bit_word_eqI) (auto simp: bit_simps)
  with assms symbol_loop_name [of 0 "m_value s" 0] show ?thesis
    by (simp add: string_to_symbol_def symbol_name_def valid_name_def c_str_upper decimals_eq)
qed

lemma symbol_from_string_parts:
  assumes L: "fc_lib_ok L" and v: "symbol_valid s"
    and ds: "decimal ds" "dec_val ds = unat (decimals s)"
  shows "symbol_from_string L (ds @ '','' @ symbol_name s) = Inr s"
proof -
  let ?str = "ds @ '','' @ symbol_name s"
  have "\<not> is_blank (hd ?str)"
    using ds dec_digit_neq by (cases ds) (auto simp: decimal_def)
  moreover have "\<not> is_blank (last ?str)"
    using v upper_case_neq by (auto simp: symbol_valid_def valid_name_def list_all_iff is_blank_def)
  ultimately have trim: "fc_trim L ?str = ?str" using L by (simp add: fc_lib_ok_def)
  have "CHR '','' \<notin> set ds" using ds dec_digit_neq by (auto simp: decimal_def list_all_iff)
  then have comma: "find_char CHR '','' ?str = Some (length ds)"
    by (simp add: find_char_append)
  have "dec_val ds < 2 ^ 64" using ds(2) v by (simp add: symbol_valid_def max_precision_def)
  then have num: "fc_to_uint64 L ds = Inr (of_nat (unat (decimals s)))"
    using L ds by (simp add: fc_lib_ok_def)
  have p: "ucast (of_nat (unat (decimals s)) :: 64 word) = decimals s"
    by (rule bit_word_eqI) (simp add: bit_simps)
  have parts: "take (length ds) ?str = ds" "drop (length ds + 1) ?str = symbol_name s" by simp_all
  have mk: "mk_symbol (m_value s) = Inr s" using v by (cases s) (simp add: mk_symbol_def Let_def)
  have sts: "string_to_symbol (decimals s) (symbol_name s) = Inr (m_value s)"
    and le: "unat (decimals s) \<le> max_precision"
    using v string_to_symbol_name [of s] by (simp_all add: symbol_valid_def)
  show ?thesis
    unfolding symbol_from_string_def Let_def trim comma option.case parts num bind_res.simps p sts
    using le mk by simp
qed

lemma sint_of_nat_small: "n < 2 ^ 63 \<Longrightarrow> sint (of_nat n :: 64 word) = int n"
  by (simp add: signed_of_nat signed_take_bit_int_eq_self)

lemma symbol_precision_valid:
  assumes "symbol_valid s"
  shows "symbol_precision s = Inr (10 ^ unat (decimals s))"
    and "sint ((10 :: 64 word) ^ unat (decimals s)) = 10 ^ unat (decimals s)"
proof -
  have loop: "precision_loop n p = p * 10 ^ n" for n p
    by (induction n arbitrary: p) (auto simp: algebra_simps)
  show "symbol_precision s = Inr (10 ^ unat (decimals s))"
    using assms by (simp add: symbol_precision_def symbol_valid_def loop)
  have "unat (decimals s) \<le> 18" using assms by (simp add: symbol_valid_def max_precision_def)
  then have "(10 :: nat) ^ unat (decimals s) \<le> 10 ^ 18" by (rule power_increasing) simp
  then have small: "(10 :: nat) ^ unat (decimals s) < 2 ^ 63" by simp
  have "sint ((10 :: 64 word) ^ unat (decimals s)) = sint (of_nat (10 ^ unat (decimals s)) :: 64 word)"
    by simp
  also have "\<dots> = int (10 ^ unat (decimals s))"
    using small by (intro sint_of_nat_small) 
  finally show "sint ((10 :: 64 word) ^ unat (decimals s)) = 10 ^ unat (decimals s)" by simp
qed

section \<open>Asset text\<close>

lemma symbol_name_upper: "symbol_valid s \<Longrightarrow> list_all upper_case (symbol_name s)"
  by (simp add: symbol_valid_def valid_name_def)

definition amount_text :: "bool \<Rightarrow> string \<Rightarrow> string \<Rightarrow> string" where
  "amount_text neg q f = (if neg then ''-'' else '''') @ q @ (if f = [] then [] else ''.'' @ f)"

lemma amount_text_chars:
  assumes "decimal q" "list_all dec_digit f"
  shows "amount_text neg q f \<noteq> []" "\<not> is_blank (hd (amount_text neg q f))"
    "CHR '' '' \<notin> set (amount_text neg q f)"
  using assms dec_digit_neq
  by (auto simp: amount_text_def decimal_def list_all_iff is_blank_def hd_append)

lemma asset_parse_amount_text:
  assumes L: "fc_lib_ok L" and q: "decimal q" "dec_val q < 2 ^ 63"
    and f: "list_all dec_digit f" "dec_val f < 2 ^ 63"
  shows "find_char CHR ''.'' (amount_text neg q f)
      = (if f = [] then None else Some (length (amount_text neg q f) - Suc (length f)))"
    and "asset_parse_amount L (amount_text neg q f) (find_char CHR ''.'' (amount_text neg q f))
      = Inr (if neg then (- int (dec_val q), - int (dec_val f)) else (int (dec_val q), int (dec_val f)))"
proof -
  have nodot: "CHR ''.'' \<notin> set q" and q0: "q \<noteq> []" "hd q \<noteq> CHR ''-''"
    using q dec_digit_neq by (auto simp: decimal_def list_all_iff)
  have conv: "fc_to_int64 L q = Inr (int (dec_val q))"
    "fc_to_int64 L (CHR ''-'' # q) = Inr (- int (dec_val q))"
    "f \<noteq> [] \<Longrightarrow> fc_to_int64 L f = Inr (int (dec_val f))"
    using L q f by (auto simp: fc_lib_ok_def decimal_def)
  have neg_f: "fc_safe_mul L (int (dec_val f)) (- 1) = Inr (- int (dec_val f))"
    using L f(2) by (simp add: fc_lib_ok_def in_ty_def ty_min_def ty_max_def)
  have dot: "find_char CHR ''.'' (q @ CHR ''.'' # f) = Some (length q)"
    using nodot by (rule find_char_append)
  have first: "take (Suc 0) (q @ t) \<noteq> ''-''" for t using q0 by (cases q) auto
  show "find_char CHR ''.'' (amount_text neg q f)
      = (if f = [] then None else Some (length (amount_text neg q f) - Suc (length f)))"
    using nodot dot find_char_None by (simp add: amount_text_def)
  show "asset_parse_amount L (amount_text neg q f) (find_char CHR ''.'' (amount_text neg q f))
      = Inr (if neg then (- int (dec_val q), - int (dec_val f)) else (int (dec_val q), int (dec_val f)))"
    using nodot dot conv neg_f first [of "[]"] first [of "CHR ''.'' # f"] find_char_None [of _ q]
    by (simp add: amount_text_def asset_parse_amount_def)
qed

text \<open>Reading a well-formed amount and symbol.\<close>

lemma asset_from_string_text:
  assumes L: "fc_lib_ok L" and s: "symbol_valid s" "symbol_name s \<noteq> []"
    and q: "decimal q" and f: "list_all dec_digit f" "length f = unat (decimals s)"
    and n: "n = dec_val q * 10 ^ length f + dec_val f" "int n \<le> max_amount"
  shows "asset_from_string L (amount_text neg q f @ '' '' @ symbol_name s)
      = mk_asset (if neg then - int n else int n) s"
proof -
  let ?amt = "amount_text neg q f" and ?nm = "symbol_name s"
  let ?str = "?amt @ '' '' @ ?nm"
  have n63: "n < 2 ^ 63" using n(2) by (simp add: max_amount_def)
  have q63: "dec_val q < 2 ^ 63" and f63: "dec_val f < 2 ^ 63"
    using n63 n(1) by (auto intro: le_less_trans [of _ n] simp: trans_le_add1)
  have up: "\<not> is_blank (hd ?nm)" "\<not> is_blank (last ?nm)"
    using symbol_name_upper [OF s(1)] s(2) upper_case_neq by (auto simp: list_all_iff)
  have trim: "fc_trim L ?str = ?str" "fc_trim L ?nm = ?nm"
    using L up s(2) amount_text_chars [OF q f(1), of neg] by (auto simp: fc_lib_ok_def)
  have space: "find_char CHR '' '' ?str = Some (length ?amt)"
    using find_char_append amount_text_chars [OF q f(1)] by simp
  have cut: "take (length ?amt) ?str = ?amt" "drop (length ?amt + 1) ?str = ?nm" by simp_all
  note pa = asset_parse_amount_text [OF L q q63 f(1) f63, of neg]
  have len: "Suc (length f) < length ?amt" if "f \<noteq> []"
    using q that by (cases q) (auto simp: amount_text_def decimal_def)
  have sy: "symbol_from_string L ((case find_char CHR ''.'' ?amt of
      Some d \<Rightarrow> to_dec (length ?amt - d - 1) | None \<Rightarrow> ''0'') @ '','' @ ?nm) = Inr s"
  proof (rule symbol_from_string_parts [OF L s(1)])
    show "decimal (case find_char CHR ''.'' ?amt of
        Some d \<Rightarrow> to_dec (length ?amt - d - 1) | None \<Rightarrow> ''0'')"
      using to_dec_decimal by (auto simp: pa(1) decimal_def dec_digit_def)
    show "dec_val (case find_char CHR ''.'' ?amt of
        Some d \<Rightarrow> to_dec (length ?amt - d - 1) | None \<Rightarrow> ''0'') = unat (decimals s)"
      using len f(2) by (auto simp: pa(1) dec_val_def [of "''0''"])
  qed
  let ?i = "if neg then - int (dec_val q) else int (dec_val q)"
    and ?f = "if neg then - int (dec_val f) else int (dec_val f)"
  define A where "A = int (dec_val q) * 10 ^ length f"
  have "A + int (dec_val f) < 2 ^ 63" "0 \<le> A"
    using n63 n(1) unfolding A_def
    by (metis of_nat_less_iff of_nat_add of_nat_mult of_nat_power of_nat_numeral, simp)
  then have "in_ty int64_t (if neg then - A else A)" "in_ty int64_t ((if neg then - A else A) + ?f)"
    by (auto simp: in_ty_def ty_min_def ty_max_def)
  then have "in_ty int64_t (?i * 10 ^ length f)" "in_ty int64_t (?i * 10 ^ length f + ?f)"
    by (auto simp: A_def split: if_splits)
  then have arith: "fc_safe_mul L ?i (10 ^ length f) = Inr (?i * 10 ^ length f)"
    "fc_safe_add L (?i * 10 ^ length f) ?f = Inr (?i * 10 ^ length f + ?f)"
    using L by (simp_all add: fc_lib_ok_def)
  have val: "?i * 10 ^ length f + ?f = (if neg then - int n else int n)" using n(1) by simp
  have d: "find_char CHR ''.'' ?amt = None \<or> find_char CHR ''.'' ?amt \<noteq> Some (length ?amt - 1)"
  proof (cases "f = []")
    case False
    then obtain m where "length f = Suc m" by (cases f) auto
    with len False show ?thesis by (simp add: pa(1))
  qed (use pa(1) in auto)
  show ?thesis
    unfolding asset_from_string_def Let_def trim space option.case cut sy pa(2)
    using d arith val symbol_precision_valid [OF s(1)] f(2) by (auto split: if_splits)
qed

lemma asset_to_string_text:
  assumes L: "fc_lib_ok L" and a: "asset_is_valid a"
  obtains q f where "asset_to_string L a = Inr (amount_text (amount a < 0) q f @ '' '' @ symbol_name (sym a))"
    and "decimal q" and "list_all dec_digit f" and "length f = unat (decimals (sym a))"
    and "nat \<bar>amount a\<bar> = dec_val q * 10 ^ length f + dec_val f"
proof -
  define d where "d = unat (decimals (sym a))"
  define n where "n = nat \<bar>amount a\<bar>"
  have v: "symbol_valid (sym a)" and n62: "int n \<le> max_amount"
    using a by (auto simp: asset_is_valid_def is_amount_within_range_def n_def)
  have abs: "i64 \<bar>amount a\<bar> = Inr (int n)"
    using n62 by (simp add: i64_def in_ty_def ty_min_def ty_max_def max_amount_def n_def)
  have prec: "asset_precision a = Inr (int (10 ^ d))"
    using symbol_precision_valid [OF v] by (simp add: asset_precision_def d_def)
  have divmod: "int n sdiv int (10 ^ d) = int (n div 10 ^ d)" "int n smod int (10 ^ d) = int (n mod 10 ^ d)"
    by (simp_all add: sdiv_nonneg smod_nonneg zdiv_int zmod_int)
  have dz: "decimals (sym a) \<noteq> 0 \<longleftrightarrow> 0 < d" by (simp add: d_def unat_gt_0)
  obtain f where f: "to_dec (10 ^ d + n mod 10 ^ d) = CHR ''1'' # f" "length f = d"
    "list_all dec_digit f" "dec_val f = n mod 10 ^ d"
    using to_dec_padded [of "n mod 10 ^ d" d] by auto
  have str: "fc_to_string L (int k) = to_dec k" for k using L by (simp add: fc_lib_ok_def)
  have "asset_to_string L a =
      Inr (amount_text (amount a < 0) (to_dec (n div 10 ^ d)) f @ '' '' @ symbol_name (sym a))"
    unfolding asset_to_string_def abs prec bind_res.simps Let_def divmod of_nat_add [symmetric] str f(1) dz
    using f(2) by (auto simp: amount_text_def)
  moreover have "n = dec_val (to_dec (n div 10 ^ d)) * 10 ^ length f + dec_val f"
    by (simp only: f(2,4) dec_val_to_dec div_mult_mod_eq)
  ultimately show thesis
    using that to_dec_decimal f(2,3) unfolding d_def n_def by blast
qed

text \<open>A library that satisfies \<open>fc_lib_ok\<close>.\<close>

definition fc_ref_to_int64 :: "string \<Rightarrow> int res" where
  "fc_ref_to_int64 s =
     (let neg = take 1 s = ''-''; ds = (if neg then drop 1 s else s);
          v = (if neg then - int (dec_val ds) else int (dec_val ds)) in
      if decimal ds \<and> in_ty int64_t v then Inr v else Inl Parse_error_exception)"

definition fc_ref_safe :: "int \<Rightarrow> int res" where
  "fc_ref_safe v = (if in_ty int64_t v then Inr v else Inl Overflow_exception)"

definition fc_reference :: fc_lib where
  "fc_reference = \<lparr>
     fc_trim = (\<lambda>s. rev (dropWhile is_blank (rev (dropWhile is_blank s)))),
     fc_to_uint64 = (\<lambda>s. if decimal s \<and> dec_val s < 2 ^ 64 then Inr (of_nat (dec_val s))
                         else Inl Parse_error_exception),
     fc_to_int64 = fc_ref_to_int64,
     fc_to_string = (\<lambda>n. (if n < 0 then ''-'' else '''') @ to_dec (nat \<bar>n\<bar>)),
     fc_safe_mul = (\<lambda>a b. fc_ref_safe (a * b)),
     fc_safe_add = (\<lambda>a b. fc_ref_safe (a + b))\<rparr>"

lemma fc_reference_ok: "fc_lib_ok fc_reference"
proof -
  have "rev (dropWhile is_blank (rev (dropWhile is_blank s))) = s"
    if "s \<noteq> []" "\<not> is_blank (hd s)" "\<not> is_blank (last s)" for s
  proof -
    have "dropWhile is_blank s = s" using that by (cases s) auto
    moreover have "dropWhile is_blank (rev s) = rev s"
      using that by (cases s rule: rev_cases) auto
    ultimately show ?thesis by simp
  qed
  moreover have "fc_ref_to_int64 s = Inr (int (dec_val s)) \<and>
      fc_ref_to_int64 (CHR ''-'' # s) = Inr (- int (dec_val s))"
    if "decimal s" "dec_val s < 2 ^ 63" for s
  proof -
    have "take (Suc 0) s \<noteq> ''-''" using that dec_digit_neq by (cases s) (auto simp: decimal_def)
    with that show ?thesis by (simp add: fc_ref_to_int64_def Let_def in_ty_def ty_min_def ty_max_def)
  qed
  ultimately show ?thesis by (simp add: fc_lib_ok_def fc_reference_def fc_ref_safe_def)
qed

section \<open>Properties\<close>

text \<open>
  C32. Printing a valid asset and reading the text back gives the same asset, for every amount of magnitude
  below \<open>2 ^ 62\<close> (negative amounts and fractions with leading zeros included) and every symbol with a
  non-empty name.
\<close>

theorem asset_string_roundtrip:
  assumes "fc_lib_ok L" and "asset_is_valid a" and "symbol_name (sym a) \<noteq> ''''"
  shows "bind_res (asset_to_string L a) (asset_from_string L) = Inr a"
proof -
  obtain q f where t: "asset_to_string L a = Inr (amount_text (amount a < 0) q f @ '' '' @ symbol_name (sym a))"
    "decimal q" "list_all dec_digit f" "length f = unat (decimals (sym a))"
    "nat \<bar>amount a\<bar> = dec_val q * 10 ^ length f + dec_val f"
    using asset_to_string_text [OF assms(1,2)] by metis
  have v: "symbol_valid (sym a)" "is_amount_within_range a" using assms(2) by (auto simp: asset_is_valid_def)
  have "int (nat \<bar>amount a\<bar>) \<le> max_amount" using v(2) by (auto simp: is_amount_within_range_def)
  from asset_from_string_text [OF assms(1) v(1) _ t(2-5) this, of "amount a < 0"] assms(3)
  have "asset_from_string L (amount_text (amount a < 0) q f @ '' '' @ symbol_name (sym a))
      = mk_asset (amount a) (sym a)"
    by (auto split: if_splits)
  moreover have "mk_asset (amount a) (sym a) = Inr a"
    using v by (cases a) (simp add: mk_asset_def Let_def)
  ultimately show ?thesis by (simp add: t(1))
qed

lemma cyber_valid:
  "asset_is_valid \<lparr>amount = - 105, sym = \<lparr>m_value = 90457419367172\<rparr>\<rparr>"
  "symbol_name \<lparr>m_value = 90457419367172\<rparr> \<noteq> ''''"
  by code_simp+

theorem asset_string_roundtrip_witness:
  "bind_res (asset_to_string fc_reference \<lparr>amount = - 105, sym = \<lparr>m_value = 90457419367172\<rparr>\<rparr>)
     (asset_from_string fc_reference) = Inr \<lparr>amount = - 105, sym = \<lparr>m_value = 90457419367172\<rparr>\<rparr>"
  using asset_string_roundtrip [OF fc_reference_ok cyber_valid(1)] cyber_valid(2) by simp

text \<open>
  Printing a valid symbol (\<open>"4,CYBER"\<close>) and reading the text back gives the same symbol.
\<close>

theorem symbol_string_roundtrip:
  assumes "fc_lib_ok L" and "symbol_valid s"
  shows "symbol_from_string L (symbol_to_string s) = Inr s"
  using symbol_from_string_parts [OF assms to_dec_decimal dec_val_to_dec]
  by (simp add: symbol_to_string_def)

theorem symbol_string_roundtrip_witness:
  "symbol_from_string fc_reference (symbol_to_string \<lparr>m_value = 90457419367172\<rparr>) = Inr \<lparr>m_value = 90457419367172\<rparr>"
  using symbol_string_roundtrip [OF fc_reference_ok, of "\<lparr>m_value = 90457419367172\<rparr>"] cyber_valid(1)
  by (simp add: asset_is_valid_def)

text \<open>
  C39. Adding two valid assets gives the exact sum and a valid asset, or raises: the symbols differ or the
  sum leaves the range. The 64-bit addition never overflows.
\<close>

theorem asset_plus_exact:
  assumes "asset_is_valid a" and "asset_is_valid b"
  shows "asset_plus a b =
    (if sym a = sym b \<and> \<bar>amount a + amount b\<bar> \<le> max_amount
     then Inr \<lparr>amount = amount a + amount b, sym = sym a\<rparr> else Inl Asset_type_exception)"
proof -
  have "in_ty int64_t (amount a + amount b)"
    using assms by (auto simp: asset_is_valid_def is_amount_within_range_def max_amount_def in_ty_def
        ty_min_def ty_max_def)
  with assms show ?thesis
    by (auto simp: asset_plus_def i64_def mk_asset_def Let_def is_amount_within_range_def
        asset_is_valid_def eos_assert_def abs_le_iff)
qed

theorem asset_plus_exact_witness:
  "asset_plus \<lparr>amount = - 105, sym = \<lparr>m_value = 90457419367172\<rparr>\<rparr> \<lparr>amount = - 105, sym = \<lparr>m_value = 90457419367172\<rparr>\<rparr>
     = Inr \<lparr>amount = - 210, sym = \<lparr>m_value = 90457419367172\<rparr>\<rparr>"
  using asset_plus_exact [OF cyber_valid(1) cyber_valid(1)] by (simp add: max_amount_def)

end
