(* ===== verification/MerkleTree.thy ===== *)
theory MerkleTree
  imports Prelude
begin

text \<open>
  Merkle roots: \<^verbatim>\<open>merkle.hpp\<close>, \<^verbatim>\<open>merkle.cpp\<close> and \<^verbatim>\<open>incremental_merkle.hpp\<close>.

  The hash is \<open>fc::sha256\<close>, which is not part of the repository: it is the argument \<open>hash\<close> of the
  operations, an arbitrary function of a pair of digests. \<open>append\<close> reads the active nodes through an
  iterator that it never compares with the end; running off the end is \<open>Undefined_behaviour\<close> here, and
  the main theorem shows that it does not happen.
\<close>

unbundle bit_operations_syntax

section \<open>Digests\<close>

datatype digest = Digest (hash0: "64 word") (hash1: "64 word") (hash2: "64 word") (hash3: "64 word")

definition null_digest :: digest where "null_digest = Digest 0 0 0 0"

definition make_canonical_left :: "digest \<Rightarrow> digest" where
  "make_canonical_left v = Digest (hash0 v AND 0xFFFFFFFFFFFFFF7F) (hash1 v) (hash2 v) (hash3 v)"

definition make_canonical_right :: "digest \<Rightarrow> digest" where
  "make_canonical_right v = Digest (hash0 v OR 0x80) (hash1 v) (hash2 v) (hash3 v)"

definition is_canonical_left :: "digest \<Rightarrow> bool" where
  "is_canonical_left v \<longleftrightarrow> hash0 v AND 0x80 = 0"

definition is_canonical_right :: "digest \<Rightarrow> bool" where
  "is_canonical_right v \<longleftrightarrow> hash0 v AND 0x80 \<noteq> 0"

definition make_canonical_pair :: "digest \<Rightarrow> digest \<Rightarrow> digest \<times> digest" where
  "make_canonical_pair l r = (make_canonical_left l, make_canonical_right r)"

section \<open>The root of a list\<close>

text \<open>The body of the \<open>while\<close> loop of \<open>merkle\<close>: pad to an even size, combine pairs in place, shrink.\<close>

fun merkle_for :: "(digest \<times> digest \<Rightarrow> digest) \<Rightarrow> nat \<Rightarrow> nat \<Rightarrow> digest list \<Rightarrow> digest list" where
  "merkle_for hash i 0 ids = ids"
| "merkle_for hash i (Suc n) ids =
     merkle_for hash (Suc i) n (ids[i := hash (make_canonical_pair (ids ! (2 * i)) (ids ! (2 * i + 1)))])"

definition merkle_level :: "(digest \<times> digest \<Rightarrow> digest) \<Rightarrow> digest list \<Rightarrow> digest list" where
  "merkle_level hash ids =
     (let ids = (if length ids mod 2 \<noteq> 0 then ids @ [last ids] else ids) in
      take (length ids div 2) (merkle_for hash 0 (length ids div 2) ids))"

lemma length_merkle_for [simp]: "length (merkle_for hash i n ids) = length ids"
  by (induction n arbitrary: i ids) auto

lemma length_merkle_level: "length (merkle_level hash ids) = (length ids + 1) div 2"
  by (auto simp: merkle_level_def Let_def)

function merkle_loop :: "(digest \<times> digest \<Rightarrow> digest) \<Rightarrow> digest list \<Rightarrow> digest list" where
  "merkle_loop hash ids = (if length ids > 1 then merkle_loop hash (merkle_level hash ids) else ids)"
  by auto
termination
  by (relation "measure (\<lambda>(_, ids). length ids)") (auto simp: length_merkle_level)

definition merkle :: "(digest \<times> digest \<Rightarrow> digest) \<Rightarrow> digest list \<Rightarrow> digest" where
  "merkle hash ids = (if length ids = 0 then null_digest else hd (merkle_loop hash ids))"

section \<open>The depth of a tree\<close>

definition next_power_of_2 :: "64 word \<Rightarrow> 64 word" where
  "next_power_of_2 value =
     (let value = value - 1;
          value = value OR drop_bit 1 value;
          value = value OR drop_bit 2 value;
          value = value OR drop_bit 4 value;
          value = value OR drop_bit 8 value;
          value = value OR drop_bit 16 value;
          value = value OR drop_bit 32 value
      in value + 1)"

definition clz_power_2 :: "64 word \<Rightarrow> int" where
  "clz_power_2 value =
     (let lz = 64;
          lz = (if value \<noteq> 0 then lz - 1 else lz);
          lz = (if value AND 0x00000000FFFFFFFF \<noteq> 0 then lz - 32 else lz);
          lz = (if value AND 0x0000FFFF0000FFFF \<noteq> 0 then lz - 16 else lz);
          lz = (if value AND 0x00FF00FF00FF00FF \<noteq> 0 then lz - 8 else lz);
          lz = (if value AND 0x0F0F0F0F0F0F0F0F \<noteq> 0 then lz - 4 else lz);
          lz = (if value AND 0x3333333333333333 \<noteq> 0 then lz - 2 else lz);
          lz = (if value AND 0x5555555555555555 \<noteq> 0 then lz - 1 else lz)
      in lz)"

definition calcluate_max_depth :: "64 word \<Rightarrow> int" where
  "calcluate_max_depth node_count =
     (if node_count = 0 then 0 else clz_power_2 (next_power_of_2 node_count) + 1)"

section \<open>The incremental tree\<close>

record incremental_merkle =
  node_count :: "64 word"
  active_nodes :: "digest list"

definition empty_merkle :: incremental_merkle where
  "empty_merkle = \<lparr>node_count = 0, active_nodes = []\<rparr>"

text \<open>
  The loop of \<open>append\<close>: \<open>current_depth\<close>, what \<open>active_iter\<close> has still to visit, \<open>index\<close>, \<open>top\<close>,
  \<open>partial\<close> and \<open>updated_active_nodes\<close>; the result is the last of these and \<open>top\<close>.
\<close>

fun append_loop :: "(digest \<times> digest \<Rightarrow> digest) \<Rightarrow> nat \<Rightarrow> digest list \<Rightarrow> 64 word \<Rightarrow> digest \<Rightarrow> bool
    \<Rightarrow> digest list \<Rightarrow> (digest list \<times> digest) res" where
  "append_loop hash 0 active index top_v partial updated = Inr (updated, top_v)"
| "append_loop hash (Suc current_depth) active index top_v partial updated =
     (if index AND 1 = 0 then
        append_loop hash current_depth active (drop_bit 1 index) (hash (make_canonical_pair top_v top_v)) True
          (if \<not> partial then updated @ [top_v] else updated)
      else
        (case active of
           [] \<Rightarrow> Inl Undefined_behaviour
         | left_value # active' \<Rightarrow>
             append_loop hash current_depth active' (drop_bit 1 index)
               (hash (make_canonical_pair left_value top_v)) partial
               (if partial then updated @ [left_value] else updated)))"

definition merkle_append ::
  "(digest \<times> digest \<Rightarrow> digest) \<Rightarrow> digest \<Rightarrow> incremental_merkle \<Rightarrow> incremental_merkle res" where
  "merkle_append hash digest m =
     (let max_depth = calcluate_max_depth (node_count m + 1) in
      bind_res (append_loop hash (nat (max_depth - 1)) (active_nodes m) (node_count m) digest False [])
        (\<lambda>(updated, top_v). Inr \<lparr>node_count = node_count m + 1, active_nodes = updated @ [top_v]\<rparr>))"

definition get_root :: "incremental_merkle \<Rightarrow> digest" where
  "get_root m = (if node_count m > 0 then last (active_nodes m) else null_digest)"

section \<open>Depth\<close>

declare merkle_loop.simps [simp del]

definition smeared :: "nat \<Rightarrow> 64 word \<Rightarrow> 64 word \<Rightarrow> bool" where
  "smeared m v w \<longleftrightarrow> (\<forall>i. bit w i \<longleftrightarrow> (\<exists>j. i \<le> j \<and> j < i + m \<and> bit v j))"

lemma smear_step:
  assumes "smeared m v w"
  shows "smeared (2 * m) v (w OR drop_bit m w)"
  unfolding smeared_def
proof
  fix i
  have "(\<exists>j. i \<le> j \<and> j < i + 2 * m \<and> bit v j) \<longleftrightarrow>
      (\<exists>j. i \<le> j \<and> j < i + m \<and> bit v j \<or> i + m \<le> j \<and> j < i + m + m \<and> bit v j)"
    by (intro arg_cong [of _ _ Ex] ext) auto
  with assms show "bit (w OR drop_bit m w) i \<longleftrightarrow> (\<exists>j. i \<le> j \<and> j < i + 2 * m \<and> bit v j)"
    by (simp add: smeared_def bit_simps add.commute [of m] ex_disj_distrib)
qed

lemma next_power_of_2_bits:
  "\<exists>w. next_power_of_2 v = w + 1 \<and> (\<forall>i. bit w i \<longleftrightarrow> (\<exists>j. i \<le> j \<and> bit (v - 1) j))"
proof -
  define w0 where "w0 = v - 1"
  define w1 where "w1 = w0 OR drop_bit 1 w0"
  define w2 where "w2 = w1 OR drop_bit 2 w1"
  define w3 where "w3 = w2 OR drop_bit 4 w2"
  define w4 where "w4 = w3 OR drop_bit 8 w3"
  define w5 where "w5 = w4 OR drop_bit 16 w4"
  define w6 where "w6 = w5 OR drop_bit 32 w5"
  have "smeared 1 w0 w0" by (auto simp: smeared_def less_Suc_eq_le)
  from smear_step [OF this] have "smeared 2 w0 w1" by (simp add: w1_def)
  from smear_step [OF this] have "smeared 4 w0 w2" by (simp add: w2_def)
  from smear_step [OF this] have "smeared 8 w0 w3" by (simp add: w3_def)
  from smear_step [OF this] have "smeared 16 w0 w4" by (simp add: w4_def)
  from smear_step [OF this] have "smeared 32 w0 w5" by (simp add: w5_def)
  from smear_step [OF this] have "smeared 64 w0 w6" by (simp add: w6_def)
  moreover have "j < i + 64" if "bit w0 j" for i j
    using bit_imp_le_length [OF that] by simp
  ultimately have "bit w6 i \<longleftrightarrow> (\<exists>j. i \<le> j \<and> bit w0 j)" for i
    unfolding smeared_def by blast
  moreover have "next_power_of_2 v = w6 + 1"
    by (simp add: next_power_of_2_def Let_def w0_def w1_def w2_def w3_def w4_def w5_def w6_def)
  ultimately show ?thesis unfolding w0_def by blast
qed

lemma clz_power_2_power:
  assumes "k \<le> 64"
  shows "clz_power_2 (2 ^ k) = int k"
proof (cases "k = 64")
  case True
  have "(2 :: 64 word) ^ 64 = 0" by simp
  then show ?thesis unfolding True by (simp only: clz_power_2_def) simp
next
  case False
  have "map (\<lambda>k. clz_power_2 (2 ^ k)) [0..<64] = map int [0..<64]"
    by (simp add: clz_power_2_def upt_rec)
  moreover have "k \<in> set [0..<64]" using assms False by (simp del: upt_rec_numeral)
  ultimately show ?thesis unfolding map_eq_conv by blast
qed

lemma next_power_of_2_eq:
  assumes "2 ^ h < n" "n \<le> 2 ^ Suc h" "n < 2 ^ 64"
  shows "next_power_of_2 (of_nat n) = 2 ^ Suc h"
proof -
  define m where "m = n - 1"
  have m: "2 ^ h \<le> m" "m < 2 ^ Suc h" "m < 2 ^ 64" and n: "n = Suc m" using assms by (auto simp: m_def)
  have h: "h < 64" using m(1,3) by (metis le_less_trans nat_power_less_imp_less zero_less_numeral)
  have "m div 2 ^ h = 1" using m(1,2) by (intro div_nat_eqI) auto
  then have top: "bit m h" by (simp add: bit_iff_odd)
  have above: "\<not> bit m j" if "h < j" for j
  proof -
    have "m < 2 ^ j" using m(2) that by (meson Suc_leI less_le_trans one_le_numeral power_increasing)
    then show ?thesis by (simp add: bit_iff_odd)
  qed
  obtain w :: "64 word" where w: "next_power_of_2 (of_nat n) = w + 1"
    "\<And>i. bit w i \<longleftrightarrow> (\<exists>j. i \<le> j \<and> bit (of_nat m :: 64 word) j)"
    using next_power_of_2_bits [of "of_nat n"] n by auto
  have "bit w i \<longleftrightarrow> i < Suc h" for i
    unfolding w(2) using top above h le_less_trans
    by (auto simp: bit_simps less_Suc_eq_le not_less [symmetric])
  then have "w = mask (Suc h)" using h by (intro bit_word_eqI) (auto simp: bit_simps)
  then show ?thesis using w(1) by (simp add: mask_eq_exp_minus_1)
qed

text \<open>The depth is the least one whose complete tree holds the nodes.\<close>

lemma calcluate_max_depth_least:
  assumes "0 < n" "n < 2 ^ 64"
  obtains k where "calcluate_max_depth (of_nat n) = int k + 1" "n \<le> 2 ^ k" "k = 0 \<or> 2 ^ (k - 1) < n"
proof (cases "n = 1")
  case True
  have "next_power_of_2 1 = 1" by (simp add: next_power_of_2_def)
  then have "calcluate_max_depth (of_nat n) = int 0 + 1"
    using True clz_power_2_power [of 0] by (simp add: calcluate_max_depth_def)
  with True show ?thesis by (intro that [of 0]) auto
next
  case False
  with assms have "1 \<le> n - 1" by simp
  then obtain h where h: "2 ^ h \<le> n - 1" "n - 1 < 2 ^ (h + 1)" using ex_power_ivl1 [of 2 "n - 1"] by auto
  then have np: "next_power_of_2 (of_nat n) = 2 ^ Suc h" using assms by (intro next_power_of_2_eq) auto
  have "(2 :: nat) ^ h < 2 ^ 64" using h(1) assms by linarith
  then have "h < 64" by (rule power_less_imp_less_exp [rotated]) simp
  moreover have "(of_nat n :: 64 word) \<noteq> 0" using assms by (auto simp: word_of_nat_eq_0_iff dest: dvd_imp_le)
  ultimately have "calcluate_max_depth (of_nat n) = int (Suc h) + 1"
    using np clz_power_2_power [of "Suc h"] by (simp add: calcluate_max_depth_def del: power_Suc)
  with h show ?thesis by (intro that [of "Suc h"]) auto
qed

section \<open>Levels\<close>

text \<open>The parents of the complete pairs of a level.\<close>

fun pairs :: "(digest \<times> digest \<Rightarrow> digest) \<Rightarrow> digest list \<Rightarrow> digest list" where
  "pairs hash (a # b # r) = hash (make_canonical_pair a b) # pairs hash r"
| "pairs hash _ = []"

lemma length_pairs [simp]: "length (pairs hash xs) = length xs div 2"
  by (induction hash xs rule: pairs.induct) auto

lemma nth_pairs:
  "i < length xs div 2 \<Longrightarrow> pairs hash xs ! i = hash (make_canonical_pair (xs ! (2 * i)) (xs ! (2 * i + 1)))"
proof (induction hash xs arbitrary: i rule: pairs.induct)
  case (1 hash a b r)
  then show ?case by (cases i) auto
qed auto

lemma pairs_snoc_even: "even (length xs) \<Longrightarrow> pairs hash (xs @ [y]) = pairs hash xs"
  by (induction hash xs rule: pairs.induct) auto

lemma pairs_snoc_odd:
  "odd (length xs) \<Longrightarrow> pairs hash (xs @ [y]) = pairs hash xs @ [hash (make_canonical_pair (last xs) y)]"
  by (induction hash xs rule: pairs.induct) auto

text \<open>Combining in place reads only positions that are not yet overwritten.\<close>

lemma merkle_for_nth:
  "2 * (i + n) \<le> length ids \<Longrightarrow> j < i + n \<Longrightarrow>
   merkle_for hash i n ids ! j =
     (if j < i then ids ! j else hash (make_canonical_pair (ids ! (2 * j)) (ids ! (2 * j + 1))))"
proof (induction n arbitrary: i ids)
  case (Suc n)
  let ?ids = "ids[i := hash (make_canonical_pair (ids ! (2 * i)) (ids ! (2 * i + 1)))]"
  from Suc.prems have "merkle_for hash (Suc i) n ?ids ! j =
     (if j < Suc i then ?ids ! j else hash (make_canonical_pair (?ids ! (2 * j)) (?ids ! (2 * j + 1))))"
    by (intro Suc.IH) auto
  with Suc.prems show ?case by (auto simp: nth_list_update less_Suc_eq)
qed simp

lemma merkle_for_pairs: "take (length ids div 2) (merkle_for hash 0 (length ids div 2) ids) = pairs hash ids"
  by (rule nth_equalityI) (auto simp: merkle_for_nth nth_pairs)

lemma merkle_level_snoc:
  "merkle_level hash (xs @ [y]) =
     pairs hash xs @ [hash (make_canonical_pair (if even (length xs) then y else last xs) y)]"
  using pairs_snoc_even [of xs hash y] pairs_snoc_odd [of "xs @ [y]" hash y] pairs_snoc_odd [of xs hash y]
  by (auto simp: merkle_level_def Let_def merkle_for_pairs [of "xs @ [y]", simplified]
      merkle_for_pairs [of "xs @ [y, y]", simplified])

text \<open>Collapsing to the least sufficient depth is \<open>merkle\<close>.\<close>

lemma merkle_loop_levels:
  "xs \<noteq> [] \<Longrightarrow> length xs \<le> 2 ^ k \<Longrightarrow> k = 0 \<or> 2 ^ (k - 1) < length xs \<Longrightarrow>
   merkle_loop hash xs = (merkle_level hash ^^ k) xs"
proof (induction k arbitrary: xs)
  case 0
  then have "length xs = 1" by (cases xs) auto
  then show ?case by (simp add: merkle_loop.simps)
next
  case (Suc k)
  have "2 ^ k < length xs" using Suc.prems by simp
  moreover have "(1 :: nat) \<le> 2 ^ k" by simp
  ultimately have gt: "1 < length xs" by linarith
  have "merkle_loop hash (merkle_level hash xs) = (merkle_level hash ^^ k) (merkle_level hash xs)"
  proof (rule Suc.IH)
    show "merkle_level hash xs \<noteq> []"
      using gt length_merkle_level [of hash xs] by (cases "merkle_level hash xs") auto
    show "length (merkle_level hash xs) \<le> 2 ^ k"
      using Suc.prems(2) by (simp add: length_merkle_level)
    show "k = 0 \<or> 2 ^ (k - 1) < length (merkle_level hash xs)"
      using \<open>2 ^ k < length xs\<close> by (cases k) (auto simp: length_merkle_level)
  qed
  with gt show ?case by (simp add: merkle_loop.simps [of hash xs] funpow_swap1)
qed

section \<open>The active nodes\<close>

text \<open>
  The roots of the complete subtrees of a list of leaves, the smallest first: one for each bit that is set
  in the number of leaves.
\<close>

function complete_roots :: "(digest \<times> digest \<Rightarrow> digest) \<Rightarrow> digest list \<Rightarrow> digest list" where
  "complete_roots hash xs =
     (if xs = [] then []
      else if odd (length xs) then last xs # complete_roots hash (pairs hash xs)
      else complete_roots hash (pairs hash xs))"
  by auto
termination
  by (relation "measure (\<lambda>(_, xs). length xs)") auto

declare complete_roots.simps [simp del]

lemma complete_roots_Nil [simp]: "complete_roots hash [] = []"
  by (simp add: complete_roots.simps)

lemma complete_roots_odd:
  "odd (length xs) \<Longrightarrow> complete_roots hash xs = last xs # complete_roots hash (pairs hash xs)"
  by (subst complete_roots.simps) auto

lemma complete_roots_even: "even (length xs) \<Longrightarrow> complete_roots hash xs = complete_roots hash (pairs hash xs)"
  by (subst complete_roots.simps) auto

lemma index_parity: "(of_nat n :: 64 word) AND 1 = 0 \<longleftrightarrow> even n"
proof -
  have "bit (of_nat n :: 64 word) 0 \<longleftrightarrow> odd n" by (simp add: bit_of_nat_iff bit_0)
  then show ?thesis by (simp add: and_one_eq mod_2_eq_odd bit_0)
qed

lemma index_half: "n < 2 ^ 64 \<Longrightarrow> drop_bit (Suc 0) (of_nat n :: 64 word) = of_nat (n div 2)"
  unfolding word_unat_eq_iff unat_drop_bit_eq by (simp add: drop_bit_eq_div unat_of_nat)

text \<open>Once a partial node is reached the remaining active nodes are copied.\<close>

lemma append_loop_partial:
  assumes "length xs + 1 \<le> 2 ^ k" "length xs < 2 ^ 64"
  shows "\<exists>root. append_loop hash k (complete_roots hash xs @ rest) (of_nat (length xs)) y True u
      = Inr (u @ complete_roots hash xs, root) \<and> (merkle_level hash ^^ k) (xs @ [y]) = [root]"
  using assms
proof (induction k arbitrary: xs y u)
  case (Suc k)
  let ?y = "hash (make_canonical_pair (if even (length xs) then y else last xs) y)"
  let ?u = "if even (length xs) then u else u @ [last xs]"
  from Suc.prems have "length (pairs hash xs) + 1 \<le> 2 ^ k" "length (pairs hash xs) < 2 ^ 64" by auto
  from Suc.IH [OF this, of ?y ?u] obtain root where
    "append_loop hash k (complete_roots hash (pairs hash xs) @ rest) (of_nat (length xs div 2)) ?y True ?u
      = Inr (?u @ complete_roots hash (pairs hash xs), root)"
    "(merkle_level hash ^^ Suc k) (xs @ [y]) = [root]"
    by (auto simp: merkle_level_snoc funpow_swap1)
  with Suc.prems(2) show ?case
    by (auto simp: index_parity index_half complete_roots_odd complete_roots_even [of xs] simp del: funpow.simps)
qed simp

text \<open>Before that, every node met is complete.\<close>

lemma append_loop_complete:
  assumes "length xs + 1 \<le> 2 ^ k" "length xs < 2 ^ 64"
  shows "\<exists>w root rest'. append_loop hash k (complete_roots hash xs @ rest) (of_nat (length xs)) y False u
      = Inr (u @ w, root) \<and> (merkle_level hash ^^ k) (xs @ [y]) = [root]
      \<and> w @ [root] = complete_roots hash (xs @ [y]) @ rest'"
  using assms
proof (induction k arbitrary: xs y)
  case 0
  then show ?case by (simp add: complete_roots_odd)
next
  case (Suc k)
  have half: "length (pairs hash xs) + 1 \<le> 2 ^ k" "length (pairs hash xs) < 2 ^ 64"
    using Suc.prems by auto
  show ?case
  proof (cases "even (length xs)")
    case True
    from append_loop_partial [OF half, of hash rest "hash (make_canonical_pair y y)" "u @ [y]"]
    obtain root where
      "append_loop hash k (complete_roots hash (pairs hash xs) @ rest) (of_nat (length xs div 2))
         (hash (make_canonical_pair y y)) True (u @ [y]) = Inr (u @ [y] @ complete_roots hash (pairs hash xs), root)"
      "(merkle_level hash ^^ Suc k) (xs @ [y]) = [root]"
      using True by (auto simp: merkle_level_snoc funpow_swap1)
    with True Suc.prems(2) show ?thesis
      by (auto simp: index_parity index_half complete_roots_odd complete_roots_even [of xs] pairs_snoc_even
          simp del: funpow.simps)
  next
    case False
    let ?y = "hash (make_canonical_pair (last xs) y)"
    from Suc.IH [OF half, of ?y] obtain w root rest' where
      "append_loop hash k (complete_roots hash (pairs hash xs) @ rest) (of_nat (length xs div 2)) ?y False u
        = Inr (u @ w, root)" "(merkle_level hash ^^ Suc k) (xs @ [y]) = [root]"
      "w @ [root] = complete_roots hash (pairs hash xs @ [?y]) @ rest'"
      using False by (auto simp: merkle_level_snoc funpow_swap1)
    with False Suc.prems(2) show ?thesis
      by (auto simp: index_parity index_half complete_roots_odd [of xs] complete_roots_even [of "xs @ [y]"]
          pairs_snoc_odd simp del: funpow.simps)
  qed
qed

section \<open>Appending\<close>

definition merkle_repr :: "(digest \<times> digest \<Rightarrow> digest) \<Rightarrow> digest list \<Rightarrow> incremental_merkle \<Rightarrow> bool" where
  "merkle_repr hash xs m \<longleftrightarrow> node_count m = of_nat (length xs)
     \<and> (\<exists>rest. active_nodes m = complete_roots hash xs @ rest)
     \<and> (xs \<noteq> [] \<longrightarrow> active_nodes m \<noteq> [] \<and> last (active_nodes m) = merkle hash xs)"

lemma merkle_repr_append:
  assumes r: "merkle_repr hash xs m" and len: "Suc (length xs) < 2 ^ 64"
  shows "\<exists>m'. merkle_append hash y m = Inr m' \<and> merkle_repr hash (xs @ [y]) m'"
proof -
  obtain k where k: "calcluate_max_depth (of_nat (Suc (length xs))) = int k + 1"
    "Suc (length xs) \<le> 2 ^ k" "k = 0 \<or> 2 ^ (k - 1) < Suc (length xs)"
    using calcluate_max_depth_least [of "Suc (length xs)"] len by auto
  from r obtain rest where act: "active_nodes m = complete_roots hash xs @ rest"
    and cnt: "node_count m = of_nat (length xs)" by (auto simp: merkle_repr_def)
  obtain w root rest' where
    loop: "append_loop hash k (active_nodes m) (of_nat (length xs)) y False [] = Inr (w, root)"
    and lev: "(merkle_level hash ^^ k) (xs @ [y]) = [root]"
    and w: "w @ [root] = complete_roots hash (xs @ [y]) @ rest'"
    using append_loop_complete [of xs k hash rest y "[]"] k(2) len act by auto
  have "merkle_loop hash (xs @ [y]) = [root]"
    using merkle_loop_levels [of "xs @ [y]" k hash] k(2,3) lev by simp
  then have "merkle hash (xs @ [y]) = root" by (simp add: merkle_def)
  with w have "last (complete_roots hash (xs @ [y]) @ rest') = merkle hash (xs @ [y])" by (metis last_snoc)
  with k(1) loop w cnt show ?thesis
    by (auto simp: merkle_append_def merkle_repr_def Let_def add.commute)
qed

lemma merkle_repr_fold:
  "merkle_repr hash xs m \<Longrightarrow> length xs + length ys < 2 ^ 64 \<Longrightarrow>
   \<exists>m'. fold_res (merkle_append hash) ys m = Inr m' \<and> merkle_repr hash (xs @ ys) m'"
proof (induction ys arbitrary: xs m)
  case (Cons y ys)
  from merkle_repr_append [OF Cons.prems(1), of y] Cons.prems(2)
  obtain m' where "merkle_append hash y m = Inr m'" "merkle_repr hash (xs @ [y]) m'" by auto
  with Cons.IH [of "xs @ [y]" m'] Cons.prems(2) show ?case by auto
qed simp

section \<open>Properties\<close>

text \<open>
  C7. The incremental tree computes the root of the whole list: appending any list of fewer than \<open>2 ^ 64\<close>
  digests to an empty tree never reads past the active nodes, and the root it then holds is the one \<open>merkle\<close>
  computes from the list, for every hash function.
\<close>

theorem incremental_merkle_root:
  assumes "length xs < 2 ^ 64"
  shows "bind_res (fold_res (merkle_append hash) xs empty_merkle) (\<lambda>m. Inr (get_root m)) = Inr (merkle hash xs)"
proof -
  have "merkle_repr hash [] empty_merkle" by (simp add: merkle_repr_def empty_merkle_def)
  from merkle_repr_fold [OF this, of xs] assms obtain m where
    m: "fold_res (merkle_append hash) xs empty_merkle = Inr m" "merkle_repr hash xs m" by auto
  have "node_count m = 0 \<longleftrightarrow> xs = []"
    using m(2) assms by (auto simp: merkle_repr_def word_of_nat_eq_0_iff dest: dvd_imp_le)
  with m(2) have "get_root m = merkle hash xs"
    by (auto simp: get_root_def merkle_repr_def merkle_def word_gt_0)
  with m(1) show ?thesis by simp
qed

theorem incremental_merkle_root_witness:
  "bind_res (fold_res (merkle_append fst) [Digest 1 0 0 0, Digest 2 0 0 0, Digest 3 0 0 0] empty_merkle)
     (\<lambda>m. Inr (get_root m)) = Inr (merkle fst [Digest 1 0 0 0, Digest 2 0 0 0, Digest 3 0 0 0])"
  by (rule incremental_merkle_root) simp

text \<open>
  \<open>calcluate_max_depth\<close> of a positive number of nodes is one more than the least \<open>k\<close> with at most
  \<open>2 ^ k\<close> nodes, also above \<open>2 ^ 63\<close> where the rounded-up power of two wraps to 0.
\<close>

theorem calcluate_max_depth_correct:
  assumes "0 < n" and "n < 2 ^ 64"
  shows "calcluate_max_depth (of_nat n) = int (LEAST k. n \<le> 2 ^ k) + 1"
proof -
  obtain k where k: "calcluate_max_depth (of_nat n) = int k + 1" "n \<le> 2 ^ k" "k = 0 \<or> 2 ^ (k - 1) < n"
    using calcluate_max_depth_least [OF assms] .
  have "(LEAST k. n \<le> 2 ^ k) = k"
  proof (rule Least_equality)
    show "n \<le> 2 ^ k" by (rule k(2))
    fix j assume "n \<le> 2 ^ j"
    show "k \<le> j"
    proof (rule ccontr)
      assume "\<not> k \<le> j"
      then have "2 ^ (k - 1) < n" and "(2 :: nat) ^ j \<le> 2 ^ (k - 1)"
        using k(3) by (auto intro: power_increasing)
      with \<open>n \<le> 2 ^ j\<close> show False by (meson leD order_trans)
    qed
  qed
  with k(1) show ?thesis by simp
qed

theorem calcluate_max_depth_correct_witness:
  "calcluate_max_depth (of_nat (2 ^ 63 + 1)) = int (LEAST k. 2 ^ 63 + 1 \<le> (2 :: nat) ^ k) + 1"
  by (rule calcluate_max_depth_correct) simp_all

end
