(* ===== verification/ProducerSchedule.thy ===== *)
theory ProducerSchedule
  imports Prelude
begin

text \<open>
  Block slots, producer schedules and their shuffling: \<^verbatim>\<open>block_timestamp.hpp\<close>,
  \<^verbatim>\<open>producer_schedule.hpp\<close> and \<^verbatim>\<open>random.hpp\<close>.

  Public keys come from the \<open>fc\<close> library and are the type variable \<open>'k\<close>; the default constructed key is
  an argument. A time point is its count of microseconds.
\<close>

unbundle bit_operations_syntax

type_synonym account_name = "64 word"

section \<open>Block timestamps\<close>

type_synonym slot = "32 word"

definition block_interval_ms :: int where "block_interval_ms = 3000"

definition block_timestamp_epoch :: int where "block_timestamp_epoch = 946684800000"

definition timestamp_next :: "slot \<Rightarrow> slot res" where
  "timestamp_next s = bind_res (eos_assert (- 1 - s \<ge> 1) Overflow_exception) (\<lambda>_. Inr (s + 1))"

definition to_time_point :: "slot \<Rightarrow> int" where
  "to_time_point s = (uint s * block_interval_ms + block_timestamp_epoch) * 1000"

text \<open>
  \<open>set_time_point\<close>: the signed quotient is converted to \<open>uint64_t\<close> by the subtraction of the unsigned
  epoch, and the result is cut to the 32 bits of \<open>slot\<close>.
\<close>

definition set_time_point :: "int \<Rightarrow> slot" where
  "set_time_point micros =
     (let msec_since_epoch = (word_of_int (sgn micros * (\<bar>micros\<bar> div 1000)) :: 64 word) in
      ucast ((msec_since_epoch - word_of_int block_timestamp_epoch) div word_of_int block_interval_ms))"

section \<open>Shuffling\<close>

text \<open>\<open>swap\<close> on positions \<open>i\<close> and \<open>j\<close> of a list.\<close>

definition swap_at :: "nat \<Rightarrow> nat \<Rightarrow> 'a list \<Rightarrow> 'a list" where
  "swap_at i j xs = xs[i := xs ! j, j := xs ! i]"

definition xorshift :: "64 word \<Rightarrow> nat \<Rightarrow> 64 word" where
  "xorshift hi i =
     (let k = hi + of_nat i * 2685821657736338717;
          k = k XOR drop_bit 12 k;
          k = k XOR push_bit 25 k;
          k = k XOR drop_bit 27 k
      in k * 2685821657736338717)"

fun shuffle_loop :: "64 word \<Rightarrow> nat \<Rightarrow> nat \<Rightarrow> 'a list \<Rightarrow> 'a list" where
  "shuffle_loop hi i 0 xs = xs"
| "shuffle_loop hi i (Suc n) xs =
     (let jmax = length xs - i; j = i + unat (xorshift hi i) mod jmax in
      shuffle_loop hi (Suc i) n (swap_at i j xs))"

definition shuffle :: "'a list \<Rightarrow> 32 word \<Rightarrow> 'a list" where
  "shuffle xs seed =
     (if length xs \<le> 1 then xs
      else shuffle_loop (push_bit 32 (ucast seed)) 0 (length xs) xs)"

text \<open>\<open>shuffle(items.begin() + displ, items.end(), seed)\<close>.\<close>

definition shuffle_from :: "nat \<Rightarrow> 'a list \<Rightarrow> 32 word \<Rightarrow> 'a list" where
  "shuffle_from displ xs seed = take displ xs @ shuffle (drop displ xs) seed"

section \<open>Schedules\<close>

record 'k producer_key =
  producer_name :: account_name
  block_signing_key :: 'k

record 'k producer_schedule =
  version :: "32 word"
  producers :: "'k producer_key list"

fun find_producer_key :: "'k \<Rightarrow> 'k producer_key list \<Rightarrow> account_name \<Rightarrow> 'k" where
  "find_producer_key no_key [] p = no_key"
| "find_producer_key no_key (i # is) p =
     (if producer_name i = p then block_signing_key i else find_producer_key no_key is p)"

definition get_producer_key :: "'k \<Rightarrow> 'k producer_schedule \<Rightarrow> account_name \<Rightarrow> 'k" where
  "get_producer_key no_key s p = find_producer_key no_key (producers s) p"

section \<open>Facts\<close>

lemma length_swap_at [simp]: "length (swap_at i j xs) = length xs"
  by (simp add: swap_at_def)

lemma mset_swap_at [simp]: "i < length xs \<Longrightarrow> j < length xs \<Longrightarrow> mset (swap_at i j xs) = mset xs"
  by (simp add: swap_at_def mset_swap)

lemma mset_shuffle_loop:
  "i + n \<le> length xs \<Longrightarrow> mset (shuffle_loop hi i n xs) = mset xs"
proof (induction n arbitrary: i xs)
  case (Suc n)
  define j where "j = i + unat (xorshift hi i) mod (length xs - i)"
  have "unat (xorshift hi i) mod (length xs - i) < length xs - i"
    using Suc.prems by (intro mod_less_divisor) simp
  then have "j < length xs" unfolding j_def by linarith
  with Suc show ?case by (simp add: Let_def flip: j_def)
qed simp

lemma mset_shuffle [simp]: "mset (shuffle xs seed) = mset xs"
  by (simp add: shuffle_def mset_shuffle_loop)

lemma mset_shuffle_from [simp]: "mset (shuffle_from d xs seed) = mset xs"
  by (simp add: shuffle_from_def) (metis append_take_drop_id mset_append)

lemma set_shuffle_from [simp]: "set (shuffle_from d xs seed) = set xs"
  using mset_eq_setD [OF mset_shuffle_from] .

lemma length_shuffle_from [simp]: "length (shuffle_from d xs seed) = length xs"
  using mset_eq_length [OF mset_shuffle_from] .

lemma set_shuffle [simp]: "set (shuffle xs seed) = set xs"
  using mset_eq_setD [OF mset_shuffle] .

lemma length_shuffle [simp]: "length (shuffle xs seed) = length xs"
  using mset_eq_length [OF mset_shuffle] .

lemma shuffle_Nil_iff [simp]: "shuffle xs seed = [] \<longleftrightarrow> xs = []"
  using length_shuffle [of xs seed] by (metis length_0_conv)

lemma shuffle_from_Nil_iff [simp]: "shuffle_from d xs seed = [] \<longleftrightarrow> xs = []"
  using length_shuffle_from [of d xs seed] by (metis length_0_conv)

lemma take_shuffle_from: "d \<le> length xs \<Longrightarrow> take d (shuffle_from d xs seed) = take d xs"
  by (simp add: shuffle_from_def)

section \<open>Properties\<close>

text \<open>
  A slot survives the conversion to a time point and back, for all \<open>2 ^ 32\<close> slots: neither the
  signed nor the unsigned arithmetic of \<open>block_timestamp\<close> overflows.
\<close>

theorem block_timestamp_roundtrip: "set_time_point (to_time_point s) = s"
proof -
  have s: "0 \<le> uint s" "uint s < 2 ^ 32" using uint_lt2p [of s] by auto
  have w: "(word_of_int (uint s * 3000 + 946684800000) :: 64 word) - word_of_int 946684800000
      = word_of_int (uint s * 3000)"
    by (simp flip: word_of_int_hom_syms)
  have "uint (word_of_int (uint s * 3000) :: 64 word) = uint s * 3000"
    using s by (subst uint_word_of_int) simp
  then have "(word_of_int (uint s * 3000) :: 64 word) div 3000 = word_of_int (uint s)"
    by (simp add: word_div_def)
  moreover have "(ucast (word_of_int (uint s) :: 64 word) :: 32 word) = s"
    by (rule bit_word_eqI) (simp add: bit_simps)
  ultimately have slot: "ucast ((word_of_int (uint s * 3000) :: 64 word) div 3000) = s" by metis
  have "0 < to_time_point s"
    unfolding to_time_point_def block_interval_ms_def block_timestamp_epoch_def
    by (intro mult_pos_pos add_nonneg_pos mult_nonneg_nonneg) simp_all
  then have "sgn (to_time_point s) * (\<bar>to_time_point s\<bar> div 1000) = to_time_point s div 1000" by simp
  also have "\<dots> = uint s * 3000 + 946684800000"
    unfolding to_time_point_def block_interval_ms_def block_timestamp_epoch_def by simp
  finally have "sgn (to_time_point s) * (\<bar>to_time_point s\<bar> div 1000) = uint s * 3000 + 946684800000" .
  then show ?thesis
    unfolding set_time_point_def Let_def block_interval_ms_def block_timestamp_epoch_def
    using w slot by (simp only: word_of_int_numeral)
qed

end
