(* ===== verification/BlockHeaderState.thy ===== *)
theory BlockHeaderState
  imports ProducerSchedule MerkleTree
begin

text \<open>
  The header chain: \<^verbatim>\<open>block_header.hpp\<close>, \<^verbatim>\<open>block_header.cpp\<close>,
  \<^verbatim>\<open>block_header_state.hpp\<close> and \<^verbatim>\<open>block_header_state.cpp\<close>.

  \<open>block_header_state\<close> is the record of the struct's fields; \<open>generate_next\<close>, \<open>set_confirmed\<close>,
  \<open>update_active_schedule\<close>, \<open>set_new_producers\<close>, \<open>next_state\<close> (\<open>block_header_state::next\<close>), \<open>sign\<close> and
  \<open>add_confirmation\<close> are its operations. Hashing, key recovery and byte reversal come from the \<open>fc\<close>
  library: they are the fields of \<open>crypto\<close>, an argument of the operations that call them (the third
  argument of \<open>recover_key\<close> is the canonicity flag, \<open>None\<close> where the code leaves it at its default).
\<close>

unbundle bit_operations_syntax

section \<open>Headers\<close>

record 'k block_header =
  timestamp :: slot
  producer :: account_name
  confirmed :: "16 word"
  previous :: digest
  transaction_mroot :: digest
  action_mroot :: digest
  schedule_version :: "32 word"
  new_producers :: "'k producer_schedule option"
  header_extensions :: "(16 word \<times> 8 word list) list"

record ('k, 's) signed_block_header = "'k block_header" +
  producer_signature :: 's

record 's header_confirmation =
  conf_block_id :: digest
  conf_producer :: account_name
  conf_signature :: 's

record ('k, 's) crypto =
  hash_header :: "'k block_header \<Rightarrow> digest"
  hash_schedule :: "'k producer_schedule \<Rightarrow> digest"
  hash_pair :: "digest \<times> digest \<Rightarrow> digest"
  recover_key :: "'s \<Rightarrow> digest \<Rightarrow> bool option \<Rightarrow> 'k res"
  endian_reverse_u32 :: "32 word \<Rightarrow> 32 word"
  no_key :: 'k
  no_signature :: 's

definition header_digest :: "('k, 's) crypto \<Rightarrow> ('k, 's) signed_block_header \<Rightarrow> digest" where
  "header_digest cr h = hash_header cr (block_header.truncate h)"

definition num_from_id :: "('k, 's) crypto \<Rightarrow> digest \<Rightarrow> 32 word" where
  "num_from_id cr i = endian_reverse_u32 cr (ucast (hash0 i))"

definition header_block_num :: "('k, 's) crypto \<Rightarrow> ('k, 's) signed_block_header \<Rightarrow> 32 word" where
  "header_block_num cr h = num_from_id cr (previous h) + 1"

definition header_id :: "('k, 's) crypto \<Rightarrow> ('k, 's) signed_block_header \<Rightarrow> digest" where
  "header_id cr h =
     (let result = header_digest cr h in
      Digest ((hash0 result AND 0xffffffff00000000) + ucast (endian_reverse_u32 cr (header_block_num cr h)))
        (hash1 result) (hash2 result) (hash3 result))"

section \<open>The state\<close>

record ('k, 's) block_header_state =
  bid :: digest
  block_num :: "32 word"
  header :: "('k, 's) signed_block_header"
  dpos_proposed_irreversible_blocknum :: "32 word"
  dpos_irreversible_blocknum :: "32 word"
  bft_irreversible_blocknum :: "32 word"
  pending_schedule_lib_num :: "32 word"
  scheduled_shuffle_slot :: slot
  pending_schedule_hash :: digest
  pending_schedule :: "'k producer_schedule"
  active_schedule :: "'k producer_schedule"
  blockroot_merkle :: incremental_merkle
  producer_to_last_produced :: "(account_name \<times> 32 word) list"
  producer_to_last_implied_irb :: "(account_name \<times> 32 word) list"
  signing_key :: 'k
  confirm_count :: "8 word list"
  confirmations :: "'s header_confirmation list"

definition max_producers :: nat where "max_producers = 125"

definition maximum_tracked_dpos_confirmations :: nat where "maximum_tracked_dpos_confirmations = 1024"

definition is_active_producer :: "('k, 's) block_header_state \<Rightarrow> account_name \<Rightarrow> bool" where
  "is_active_producer s n \<longleftrightarrow> fm_find (producer_to_last_produced s) n \<noteq> None"

definition has_pending_producers :: "('k, 's) block_header_state \<Rightarrow> bool" where
  "has_pending_producers s \<longleftrightarrow> length (producers (pending_schedule s)) \<noteq> 0"

text \<open>A remainder by a zero schedule size is undefined.\<close>

definition get_scheduled_producer :: "('k, 's) block_header_state \<Rightarrow> slot \<Rightarrow> 'k producer_key res" where
  "get_scheduled_producer s t =
     (let ps = producers (active_schedule s) in
      if length ps = 0 then Inl Undefined_behaviour
      else Inr (ps ! (unat (t - (scheduled_shuffle_slot s + 1)) mod length ps)))"

definition calc_dpos_last_irreversible :: "(account_name \<times> 32 word) list \<Rightarrow> 32 word" where
  "calc_dpos_last_irreversible irb =
     (let blocknums = map snd irb in
      if length blocknums = 0 then 0 else sort blocknums ! ((length blocknums - 1) div 3))"

definition default_header :: "('k, 's) crypto \<Rightarrow> ('k, 's) signed_block_header" where
  "default_header cr = \<lparr>timestamp = 0, producer = 0, confirmed = 1, previous = null_digest,
     transaction_mroot = null_digest, action_mroot = null_digest, schedule_version = 0,
     new_producers = None, header_extensions = [], producer_signature = no_signature cr\<rparr>"

definition grow_confirm_count :: "8 word list \<Rightarrow> 32 word \<Rightarrow> 8 word list" where
  "grow_confirm_count cc required_confs =
     (if length cc < maximum_tracked_dpos_confirmations
      then cc @ [ucast required_confs]
      else tl cc @ [ucast required_confs])"

text \<open>The fields \<open>generate_next\<close> fills in once the slot, its producer and the block root are known.\<close>

definition next_template ::
  "('k, 's) crypto \<Rightarrow> ('k, 's) block_header_state \<Rightarrow> slot \<Rightarrow> 'k producer_key \<Rightarrow> incremental_merkle
    \<Rightarrow> ('k, 's) block_header_state" where
  "next_template cr s when prokey mrk =
     (let num = block_num s + 1;
          irb = fm_set (producer_name prokey) (dpos_proposed_irreversible_blocknum s)
                  (producer_to_last_implied_irb s);
          required_confs = of_nat (length (producers (active_schedule s)) * 2 div 3) + 1 in
     \<lparr>bid = null_digest,
       block_num = num,
       header = (default_header cr)\<lparr>timestamp := when, previous := bid s,
                  schedule_version := version (active_schedule s), producer := producer_name prokey\<rparr>,
       dpos_proposed_irreversible_blocknum = dpos_proposed_irreversible_blocknum s,
       dpos_irreversible_blocknum = calc_dpos_last_irreversible irb,
       bft_irreversible_blocknum = bft_irreversible_blocknum s,
       pending_schedule_lib_num = pending_schedule_lib_num s,
       scheduled_shuffle_slot = scheduled_shuffle_slot s,
       pending_schedule_hash = pending_schedule_hash s,
       pending_schedule = pending_schedule s,
       active_schedule = active_schedule s,
       blockroot_merkle = mrk,
       producer_to_last_produced = fm_set (producer_name prokey) num (producer_to_last_produced s),
       producer_to_last_implied_irb = irb,
       signing_key = block_signing_key prokey,
       confirm_count = grow_confirm_count (confirm_count s) required_confs,
       confirmations = []\<rparr>)"

definition generate_next ::
  "('k, 's) crypto \<Rightarrow> ('k, 's) block_header_state \<Rightarrow> slot \<Rightarrow> ('k, 's) block_header_state res" where
  "generate_next cr s when_arg =
     bind_res (if when_arg \<noteq> 0
               then bind_res (eos_assert (when_arg > timestamp (header s)) Block_validate_exception)
                      (\<lambda>_. Inr when_arg)
               else Inr (timestamp (header s) + 1)) (\<lambda>when.
     bind_res (get_scheduled_producer s when) (\<lambda>prokey.
     bind_res (merkle_append (hash_pair cr) (bid s) (blockroot_merkle s)) (\<lambda>mrk.
     Inr (next_template cr s when prokey mrk))))"

text \<open>The maps of a promoted schedule: a known producer keeps its number, a new one starts at the LIB.\<close>

definition carry_over ::
  "'k producer_key list \<Rightarrow> (account_name \<times> 32 word) list \<Rightarrow> 32 word \<Rightarrow> (account_name \<times> 32 word) list" where
  "carry_over ps old lib =
     fold (\<lambda>pro. fm_set (producer_name pro)
                  (case fm_find old (producer_name pro) of Some n \<Rightarrow> n | None \<Rightarrow> lib)) ps []"

definition update_active_schedule ::
  "('k, 's) block_header_state \<Rightarrow> (bool \<times> ('k, 's) block_header_state) res" where
  "update_active_schedule s =
     (let when = timestamp (header s) in
      if length (producers (pending_schedule s)) \<noteq> 0
         \<and> dpos_irreversible_blocknum s \<ge> pending_schedule_lib_num s
      then
        let act = (pending_schedule s)\<lparr>producers := shuffle (producers (pending_schedule s)) when\<rparr>;
            lib = dpos_irreversible_blocknum s in
        Inr (True, s\<lparr>active_schedule := act,
          pending_schedule := (pending_schedule s)\<lparr>producers := []\<rparr>,
          scheduled_shuffle_slot := when,
          producer_to_last_produced :=
            fm_set (producer (header s)) (block_num s)
              (carry_over (producers act) (producer_to_last_produced s) lib),
          producer_to_last_implied_irb :=
            carry_over (producers act) (producer_to_last_implied_irb s) lib\<rparr>)
      else
        let prod_num = (of_nat (length (producers (active_schedule s))) :: 32 word) in
        bind_res (eos_assert (prod_num \<noteq> 0) Producer_schedule_exception) (\<lambda>_.
        bind_res (eos_assert (when > scheduled_shuffle_slot s) Producer_schedule_exception) (\<lambda>_.
        let next_slot = scheduled_shuffle_slot s + prod_num in
        if when \<ge> next_slot then
          let shuffle_displ = (when - next_slot) mod prod_num in
          Inr (False, s\<lparr>active_schedule := (active_schedule s)\<lparr>producers :=
                  shuffle_from (unat shuffle_displ) (producers (active_schedule s)) next_slot\<rparr>,
                scheduled_shuffle_slot := when - shuffle_displ\<rparr>)
        else Inr (False, s))))"

definition set_new_producers :: "('k, 's) crypto \<Rightarrow> ('k, 's) block_header_state \<Rightarrow> 'k producer_schedule
    \<Rightarrow> ('k, 's) block_header_state res" where
  "set_new_producers cr s pending =
     bind_res (eos_assert (version pending = version (active_schedule s) + 1) Producer_schedule_exception) (\<lambda>_.
     bind_res (eos_assert (length (producers (pending_schedule s)) = 0) Producer_schedule_exception) (\<lambda>_.
     Inr (s\<lparr>header := (header s)\<lparr>new_producers := Some pending\<rparr>,
       pending_schedule_hash := hash_schedule cr pending,
       pending_schedule := pending,
       pending_schedule_lib_num := block_num s\<rparr>)))"

text \<open>
  The loop of \<open>set_confirmed\<close>; its first argument is \<open>i + 1\<close>. The result is the new \<open>confirm_count\<close> and
  \<open>dpos_proposed_irreversible_blocknum\<close>.
\<close>

fun set_confirmed_loop ::
  "nat \<Rightarrow> nat \<Rightarrow> 32 word \<Rightarrow> 8 word list \<Rightarrow> 32 word \<Rightarrow> 8 word list \<times> 32 word" where
  "set_confirmed_loop 0 blocks_to_confirm num cc prop = (cc, prop)"
| "set_confirmed_loop (Suc i) 0 num cc prop = (cc, prop)"
| "set_confirmed_loop (Suc i) (Suc b) num cc prop =
     (let cc' = cc[i := cc ! i - 1] in
      if cc' ! i = 0
      then (if i = length cc - 1 then [] else drop (i + 1) cc', num - of_nat (length cc - 1 - i))
      else set_confirmed_loop i b num cc' prop)"

definition set_confirmed :: "('k, 's) block_header_state \<Rightarrow> 16 word \<Rightarrow> ('k, 's) block_header_state" where
  "set_confirmed s num_prev_blocks =
     (let (cc, prop) = set_confirmed_loop (length (confirm_count s)) (unat num_prev_blocks + 1) (block_num s)
                         (confirm_count s) (dpos_proposed_irreversible_blocknum s) in
      s\<lparr>header := (header s)\<lparr>confirmed := num_prev_blocks\<rparr>, confirm_count := cc,
        dpos_proposed_irreversible_blocknum := prop\<rparr>)"

definition sig_digest :: "('k, 's) crypto \<Rightarrow> ('k, 's) block_header_state \<Rightarrow> digest" where
  "sig_digest cr s =
     (let header_bmroot = hash_pair cr (header_digest cr (header s), get_root (blockroot_merkle s)) in
      hash_pair cr (header_bmroot, pending_schedule_hash s))"

definition sign :: "('k, 's) crypto \<Rightarrow> (digest \<Rightarrow> 's) \<Rightarrow> ('k, 's) block_header_state
    \<Rightarrow> ('k, 's) block_header_state res" where
  "sign cr signer s =
     (let d = sig_digest cr s; s' = s\<lparr>header := (header s)\<lparr>producer_signature := signer d\<rparr>\<rparr> in
      bind_res (recover_key cr (producer_signature (header s')) d None) (\<lambda>k.
      bind_res (eos_assert (signing_key s' = k) Wrong_signing_key) (\<lambda>_. Inr s')))"

definition signee :: "('k, 's) crypto \<Rightarrow> ('k, 's) block_header_state \<Rightarrow> 'k res" where
  "signee cr s = recover_key cr (producer_signature (header s)) (sig_digest cr s) (Some True)"

definition verify_signee :: "('k, 's) block_header_state \<Rightarrow> 'k \<Rightarrow> unit res" where
  "verify_signee s k = eos_assert (signing_key s = k) Wrong_signing_key"

definition add_confirmation :: "('k, 's) crypto \<Rightarrow> 's header_confirmation \<Rightarrow> ('k, 's) block_header_state
    \<Rightarrow> ('k, 's) block_header_state res" where
  "add_confirmation cr conf s =
     bind_res (eos_assert (list_all (\<lambda>c. conf_producer c \<noteq> conf_producer conf) (confirmations s))
                 Producer_double_confirm) (\<lambda>_.
     let key = get_producer_key (no_key cr) (active_schedule s) (conf_producer conf) in
     bind_res (eos_assert (key \<noteq> no_key cr) Producer_not_in_schedule) (\<lambda>_.
     bind_res (recover_key cr (conf_signature conf) (sig_digest cr s) (Some True)) (\<lambda>signer.
     bind_res (eos_assert (signer = key) Wrong_signing_key) (\<lambda>_.
     Inr (s\<lparr>confirmations := confirmations s @ [conf]\<rparr>)))))"

text \<open>The last assignments of \<open>next\<close>: the roots and the signature of the given header, and the id.\<close>

definition finish_header ::
  "('k, 's) crypto \<Rightarrow> ('k, 's) signed_block_header \<Rightarrow> ('k, 's) block_header_state \<Rightarrow> ('k, 's) block_header_state" where
  "finish_header cr h r =
     (let r = r\<lparr>header := (header r)\<lparr>action_mroot := action_mroot h,
                 transaction_mroot := transaction_mroot h, producer_signature := producer_signature h\<rparr>\<rparr>
      in r\<lparr>bid := header_id cr (header r)\<rparr>)"

definition next_state :: "('k, 's) crypto \<Rightarrow> ('k, 's) block_header_state \<Rightarrow> ('k, 's) signed_block_header \<Rightarrow> bool
    \<Rightarrow> ('k, 's) block_header_state res" where
  "next_state cr s h skip_validate_signee =
     bind_res (eos_assert (timestamp h \<noteq> 0) Block_validate_exception) (\<lambda>_.
     bind_res (eos_assert (length (header_extensions h) = 0) Block_validate_exception) (\<lambda>_.
     bind_res (eos_assert (timestamp h > timestamp (header s)) Block_validate_exception) (\<lambda>_.
     bind_res (eos_assert (previous h = bid s) Unlinkable_block_exception) (\<lambda>_.
     bind_res (generate_next cr s (timestamp h)) (\<lambda>r.
     bind_res (eos_assert (producer (header r) = producer h) Wrong_producer) (\<lambda>_.
     bind_res (eos_assert (schedule_version (header r) = schedule_version h) Producer_schedule_exception) (\<lambda>_.
     bind_res (case fm_find (producer_to_last_produced s) (producer h) of
                 Some n \<Rightarrow> eos_assert (n < block_num r - ucast (confirmed h)) Producer_double_confirm
               | None \<Rightarrow> Inr ()) (\<lambda>_.
     bind_res (update_active_schedule (set_confirmed r (confirmed h))) (\<lambda>(was_pending_promoted, r).
     bind_res (case new_producers h of
                 Some np \<Rightarrow>
                   bind_res (eos_assert (\<not> was_pending_promoted) Producer_schedule_exception) (\<lambda>_.
                   set_new_producers cr r np)
               | None \<Rightarrow> Inr r) (\<lambda>r.
     let r = finish_header cr h r in
     if skip_validate_signee then Inr r
     else bind_res (signee cr r) (\<lambda>k. bind_res (verify_signee r k) (\<lambda>_. Inr r))))))))))))"

section \<open>The irreversible block number\<close>

lemma count_ge_nth_sort:
  fixes xs :: "'a :: linorder list"
  assumes "k < length xs"
  shows "length xs - k \<le> length (filter (\<lambda>x. sort xs ! k \<le> x) xs)"
    and "sort xs ! k < v \<Longrightarrow> length (filter (\<lambda>x. v \<le> x) xs) \<le> length xs - Suc k"
proof -
  have flt: "length (filter P xs) = length (filter P (sort xs))" for P
    by (metis mset_filter mset_sort size_mset)
  have split: "length (filter P (sort xs))
      = length (filter P (take n (sort xs))) + length (filter P (drop n (sort xs)))" for P n
    by (metis append_take_drop_id filter_append length_append)
  have "sort xs ! k \<le> x" if "x \<in> set (drop k (sort xs))" for x
    using that assms sorted_nth_mono [OF sorted_sort [of xs]] by (auto simp: in_set_conv_nth)
  then have "filter (\<lambda>x. sort xs ! k \<le> x) (drop k (sort xs)) = drop k (sort xs)"
    by (simp add: filter_True)
  then show "length xs - k \<le> length (filter (\<lambda>x. sort xs ! k \<le> x) xs)"
    unfolding flt split [of _ k] by simp
  assume v: "sort xs ! k < v"
  have "x \<le> sort xs ! k" if "x \<in> set (take (Suc k) (sort xs))" for x
    using that assms sorted_nth_mono [OF sorted_sort [of xs]]
    by (auto simp: in_set_conv_nth less_Suc_eq_le)
  with v have "filter (\<lambda>x. v \<le> x) (take (Suc k) (sort xs)) = []"
    by (fastforce simp: filter_empty_conv)
  then show "length (filter (\<lambda>x. v \<le> x) xs) \<le> length xs - Suc k"
    unfolding flt split [of _ "Suc k"]
    using length_filter_le [of "\<lambda>x. v \<le> x" "drop (Suc k) (sort xs)"] by simp
qed

definition supporters :: "(account_name \<times> 32 word) list \<Rightarrow> 32 word \<Rightarrow> nat" where
  "supporters irb v = length (filter (\<lambda>(_, n). v \<le> n) irb)"

lemma supporters_map: "supporters irb v = length (filter (\<lambda>n. v \<le> n) (map snd irb))"
  by (simp add: supporters_def filter_map comp_def case_prod_unfold)

lemma calc_dpos_supporters:
  assumes "irb \<noteq> []"
  shows "2 * length irb < 3 * supporters irb (calc_dpos_last_irreversible irb)"
    and "calc_dpos_last_irreversible irb < v \<Longrightarrow> 3 * supporters irb v \<le> 2 * length irb"
proof -
  let ?k = "(length irb - 1) div 3"
  have k: "?k < length (map snd irb)" using assms by (cases irb) auto
  have r: "calc_dpos_last_irreversible irb = sort (map snd irb) ! ?k"
    using assms by (simp add: calc_dpos_last_irreversible_def Let_def)
  show "2 * length irb < 3 * supporters irb (calc_dpos_last_irreversible irb)"
    using count_ge_nth_sort(1) [OF k] k unfolding r supporters_map length_map by linarith
  show "3 * supporters irb v \<le> 2 * length irb" if "calc_dpos_last_irreversible irb < v"
    using count_ge_nth_sort(2) [OF k, of v] that assms unfolding r supporters_map length_map
    by (cases irb) auto
qed

lemma calc_dpos_in: "irb \<noteq> [] \<Longrightarrow> calc_dpos_last_irreversible irb \<in> snd ` set irb"
proof -
  assume "irb \<noteq> []"
  then have "(length irb - 1) div 3 < length (sort (map snd irb))" by (cases irb) auto
  then have "sort (map snd irb) ! ((length irb - 1) div 3) \<in> set (sort (map snd irb))" by (rule nth_mem)
  with \<open>irb \<noteq> []\<close> show ?thesis by (auto simp: calc_dpos_last_irreversible_def Let_def)
qed

text \<open>Raising one entry does not lower the result.\<close>

lemma fm_set_present:
  "fm_invar m \<Longrightarrow> fm_find m k = Some w \<Longrightarrow>
   length (fm_set k v m) = length m \<and> (w \<le> v \<longrightarrow> supporters m x \<le> supporters (fm_set k v m) x)"
  by (induction k v m rule: fm_set.induct)
    (auto simp: supporters_def fm_invar_Cons fm_find_less split: if_splits)

lemma calc_dpos_mono:
  assumes "fm_invar m" "fm_find m k = Some w" "w \<le> v"
  shows "calc_dpos_last_irreversible m \<le> calc_dpos_last_irreversible (fm_set k v m)"
proof (rule ccontr)
  assume lt: "\<not> ?thesis"
  have "m \<noteq> []" using assms(2) by auto
  have len: "length (fm_set k v m) = length m"
    and sup: "supporters m (calc_dpos_last_irreversible m)
      \<le> supporters (fm_set k v m) (calc_dpos_last_irreversible m)"
    using fm_set_present [OF assms(1,2)] assms(3) by auto
  then have "fm_set k v m \<noteq> []" using \<open>m \<noteq> []\<close> by auto
  from calc_dpos_supporters(2) [OF this, of "calc_dpos_last_irreversible m"] lt
  have "3 * supporters (fm_set k v m) (calc_dpos_last_irreversible m) \<le> 2 * length m" by (simp add: len)
  with calc_dpos_supporters(1) [OF \<open>m \<noteq> []\<close>] sup show False by linarith
qed

section \<open>Confirmations\<close>

lemma unat_sub_of_nat: "n \<le> unat (w :: 32 word) \<Longrightarrow> unat (w - of_nat n) = unat w - n"
proof -
  assume n: "n \<le> unat w"
  have "unat w < 2 ^ LENGTH(32)" by (rule unsigned_less)
  with n have "n < 2 ^ 32" by simp
  then have "unat (of_nat n :: 32 word) = n" by (simp add: unat_of_nat)
  with n show "unat (w - of_nat n) = unat w - n" by (metis unat_sub word_le_nat_alt)
qed

lemma set_confirmed_loop_inv:
  assumes "set_confirmed_loop n b num cc p = (cc', p')" "n \<le> length cc" "\<forall>c \<in> set cc. 0 < c"
    and "unat p + length cc \<le> unat num"
  shows "(\<forall>c \<in> set cc'. 0 < c) \<and> unat p' + length cc' \<le> unat num \<and> unat p \<le> unat p' \<and> length cc' \<le> length cc"
  using assms
proof (induction n b num cc p rule: set_confirmed_loop.induct)
  case (3 i b num cc p)
  let ?cc = "cc[i := cc ! i - 1]"
  have i: "i < length cc" using "3.prems" by simp
  show ?case
  proof (cases "?cc ! i = 0")
    case True
    with "3.prems"(1) have r: "cc' = (if i = length cc - 1 then [] else drop (i + 1) ?cc)"
      "p' = num - of_nat (length cc - 1 - i)" by (auto simp: Let_def)
    have "length cc - 1 - i \<le> unat num" using "3.prems"(4) by simp
    then have p': "unat p' = unat num - (length cc - 1 - i)"
      unfolding r(2) by (simp add: unat_sub_of_nat)
    have "set cc' \<subseteq> set cc" unfolding r(1) by (auto simp: drop_update_cancel dest: in_set_dropD)
    moreover have "length cc' = length cc - 1 - i" using i unfolding r(1) by auto
    ultimately show ?thesis using "3.prems"(3,4) p' i by auto
  next
    case False
    have "\<forall>c \<in> set ?cc. 0 < c"
      using False "3.prems"(3) i by (auto simp: in_set_conv_nth nth_list_update word_gt_0 split: if_splits)
    with False "3.IH" "3.prems" show ?thesis by (auto simp: Let_def)
  qed
qed auto

section \<open>Slots\<close>

lemma word32_add_of_nat: "unat (w :: 32 word) + n < 2 ^ 32 \<Longrightarrow> unat (w + of_nat n) = unat w + n"
  by (simp add: unat_word_ariths unat_of_nat)

lemma word32_diff: "(b :: 32 word) \<le> a \<Longrightarrow> unat (a - b) = unat a - unat b"
  by (simp add: unat_sub)

lemma word32_less: "unat (w :: 32 word) < 2 ^ 32"
  using unsigned_less [of w] by simp

lemma scheduled_index:
  assumes "scheduled_shuffle_slot s < t" "producers (active_schedule s) \<noteq> []"
  shows "get_scheduled_producer s t
    = Inr (producers (active_schedule s) !
        ((unat t - unat (scheduled_shuffle_slot s) - 1) mod length (producers (active_schedule s))))"
proof -
  have lt: "unat (scheduled_shuffle_slot s) < unat t" using assms(1) by (simp add: word_less_nat_alt)
  then have u: "unat (scheduled_shuffle_slot s + of_nat 1) = unat (scheduled_shuffle_slot s) + 1"
    using word32_less [of t] by (intro word32_add_of_nat) simp
  then have "scheduled_shuffle_slot s + 1 \<le> t" using lt by (simp add: word_le_nat_alt)
  then have "unat (t - (scheduled_shuffle_slot s + 1)) = unat t - unat (scheduled_shuffle_slot s) - 1"
    using u by (simp add: word32_diff)
  with assms(2) show ?thesis by (simp add: get_scheduled_producer_def Let_def)
qed

text \<open>The branch of \<open>update_active_schedule\<close> without a promotion, in numbers.\<close>

lemma update_no_promotion:
  assumes u: "update_active_schedule s = Inr (False, s')"
    and room: "unat (scheduled_shuffle_slot s) + length (producers (active_schedule s)) < 2 ^ 32"
  defines "n \<equiv> length (producers (active_schedule s))"
    and "sl \<equiv> unat (scheduled_shuffle_slot s)" and "w \<equiv> unat (timestamp (header s))"
  shows "0 < n" and "sl < w"
    and "w < sl + n \<Longrightarrow> s' = s"
    and "sl + n \<le> w \<Longrightarrow>
      s' = s\<lparr>active_schedule := (active_schedule s)\<lparr>producers :=
              shuffle_from ((w - (sl + n)) mod n) (producers (active_schedule s))
                (scheduled_shuffle_slot s + of_nat n)\<rparr>,
            scheduled_shuffle_slot := timestamp (header s) - of_nat ((w - (sl + n)) mod n)\<rparr>"
proof -
  have n32: "n < 2 ^ 32" using room by (simp add: n_def)
  have un: "unat (of_nat n :: 32 word) = n" using n32 by (simp add: unat_of_nat)
  have next_slot: "unat (scheduled_shuffle_slot s + of_nat n) = sl + n"
    using room unfolding sl_def n_def by (rule word32_add_of_nat)
  from u have nz: "(of_nat n :: 32 word) \<noteq> 0" and sh: "scheduled_shuffle_slot s < timestamp (header s)"
    by (auto simp: update_active_schedule_def Let_def res_simps n_def split: if_splits)
  show "0 < n" using nz by (cases n) auto
  show "sl < w" using sh by (simp add: sl_def w_def word_less_nat_alt)
  have cmp: "scheduled_shuffle_slot s + of_nat n \<le> timestamp (header s) \<longleftrightarrow> sl + n \<le> w"
    using next_slot by (simp add: word_le_nat_alt w_def)
  show "s' = s" if "w < sl + n"
    using u that cmp by (auto simp: update_active_schedule_def Let_def res_simps n_def split: if_splits)
  assume le: "sl + n \<le> w"
  have displ: "unat ((timestamp (header s) - (scheduled_shuffle_slot s + of_nat n)) mod of_nat n)
      = (w - (sl + n)) mod n"
    using le cmp next_slot un by (simp add: unat_mod_distrib word32_diff w_def)
  then have "(timestamp (header s) - (scheduled_shuffle_slot s + of_nat n)) mod of_nat n
      = of_nat ((w - (sl + n)) mod n)"
    by (metis of_nat_unat ucast_id)
  then show "s' = s\<lparr>active_schedule := (active_schedule s)\<lparr>producers :=
              shuffle_from ((w - (sl + n)) mod n) (producers (active_schedule s))
                (scheduled_shuffle_slot s + of_nat n)\<rparr>,
            scheduled_shuffle_slot := timestamp (header s) - of_nat ((w - (sl + n)) mod n)\<rparr>"
    using u le cmp displ
    by (auto simp: update_active_schedule_def Let_def res_simps n_def split: if_splits)
qed

section \<open>The invariant\<close>

definition names :: "'k producer_schedule \<Rightarrow> account_name set" where
  "names sch = producer_name ` set (producers sch)"

definition schedule_ok :: "'k producer_schedule \<Rightarrow> bool" where
  "schedule_ok sch \<longleftrightarrow> length (producers sch) \<le> max_producers"

text \<open>
  What holds of every state of the chain: a non-empty schedule of bounded size all of whose producers have an
  entry in both maps; no producer's implied LIB above the proposed one; the tracked confirmation counters
  positive, at most 1024 of them, and all for blocks after the proposed LIB; the round that contains the
  header's slot started at \<open>scheduled_shuffle_slot\<close>.
\<close>

definition dpos_wf :: "('k, 's) block_header_state \<Rightarrow> bool" where
  "dpos_wf s \<longleftrightarrow>
     fm_invar (producer_to_last_produced s) \<and> fm_invar (producer_to_last_implied_irb s)
   \<and> names (active_schedule s) \<subseteq> fst ` set (producer_to_last_produced s)
   \<and> names (active_schedule s) \<subseteq> fst ` set (producer_to_last_implied_irb s)
   \<and> (\<forall>v \<in> snd ` set (producer_to_last_implied_irb s). v \<le> dpos_proposed_irreversible_blocknum s)
   \<and> dpos_irreversible_blocknum s \<le> dpos_proposed_irreversible_blocknum s
   \<and> unat (dpos_proposed_irreversible_blocknum s) + length (confirm_count s) \<le> unat (block_num s)
   \<and> (\<forall>c \<in> set (confirm_count s). 0 < c)
   \<and> length (confirm_count s) \<le> maximum_tracked_dpos_confirmations"

definition schedule_wf :: "('k, 's) block_header_state \<Rightarrow> bool" where
  "schedule_wf s \<longleftrightarrow>
     producers (active_schedule s) \<noteq> [] \<and> schedule_ok (active_schedule s) \<and> schedule_ok (pending_schedule s)
   \<and> scheduled_shuffle_slot s \<le> timestamp (header s)
   \<and> unat (timestamp (header s)) < unat (scheduled_shuffle_slot s) + length (producers (active_schedule s))"

lemma required_confs_pos:
  assumes "n \<le> max_producers"
  shows "0 < (ucast (of_nat (n * 2 div 3) + 1 :: 32 word) :: 8 word)"
proof -
  have "n * 2 div 3 \<le> 83" using assms by (simp add: max_producers_def)
  then have "unat (of_nat (n * 2 div 3) + 1 :: 32 word) = n * 2 div 3 + 1"
    using word32_add_of_nat [of 1 "n * 2 div 3"] by (simp add: add.commute)
  with \<open>n * 2 div 3 \<le> 83\<close>
  have "unat (ucast (of_nat (n * 2 div 3) + 1 :: 32 word) :: 8 word) = n * 2 div 3 + 1"
    by (simp add: unsigned_ucast_eq take_bit_nat_eq_self)
  then show ?thesis by (metis add_gr_0 unat_gt_0 word_gt_0 zero_less_one)
qed

lemma set_grow_confirm_count: "set (grow_confirm_count cc r) \<subseteq> insert (ucast r) (set cc)"
  by (cases cc) (auto simp: grow_confirm_count_def)

lemma length_grow_confirm_count:
  "length cc \<le> maximum_tracked_dpos_confirmations \<Longrightarrow>
   length (grow_confirm_count cc r) \<le> maximum_tracked_dpos_confirmations
   \<and> length (grow_confirm_count cc r) \<le> length cc + 1"
  by (auto simp: grow_confirm_count_def maximum_tracked_dpos_confirmations_def)

lemma in_snd_fm_set: "v \<in> snd ` set (fm_set k w m) \<Longrightarrow> v = w \<or> v \<in> snd ` set m"
  by (induction k w m rule: fm_set.induct) (auto split: if_splits)

lemma fm_set_nonempty [simp]: "fm_set k w m \<noteq> []"
  by (cases m) (auto split: if_splits)

lemma generate_next_Inr:
  "generate_next cr s w = Inr r \<longleftrightarrow>
   (\<exists>when prokey mrk. (w \<noteq> 0 \<longrightarrow> timestamp (header s) < w) \<and> when = (if w \<noteq> 0 then w else timestamp (header s) + 1)
     \<and> get_scheduled_producer s when = Inr prokey
     \<and> merkle_append (hash_pair cr) (bid s) (blockroot_merkle s) = Inr mrk
     \<and> r = next_template cr s when prokey mrk)"
  unfolding generate_next_def res_simps by (cases "w = 0") (simp_all add: res_simps eq_commute [of r])

lemmas template_sel =
  next_template_def [THEN arg_cong, of block_num, unfolded Let_def, simplified]
  next_template_def [THEN arg_cong, of producer_to_last_produced, unfolded Let_def, simplified]
  next_template_def [THEN arg_cong, of producer_to_last_implied_irb, unfolded Let_def, simplified]
  next_template_def [THEN arg_cong, of dpos_irreversible_blocknum, unfolded Let_def, simplified]
  next_template_def [THEN arg_cong, of dpos_proposed_irreversible_blocknum, unfolded Let_def, simplified]
  next_template_def [THEN arg_cong, of active_schedule, unfolded Let_def, simplified]
  next_template_def [THEN arg_cong, of pending_schedule, unfolded Let_def, simplified]
  next_template_def [THEN arg_cong, of confirm_count, unfolded Let_def, simplified]
  next_template_def [THEN arg_cong, of scheduled_shuffle_slot, unfolded Let_def, simplified]
  next_template_def [THEN arg_cong, of blockroot_merkle, unfolded Let_def, simplified]
  next_template_def [THEN arg_cong, of header, unfolded Let_def, simplified]

lemma scheduled_in: "get_scheduled_producer s w = Inr p \<Longrightarrow> p \<in> set (producers (active_schedule s))"
  by (auto simp: get_scheduled_producer_def Let_def split: if_splits)

lemma next_template_dpos_wf:
  assumes wf: "dpos_wf s" "schedule_wf s" and p: "prokey \<in> set (producers (active_schedule s))"
    and num: "unat (block_num s) + 1 < 2 ^ 32"
    and r_def: "r = next_template cr s w prokey mrk"
  shows "dpos_wf r"
    and "calc_dpos_last_irreversible (producer_to_last_implied_irb s) \<le> dpos_irreversible_blocknum r"
proof -
  from p have "producer_name prokey \<in> names (active_schedule s)" by (simp add: names_def)
  with wf(1) have "producer_name prokey \<in> fst ` set (producer_to_last_implied_irb s)"
    unfolding dpos_wf_def by blast
  then obtain v where v: "fm_find (producer_to_last_implied_irb s) (producer_name prokey) = Some v"
    using fm_find_None_iff [of "producer_to_last_implied_irb s" "producer_name prokey"] by auto
  then have "v \<in> snd ` set (producer_to_last_implied_irb s)" using fm_find_SomeD by force
  then have le: "v \<le> dpos_proposed_irreversible_blocknum s" using wf(1) unfolding dpos_wf_def by blast
  have inv: "fm_invar (producer_to_last_implied_irb s)" using wf(1) unfolding dpos_wf_def by blast
  show "calc_dpos_last_irreversible (producer_to_last_implied_irb s) \<le> dpos_irreversible_blocknum r"
    unfolding r_def template_sel by (rule calc_dpos_mono [OF inv v le])
  have irb: "\<forall>v \<in> snd ` set (producer_to_last_implied_irb r). v \<le> dpos_proposed_irreversible_blocknum s"
  proof
    fix v assume "v \<in> snd ` set (producer_to_last_implied_irb r)"
    then have "v = dpos_proposed_irreversible_blocknum s \<or> v \<in> snd ` set (producer_to_last_implied_irb s)"
      unfolding r_def template_sel by (rule in_snd_fm_set)
    with wf(1) show "v \<le> dpos_proposed_irreversible_blocknum s" unfolding dpos_wf_def by auto
  qed
  have "dpos_irreversible_blocknum r \<in> snd ` set (producer_to_last_implied_irb r)"
    unfolding r_def template_sel by (rule calc_dpos_in) simp
  with irb have lib: "dpos_irreversible_blocknum r \<le> dpos_proposed_irreversible_blocknum s" by blast
  have "0 < c" if "c \<in> set (confirm_count r)" for c
  proof -
    let ?q = "of_nat (length (producers (active_schedule s)) * 2 div 3) + 1 :: 32 word"
    have "c = ucast ?q \<or> c \<in> set (confirm_count s)"
      using that set_grow_confirm_count [of "confirm_count s" ?q] unfolding r_def template_sel by blast
    moreover have "0 < (ucast ?q :: 8 word)"
      using wf(2) by (intro required_confs_pos) (simp add: schedule_wf_def schedule_ok_def)
    ultimately show ?thesis using wf(1) unfolding dpos_wf_def by auto
  qed
  moreover have "unat (block_num r) = unat (block_num s) + 1"
    using num word32_add_of_nat [of "block_num s" 1] by (simp add: r_def template_sel)
  moreover have "length (confirm_count r) \<le> maximum_tracked_dpos_confirmations"
    "length (confirm_count r) \<le> length (confirm_count s) + 1"
    using wf(1) length_grow_confirm_count [of "confirm_count s"] unfolding r_def template_sel dpos_wf_def
    by simp_all
  moreover have "unat (dpos_proposed_irreversible_blocknum s) + length (confirm_count s) \<le> unat (block_num s)"
    using wf(1) unfolding dpos_wf_def by blast
  moreover have "fm_invar (producer_to_last_produced r)" "fm_invar (producer_to_last_implied_irb r)"
    "names (active_schedule r) \<subseteq> fst ` set (producer_to_last_produced r)"
    "names (active_schedule r) \<subseteq> fst ` set (producer_to_last_implied_irb r)"
    "dpos_proposed_irreversible_blocknum r = dpos_proposed_irreversible_blocknum s"
    using wf(1) unfolding r_def template_sel set_keys_fm_set dpos_wf_def by (auto intro: fm_invar_set)
  ultimately show "dpos_wf r" using irb lib unfolding dpos_wf_def by simp
qed

lemma set_confirmed_dpos_wf:
  assumes "dpos_wf s"
  shows "dpos_wf (set_confirmed s n)"
    and "dpos_proposed_irreversible_blocknum s \<le> dpos_proposed_irreversible_blocknum (set_confirmed s n)"
    and "set_confirmed s n = s\<lparr>header := header (set_confirmed s n),
           confirm_count := confirm_count (set_confirmed s n),
           dpos_proposed_irreversible_blocknum := dpos_proposed_irreversible_blocknum (set_confirmed s n)\<rparr>"
    and "timestamp (header (set_confirmed s n)) = timestamp (header s)"
proof -
  obtain cc p where l: "set_confirmed_loop (length (confirm_count s)) (unat n + 1) (block_num s)
      (confirm_count s) (dpos_proposed_irreversible_blocknum s) = (cc, p)" by (metis surj_pair)
  then have s': "set_confirmed s n = s\<lparr>header := (header s)\<lparr>confirmed := n\<rparr>, confirm_count := cc,
      dpos_proposed_irreversible_blocknum := p\<rparr>" by (simp add: set_confirmed_def)
  have inv: "(\<forall>c \<in> set cc. 0 < c) \<and> unat p + length cc \<le> unat (block_num s)
      \<and> unat (dpos_proposed_irreversible_blocknum s) \<le> unat p \<and> length cc \<le> length (confirm_count s)"
    using set_confirmed_loop_inv [OF l] assms unfolding dpos_wf_def by blast
  then have le: "dpos_proposed_irreversible_blocknum s \<le> p" by (simp add: word_le_nat_alt)
  then show "dpos_proposed_irreversible_blocknum s \<le> dpos_proposed_irreversible_blocknum (set_confirmed s n)"
    by (simp add: s')
  show "dpos_wf (set_confirmed s n)"
    using assms inv le unfolding s' dpos_wf_def by (auto intro: order_trans)
  show "set_confirmed s n = s\<lparr>header := header (set_confirmed s n),
           confirm_count := confirm_count (set_confirmed s n),
           dpos_proposed_irreversible_blocknum := dpos_proposed_irreversible_blocknum (set_confirmed s n)\<rparr>"
    "timestamp (header (set_confirmed s n)) = timestamp (header s)"
    by (simp_all add: s')
qed

lemma carry_over_find:
  "fm_find (carry_over ps old lib) k =
     (if k \<in> producer_name ` set ps
      then Some (case fm_find old k of Some n \<Rightarrow> n | None \<Rightarrow> lib) else None)"
  unfolding carry_over_def
  using fm.find_fold_put [of "[]" producer_name "\<lambda>n. case fm_find old n of Some n \<Rightarrow> n | None \<Rightarrow> lib" ps k]
  by simp

lemma carry_over_invar: "fm_invar (carry_over ps old lib)"
  unfolding carry_over_def by (rule fm.invar_fold_put) simp

lemma carry_over_keys: "fst ` set (carry_over ps old lib) = producer_name ` set ps"
proof (rule set_eqI)
  fix k
  show "k \<in> fst ` set (carry_over ps old lib) \<longleftrightarrow> k \<in> producer_name ` set ps"
    using fm_find_None_iff [of "carry_over ps old lib" k] by (simp add: carry_over_find split: if_splits)
qed

lemma carry_over_values:
  assumes "v \<in> snd ` set (carry_over ps old lib)"
  shows "v = lib \<or> v \<in> snd ` set old"
proof -
  from assms obtain k where "fm_find (carry_over ps old lib) k = Some v"
    using fm_find_Some_iff [OF carry_over_invar] by force
  then show ?thesis
    using fm_find_SomeD [of old k v] by (force simp: carry_over_find split: if_splits option.splits)
qed

lemma update_active_schedule_dpos_wf:
  assumes wf: "dpos_wf s" and u: "update_active_schedule s = Inr (promoted, s')"
  shows "dpos_wf s'"
proof (cases "length (producers (pending_schedule s)) \<noteq> 0 \<and> dpos_irreversible_blocknum s \<ge> pending_schedule_lib_num s")
  case True
  let ?ps = "shuffle (producers (pending_schedule s)) (timestamp (header s))"
  let ?lib = "dpos_irreversible_blocknum s"
  have s': "s' = s\<lparr>active_schedule := (pending_schedule s)\<lparr>producers := ?ps\<rparr>,
          pending_schedule := (pending_schedule s)\<lparr>producers := []\<rparr>,
          scheduled_shuffle_slot := timestamp (header s),
          producer_to_last_produced := fm_set (producer (header s)) (block_num s)
              (carry_over ?ps (producer_to_last_produced s) ?lib),
          producer_to_last_implied_irb := carry_over ?ps (producer_to_last_implied_irb s) ?lib\<rparr>"
    using u True by (simp add: update_active_schedule_def Let_def)
  have "v \<le> dpos_proposed_irreversible_blocknum s"
    if "v \<in> snd ` set (carry_over ?ps (producer_to_last_implied_irb s) ?lib)" for v
    using carry_over_values [OF that] wf unfolding dpos_wf_def by blast
  with wf show ?thesis
    unfolding s' dpos_wf_def names_def
    by (auto simp: carry_over_keys carry_over_invar fm_invar_set)
next
  case False
  from u obtain d x y where "s' = s \<or> s' = s\<lparr>active_schedule := (active_schedule s)\<lparr>producers :=
                  shuffle_from d (producers (active_schedule s)) x\<rparr>, scheduled_shuffle_slot := y\<rparr>"
    using False by (simp add: update_active_schedule_def Let_def res_simps split: if_splits) blast
  with wf show ?thesis unfolding dpos_wf_def names_def by (elim disjE) simp_all
qed

lemma update_active_schedule_schedule_wf:
  assumes wf: "schedule_ok (active_schedule s)" "schedule_ok (pending_schedule s)"
    and u: "update_active_schedule s = Inr (promoted, s')"
    and room: "unat (timestamp (header s)) + max_producers < 2 ^ 32"
  shows "schedule_wf s'"
proof (cases "length (producers (pending_schedule s)) \<noteq> 0 \<and> dpos_irreversible_blocknum s \<ge> pending_schedule_lib_num s")
  case True
  with u wf show ?thesis
    by (auto simp: update_active_schedule_def Let_def schedule_wf_def schedule_ok_def)
next
  case False
  with u have [simp]: "\<not> promoted"
    by (auto simp: update_active_schedule_def Let_def res_simps split: if_splits)
  let ?n = "length (producers (active_schedule s))" and ?sl = "unat (scheduled_shuffle_slot s)"
    and ?w = "unat (timestamp (header s))"
  have "scheduled_shuffle_slot s < timestamp (header s)"
    using u False by (auto simp: update_active_schedule_def Let_def res_simps split: if_splits)
  then have lt: "?sl < ?w" by (simp add: word_less_nat_alt)
  have room': "?sl + ?n < 2 ^ 32" using lt room wf(1) by (simp add: schedule_ok_def)
  from u have u': "update_active_schedule s = Inr (False, s')" by simp
  note up = update_no_promotion [OF u' room']
  show ?thesis
  proof (cases "?w < ?sl + ?n")
    case True
    with up(1,3) lt wf show ?thesis
      by (auto simp: schedule_wf_def word_le_nat_alt)
  next
    case le: False
    define d where "d = (?w - (?sl + ?n)) mod ?n"
    have d: "d < ?n" "d \<le> ?w" using up(1) le unfolding d_def
      by (auto intro: order_trans [OF mod_less_eq_dividend])
    then have "unat (timestamp (header s) - of_nat d) = ?w - d" by (simp add: unat_sub_of_nat)
    moreover have "s' = s\<lparr>active_schedule := (active_schedule s)\<lparr>producers :=
              shuffle_from d (producers (active_schedule s)) (scheduled_shuffle_slot s + of_nat ?n)\<rparr>,
            scheduled_shuffle_slot := timestamp (header s) - of_nat d\<rparr>"
      using up(4) le unfolding d_def by simp
    ultimately show ?thesis using d wf
      by (auto simp: schedule_wf_def schedule_ok_def word_le_nat_alt)
  qed
qed

section \<open>The next state\<close>

lemma next_state_InrE:
  assumes "next_state cr s h skip = Inr s'"
  obtains prokey mrk promoted r2 r3 where
    "previous h = bid s" "timestamp (header s) < timestamp h"
    "get_scheduled_producer s (timestamp h) = Inr prokey" "producer_name prokey = producer h"
    "merkle_append (hash_pair cr) (bid s) (blockroot_merkle s) = Inr mrk"
    "update_active_schedule (set_confirmed (next_template cr s (timestamp h) prokey mrk) (confirmed h))
       = Inr (promoted, r2)"
    "case new_producers h of None \<Rightarrow> r3 = r2 | Some np \<Rightarrow> \<not> promoted \<and> set_new_producers cr r2 np = Inr r3"
    "s' = finish_header cr h r3" "\<not> skip \<longrightarrow> signee cr s' = Inr (signing_key s')"
proof -
  from assms obtain r pr r3 where
    1: "previous h = bid s" "timestamp (header s) < timestamp h" and nz: "timestamp h \<noteq> 0"
    and g: "generate_next cr s (timestamp h) = Inr r" and p: "producer (header r) = producer h"
    and pr: "update_active_schedule (set_confirmed r (confirmed h)) = Inr pr"
    and n: "(case new_producers h of
                 Some np \<Rightarrow>
                   bind_res (eos_assert (\<not> fst pr) Producer_schedule_exception) (\<lambda>_.
                   set_new_producers cr (snd pr) np)
               | None \<Rightarrow> Inr (snd pr)) = Inr r3"
    and f: "(if skip then Inr (finish_header cr h r3)
       else bind_res (signee cr (finish_header cr h r3)) (\<lambda>k. bind_res (verify_signee (finish_header cr h r3) k)
          (\<lambda>_. Inr (finish_header cr h r3)))) = Inr s'"
    unfolding next_state_def Let_def case_prod_unfold bind_res_Inr eos_assert_Inr by blast
  define promoted r2 where "promoted = fst pr" and "r2 = snd pr"
  then have u: "update_active_schedule (set_confirmed r (confirmed h)) = Inr (promoted, r2)"
    using pr by simp
  from g nz obtain prokey mrk where
    2: "get_scheduled_producer s (timestamp h) = Inr prokey"
      "merkle_append (hash_pair cr) (bid s) (blockroot_merkle s) = Inr mrk"
    and r: "r = next_template cr s (timestamp h) prokey mrk"
    unfolding generate_next_Inr by auto
  have 3: "producer_name prokey = producer h" using p by (simp add: r template_sel)
  have 4: "case new_producers h of None \<Rightarrow> r3 = r2 | Some np \<Rightarrow> \<not> promoted \<and> set_new_producers cr r2 np = Inr r3"
    using n by (auto simp: res_simps promoted_def r2_def split: option.splits)
  have 5: "s' = finish_header cr h r3" and 6: "\<not> skip \<longrightarrow> signee cr s' = Inr (signing_key s')"
    using f by (auto simp: res_simps verify_signee_def split: if_splits)
  show thesis by (rule that [OF 1 2(1) 3 2(2) u [unfolded r] 4 5 6])
qed

lemma set_new_producers_sel:
  assumes "set_new_producers cr r np = Inr r'"
  shows "r' = r\<lparr>header := header r', pending_schedule_hash := pending_schedule_hash r', pending_schedule := np,
      pending_schedule_lib_num := block_num r\<rparr>" "timestamp (header r') = timestamp (header r)"
  using assms by (auto simp: set_new_producers_def res_simps)

lemma update_keeps:
  assumes "update_active_schedule r = Inr (promoted, r2)"
  shows "block_num r2 = block_num r" "dpos_irreversible_blocknum r2 = dpos_irreversible_blocknum r"
    "dpos_proposed_irreversible_blocknum r2 = dpos_proposed_irreversible_blocknum r"
    "blockroot_merkle r2 = blockroot_merkle r" "header r2 = header r"
  using assms by (auto simp: update_active_schedule_def Let_def res_simps split: if_splits)

lemma schedule_wf_cong:
  assumes "active_schedule r = active_schedule s" "scheduled_shuffle_slot r = scheduled_shuffle_slot s"
    "timestamp (header r) = timestamp (header s)" "schedule_ok (pending_schedule r)"
  shows "schedule_wf s \<Longrightarrow> schedule_wf r"
  using assms by (simp add: schedule_wf_def)

lemma finish_header_sel:
  "dpos_wf (finish_header cr h r) = dpos_wf r"
  "schedule_wf (finish_header cr h r) = schedule_wf r"
  "block_num (finish_header cr h r) = block_num r"
  "dpos_irreversible_blocknum (finish_header cr h r) = dpos_irreversible_blocknum r"
  "dpos_proposed_irreversible_blocknum (finish_header cr h r) = dpos_proposed_irreversible_blocknum r"
  "blockroot_merkle (finish_header cr h r) = blockroot_merkle r"
  by (simp_all add: finish_header_def Let_def dpos_wf_def schedule_wf_def)

lemma next_state_step:
  assumes wf: "dpos_wf s" "schedule_wf s" and n: "next_state cr s h skip = Inr s'"
    and np: "\<forall>np. new_producers h = Some np \<longrightarrow> schedule_ok np"
    and num: "unat (block_num s) + 1 < 2 ^ 32" and room: "unat (timestamp h) + max_producers < 2 ^ 32"
  shows "dpos_wf s'" and "schedule_wf s'" and "block_num s' = block_num s + 1"
    and "dpos_proposed_irreversible_blocknum s \<le> dpos_proposed_irreversible_blocknum s'"
    and "calc_dpos_last_irreversible (producer_to_last_implied_irb s) \<le> dpos_irreversible_blocknum s'"
    and "merkle_append (hash_pair cr) (bid s) (blockroot_merkle s) = Inr (blockroot_merkle s')"
proof -
  obtain prokey mrk promoted r2 r3 where
    p: "get_scheduled_producer s (timestamp h) = Inr prokey"
    and m: "merkle_append (hash_pair cr) (bid s) (blockroot_merkle s) = Inr mrk"
    and u: "update_active_schedule (set_confirmed (next_template cr s (timestamp h) prokey mrk) (confirmed h))
       = Inr (promoted, r2)"
    and r3: "case new_producers h of None \<Rightarrow> r3 = r2 | Some np \<Rightarrow> \<not> promoted \<and> set_new_producers cr r2 np = Inr r3"
    and s': "s' = finish_header cr h r3"
    using next_state_InrE [OF n] by metis
  let ?t = "next_template cr s (timestamp h) prokey mrk"
  have twf: "dpos_wf ?t"
    and lib: "calc_dpos_last_irreversible (producer_to_last_implied_irb s) \<le> dpos_irreversible_blocknum ?t"
    using next_template_dpos_wf [OF wf scheduled_in [OF p] num refl] by auto
  define c where "c = set_confirmed ?t (confirmed h)"
  note cs = set_confirmed_dpos_wf [OF twf, of "confirmed h", folded c_def]
  have csel: "block_num c = block_num s + 1" "dpos_irreversible_blocknum c = dpos_irreversible_blocknum ?t"
    "blockroot_merkle c = mrk" "active_schedule c = active_schedule s" "pending_schedule c = pending_schedule s"
    "timestamp (header c) = timestamp h"
    using cs(4) by (subst cs(3), simp add: template_sel)+
  have r2wf: "dpos_wf r2" using update_active_schedule_dpos_wf [OF cs(1)] u unfolding c_def by blast
  have r2s: "schedule_wf r2"
    using update_active_schedule_schedule_wf [OF _ _ u [folded c_def]] wf(2) room csel
    by (simp add: schedule_wf_def)
  note k = update_keeps [OF u [folded c_def]]
  have r3k: "dpos_wf r3 \<and> schedule_wf r3 \<and> block_num r3 = block_num r2
      \<and> dpos_irreversible_blocknum r3 = dpos_irreversible_blocknum r2
      \<and> dpos_proposed_irreversible_blocknum r3 = dpos_proposed_irreversible_blocknum r2
      \<and> blockroot_merkle r3 = blockroot_merkle r2"
  proof (cases "new_producers h")
    case None
    with r3 r2wf r2s show ?thesis by simp
  next
    case (Some nps)
    with r3 have sn: "set_new_producers cr r2 nps = Inr r3" by simp
    note sel = set_new_producers_sel [OF this]
    have "dpos_wf r3" using r2wf by (subst sel(1)) (simp add: dpos_wf_def)
    moreover have "schedule_wf r3"
      using r2s np Some sel(2) by (intro schedule_wf_cong [OF _ _ sel(2)]) (subst sel(1), simp)+
    ultimately show ?thesis
      using arg_cong [OF sel(1), of block_num] arg_cong [OF sel(1), of dpos_irreversible_blocknum]
        arg_cong [OF sel(1), of dpos_proposed_irreversible_blocknum] arg_cong [OF sel(1), of blockroot_merkle]
      by simp
  qed
  show "dpos_wf s'" "schedule_wf s'" "block_num s' = block_num s + 1"
    "dpos_proposed_irreversible_blocknum s \<le> dpos_proposed_irreversible_blocknum s'"
    "calc_dpos_last_irreversible (producer_to_last_implied_irb s) \<le> dpos_irreversible_blocknum s'"
    "merkle_append (hash_pair cr) (bid s) (blockroot_merkle s) = Inr (blockroot_merkle s')"
    using r3k k csel lib cs(2) m by (simp_all add: s' finish_header_sel template_sel)
qed

section \<open>Chains of headers\<close>

text \<open>
  The states a node reaches from a first state by accepting headers, with the ids of the blocks before.
  Schedules proposed in headers have at most 125 producers, which is what the controller lets through.
\<close>

inductive header_chain :: "('k, 's) crypto \<Rightarrow> ('k, 's) block_header_state \<Rightarrow> digest list
    \<Rightarrow> ('k, 's) block_header_state \<Rightarrow> bool" for cr g where
  start: "header_chain cr g [] g"
| accept: "header_chain cr g ids s \<Longrightarrow> next_state cr s h skip = Inr s' \<Longrightarrow>
    \<forall>np. new_producers h = Some np \<longrightarrow> schedule_ok np \<Longrightarrow>
    unat (block_num s) + 1 < 2 ^ 32 \<Longrightarrow> unat (timestamp h) + max_producers < 2 ^ 32 \<Longrightarrow>
    header_chain cr g (ids @ [bid s]) s'"

lemma header_chain_invariant:
  assumes "header_chain cr g ids s" and "dpos_wf g" "schedule_wf g" "blockroot_merkle g = empty_merkle"
  shows "dpos_wf s \<and> schedule_wf s \<and> unat (block_num s) = unat (block_num g) + length ids
    \<and> dpos_proposed_irreversible_blocknum g \<le> dpos_proposed_irreversible_blocknum s
    \<and> merkle_repr (hash_pair cr) ids (blockroot_merkle s)"
  using assms
proof (induction rule: header_chain.induct)
  case start
  then show ?case by (simp add: merkle_repr_def empty_merkle_def)
next
  case (accept ids s h skip s')
  then have s: "dpos_wf s" "schedule_wf s" "unat (block_num s) = unat (block_num g) + length ids"
    "dpos_proposed_irreversible_blocknum g \<le> dpos_proposed_irreversible_blocknum s"
    "merkle_repr (hash_pair cr) ids (blockroot_merkle s)" by auto
  note st = next_state_step [OF s(1,2) accept.hyps(2-5)]
  have "unat (block_num s') = unat (block_num s) + 1"
    using accept.hyps(4) word32_add_of_nat [of "block_num s" 1] st(3) by simp
  moreover have "Suc (length ids) < 2 ^ 64" using s(3) accept.hyps(4) by simp
  then have "merkle_repr (hash_pair cr) (ids @ [bid s]) (blockroot_merkle s')"
    using merkle_repr_append [OF s(5), of "bid s"] st(6) by auto
  ultimately show ?case using st(1,2,4) s(3,4) by simp
qed

lemma merkle_repr_root:
  assumes "merkle_repr hash ids m" "length ids < 2 ^ 64"
  shows "get_root m = merkle hash ids"
proof -
  have "node_count m = 0 \<longleftrightarrow> ids = []"
    using assms by (auto simp: merkle_repr_def word_of_nat_eq_0_iff dest: dvd_imp_le)
  then show ?thesis
    using assms by (auto simp: get_root_def merkle_repr_def merkle_def word_gt_0)
qed

lemma hi_mask_bit: "bit (0xffffffff00000000 :: 64 word) n \<longleftrightarrow> 32 \<le> n \<and> n < 64"
proof -
  have "(0xffffffff00000000 :: 64 word) = push_bit 32 (mask 32)" by (simp add: mask_eq_exp_minus_1)
  then show ?thesis by (simp only: bit_push_bit_iff bit_mask_iff) auto
qed

lemma hi_part: "w AND 0xffffffff00000000 = push_bit 32 (drop_bit 32 (w :: 64 word))"
  by (rule bit_word_eqI) (simp only: bit_and_iff hi_mask_bit bit_push_bit_iff bit_drop_bit_eq comp_def, auto)

text \<open>An example: three producers, a first block at slot 5 and its successor at slot 6.\<close>

definition ex_crypto :: "(nat, nat) crypto" where
  "ex_crypto = \<lparr>hash_header = (\<lambda>h. Digest (ucast (timestamp h)) 1 2 3), hash_schedule = (\<lambda>_. Digest 7 0 0 0),
     hash_pair = (\<lambda>(l, r). Digest (hash0 l + 3 * hash0 r) (hash1 l) (hash2 r) 1),
     recover_key = (\<lambda>sig _ _. Inr sig), endian_reverse_u32 = (\<lambda>x. x), no_key = 0, no_signature = 0\<rparr>"

definition ex_genesis :: "(nat, nat) block_header_state" where
  "ex_genesis = \<lparr>bid = Digest 1 0 0 9, block_num = 1,
     header = (default_header ex_crypto)\<lparr>timestamp := 5\<rparr>,
     dpos_proposed_irreversible_blocknum = 0, dpos_irreversible_blocknum = 0, bft_irreversible_blocknum = 0,
     pending_schedule_lib_num = 0, scheduled_shuffle_slot = 5, pending_schedule_hash = null_digest,
     pending_schedule = \<lparr>version = 0, producers = []\<rparr>,
     active_schedule = \<lparr>version = 0, producers = [\<lparr>producer_name = 11, block_signing_key = 1\<rparr>,
        \<lparr>producer_name = 12, block_signing_key = 2\<rparr>, \<lparr>producer_name = 13, block_signing_key = 3\<rparr>]\<rparr>,
     blockroot_merkle = empty_merkle, producer_to_last_produced = [(11, 0), (12, 0), (13, 0)],
     producer_to_last_implied_irb = [(11, 0), (12, 0), (13, 0)], signing_key = 1, confirm_count = [],
     confirmations = []\<rparr>"

definition ex_header :: "(nat, nat) signed_block_header" where
  "ex_header = (default_header ex_crypto)\<lparr>timestamp := 6, producer := 11, confirmed := 0,
     previous := Digest 1 0 0 9, producer_signature := 1\<rparr>"

lemma ex_wf: "dpos_wf ex_genesis" "schedule_wf ex_genesis" "blockroot_merkle ex_genesis = empty_merkle"
  by (simp_all add: dpos_wf_def schedule_wf_def ex_genesis_def names_def schedule_ok_def max_producers_def
      maximum_tracked_dpos_confirmations_def fm_invar_def default_header_def)

lemma ex_next: "next_state ex_crypto ex_genesis ex_header False = Inr (projr (next_state ex_crypto ex_genesis ex_header False))"
  by code_simp

section \<open>Properties\<close>

text \<open>
  C11. The DPOS irreversible block number is exactly the highest number that more than two thirds of the
  tracked producers have implied as irreversible: more than two thirds support the result, and no higher
  number has that support.
\<close>

theorem dpos_lib_two_thirds:
  assumes "irb \<noteq> []"
  shows "2 * length irb < 3 * supporters irb (calc_dpos_last_irreversible irb)
    \<and> (\<forall>v. 2 * length irb < 3 * supporters irb v \<longrightarrow> v \<le> calc_dpos_last_irreversible irb)"
  using calc_dpos_supporters [OF assms] by (meson leI linorder_not_less)

theorem dpos_lib_two_thirds_witness:
  "2 * length [(11, 4), (12, 9), (13, 7), (14, 9 :: 32 word)]
     < 3 * supporters [(11, 4), (12, 9), (13, 7), (14, 9)]
         (calc_dpos_last_irreversible [(11, 4), (12, 9), (13, 7), (14, 9)])"
  using dpos_lib_two_thirds [of "[(11, 4), (12, 9), (13, 7), (14, 9)]"] by simp



text \<open>
  C13. Accepting a header never lowers the irreversible block number below the one the tracked producers
  already imply.
\<close>

theorem next_state_lib_monotone:
  assumes "dpos_wf s" and "schedule_wf s" and "next_state cr s h skip = Inr s'"
    and "\<forall>np. new_producers h = Some np \<longrightarrow> schedule_ok np"
    and "unat (block_num s) + 1 < 2 ^ 32" and "unat (timestamp h) + max_producers < 2 ^ 32"
  shows "calc_dpos_last_irreversible (producer_to_last_implied_irb s) \<le> dpos_irreversible_blocknum s'"
  by (rule next_state_step(5) [OF assms])

theorem next_state_lib_monotone_witness:
  "calc_dpos_last_irreversible (producer_to_last_implied_irb ex_genesis)
     \<le> dpos_irreversible_blocknum (projr (next_state ex_crypto ex_genesis ex_header False))"
  by (rule next_state_lib_monotone [OF ex_wf(1,2) ex_next])
    (simp_all add: ex_header_def default_header_def ex_genesis_def max_producers_def)

text \<open>
  C22. A round gives every scheduled producer exactly one slot: the \<open>n\<close> slots after
  \<open>scheduled_shuffle_slot\<close> go to the \<open>n\<close> producers of the active schedule, in order.
\<close>

theorem round_schedules_each_producer_once:
  assumes "producers (active_schedule s) \<noteq> []"
    and "unat (scheduled_shuffle_slot s) + length (producers (active_schedule s)) < 2 ^ 32"
  shows "map (\<lambda>d. get_scheduled_producer s (scheduled_shuffle_slot s + 1 + of_nat d))
      [0..<length (producers (active_schedule s))] = map Inr (producers (active_schedule s))"
proof (rule nth_equalityI)
  fix i assume "i < length (map (\<lambda>d. get_scheduled_producer s (scheduled_shuffle_slot s + 1 + of_nat d))
      [0..<length (producers (active_schedule s))])"
  then have i: "i < length (producers (active_schedule s))" by simp
  have "unat (scheduled_shuffle_slot s + of_nat (Suc i)) = unat (scheduled_shuffle_slot s) + Suc i"
    using i assms(2) by (intro word32_add_of_nat) simp
  then have u: "unat (scheduled_shuffle_slot s + 1 + of_nat i) = unat (scheduled_shuffle_slot s) + Suc i"
    by (simp add: algebra_simps)
  then have "scheduled_shuffle_slot s < scheduled_shuffle_slot s + 1 + of_nat i"
    by (simp add: word_less_nat_alt)
  from scheduled_index [OF this assms(1)] u i
  show "map (\<lambda>d. get_scheduled_producer s (scheduled_shuffle_slot s + 1 + of_nat d))
      [0..<length (producers (active_schedule s))] ! i = map Inr (producers (active_schedule s)) ! i"
    by simp
qed simp

theorem round_schedules_each_producer_once_witness:
  "map (\<lambda>d. get_scheduled_producer ex_genesis (scheduled_shuffle_slot ex_genesis + 1 + of_nat d))
     [0..<length (producers (active_schedule ex_genesis))] = map Inr (producers (active_schedule ex_genesis))"
  by (rule round_schedules_each_producer_once) (simp_all add: ex_genesis_def)



text \<open>
  The id of a header carries its block number: decoding the number from the id gives the number after the
  one in the id of the previous block, whatever the digest is.
\<close>

theorem header_id_carries_block_num:
  assumes "\<And>x. endian_reverse_u32 cr (endian_reverse_u32 cr x) = x"
  shows "num_from_id cr (header_id cr h) = num_from_id cr (previous h) + 1"
proof -
  let ?n = "endian_reverse_u32 cr (header_block_num cr h)"
  have "(ucast ((w AND 0xffffffff00000000) + ucast ?n) :: 32 word) = ?n" for w :: "64 word"
  proof -
    have "push_bit 32 (drop_bit 32 w) AND ucast ?n = 0"
      by (rule bit_word_eqI) (auto simp: bit_simps dest: bit_imp_le_length)
    then have "push_bit 32 (drop_bit 32 w) + ucast ?n = push_bit 32 (drop_bit 32 w) OR ucast ?n"
      by (simp add: disjunctive_add_eq_or)
    then show ?thesis unfolding hi_part by (intro bit_word_eqI) (auto simp: bit_simps)
  qed
  with assms show ?thesis by (simp add: num_from_id_def header_id_def Let_def header_block_num_def)
qed

theorem header_id_carries_block_num_witness:
  "num_from_id ex_crypto (header_id ex_crypto ex_header) = num_from_id ex_crypto (previous ex_header) + 1"
  by (rule header_id_carries_block_num) (simp add: ex_crypto_def)

end
