(* ===== verification/ForkDb.thy ===== *)
theory ForkDb
  imports BlockHeaderState
begin

text \<open>
  The fork database: \<^verbatim>\<open>block_state.hpp\<close>, \<^verbatim>\<open>block_state.cpp\<close>, \<^verbatim>\<open>fork_database.hpp\<close> and
  \<^verbatim>\<open>fork_database.cpp\<close>.

  The multi-index container is the list of its block states in insertion order, which is also the order of
  equal keys in the index by previous id, whose keys never change. The iteration orders of the two indices
  whose keys do change are the fields of \<open>orders\<close>, an argument of the operations; \<open>orders_ok\<close> is what a
  sorted container promises (a permutation, sorted by the key, ties in any order). Block states are shared
  by pointer between the container and \<open>head\<close>: \<open>modify_block\<close> changes both. The \<open>irreversible\<close> signal is
  the list of the ids it was emitted with.
\<close>

section \<open>State\<close>

record ('k, 's) block_state = "('k, 's) block_header_state" +
  block :: "('k, 's) signed_block_header"
  validated :: bool
  in_current_chain :: bool

definition block_state_of_header ::
  "('k, 's) crypto \<Rightarrow> ('k, 's) block_header_state \<Rightarrow> ('k, 's) signed_block_header \<Rightarrow> bool \<Rightarrow> ('k, 's) block_state res" where
  "block_state_of_header cr prev b skip =
     bind_res (next_state cr prev b skip) (\<lambda>s.
     Inr (block_header_state.extend s \<lparr>block = b, validated = False, in_current_chain = False\<rparr>))"

record ('k, 's) fork_db =
  index :: "('k, 's) block_state list"
  head :: "('k, 's) block_state option"
  irreversible_log :: "digest list"

record ('k, 's) orders =
  by_block_num :: "('k, 's) block_state list \<Rightarrow> ('k, 's) block_state list"
  by_lib_block_num :: "('k, 's) block_state list \<Rightarrow> ('k, 's) block_state list"

definition num_le :: "('k, 's) block_state \<Rightarrow> ('k, 's) block_state \<Rightarrow> bool" where
  "num_le a b \<longleftrightarrow> block_num a < block_num b
     \<or> block_num a = block_num b \<and> (in_current_chain b \<longrightarrow> in_current_chain a)"

definition lib_ge :: "('k, 's) block_state \<Rightarrow> ('k, 's) block_state \<Rightarrow> bool" where
  "lib_ge a b \<longleftrightarrow>
     (dpos_irreversible_blocknum b, bft_irreversible_blocknum b, block_num b)
       \<le> (dpos_irreversible_blocknum a, bft_irreversible_blocknum a, block_num a)"

definition orders_ok :: "('k, 's) orders \<Rightarrow> bool" where
  "orders_ok mi \<longleftrightarrow>
     (\<forall>xs. mset (by_block_num mi xs) = mset xs \<and> sorted_wrt num_le (by_block_num mi xs))
   \<and> (\<forall>xs. mset (by_lib_block_num mi xs) = mset xs \<and> sorted_wrt lib_ge (by_lib_block_num mi xs))"

section \<open>Operations\<close>

definition get_block :: "digest \<Rightarrow> ('k, 's) fork_db \<Rightarrow> ('k, 's) block_state option" where
  "get_block i db = find (\<lambda>b. bid b = i) (index db)"

text \<open>\<open>index.insert\<close>: refused when the id is present.\<close>

definition index_insert :: "('k, 's) block_state \<Rightarrow> ('k, 's) fork_db \<Rightarrow> bool \<times> ('k, 's) fork_db" where
  "index_insert s db =
     (if get_block (bid s) db \<noteq> None then (False, db) else (True, db\<lparr>index := index db @ [s]\<rparr>))"

definition modify_block ::
  "digest \<Rightarrow> (('k, 's) block_state \<Rightarrow> ('k, 's) block_state) \<Rightarrow> ('k, 's) fork_db \<Rightarrow> ('k, 's) fork_db" where
  "modify_block i f db =
     (let g = (\<lambda>b. if bid b = i then f b else b) in
      db\<lparr>index := map g (index db), head := map_option g (head db)\<rparr>)"

text \<open>\<open>*index.get<by_lib_block_num>().begin()\<close>, undefined on an empty container.\<close>

definition best :: "('k, 's) orders \<Rightarrow> ('k, 's) fork_db \<Rightarrow> ('k, 's) block_state res" where
  "best mi db = (case by_lib_block_num mi (index db) of [] \<Rightarrow> Inl Undefined_behaviour | b # _ \<Rightarrow> Inr b)"

text \<open>
  \<open>set\<close> inserts before it checks the id: its result pairs the outcome with the state, since a failed check
  leaves the inserted block behind.
\<close>

definition fork_set :: "('k, 's) crypto \<Rightarrow> ('k, 's) block_state \<Rightarrow> ('k, 's) fork_db \<Rightarrow> unit res \<times> ('k, 's) fork_db" where
  "fork_set cr s db =
     (let (inserted, db) = index_insert s db in
      if bid s \<noteq> header_id cr (header s) then (Inl Fork_database_exception, db)
      else if \<not> inserted then (Inl Fork_database_exception, db)
      else (Inr (),
        (case head db of
           None \<Rightarrow> db\<lparr>head := Some s\<rparr>
         | Some h \<Rightarrow> if block_num h < block_num s then db\<lparr>head := Some s\<rparr> else db)))"

definition children :: "digest \<Rightarrow> ('k, 's) block_state list \<Rightarrow> ('k, 's) block_state list" where
  "children i ix = filter (\<lambda>b. previous (header b) = i) ix"

definition index_erase :: "digest \<Rightarrow> ('k, 's) block_state list \<Rightarrow> ('k, 's) block_state list" where
  "index_erase i ix = filter (\<lambda>b. bid b \<noteq> i) ix"

text \<open>The loop of \<open>remove\<close>; its first argument is the part of \<open>remove_queue\<close> from position \<open>i\<close> on.\<close>

function (sequential) remove_loop ::
  "digest list \<Rightarrow> ('k, 's) block_state list \<Rightarrow> ('k, 's) block_state list" where
  "remove_loop [] ix = ix"
| "remove_loop (i # queue) ix =
     (let ix = index_erase i ix in remove_loop (queue @ map bid (children i ix)) ix)"
  by pat_completeness auto
termination
proof (relation "measures [\<lambda>(_, ix). length ix, \<lambda>(q, ix). length (filter (\<lambda>i. i \<notin> bid ` set ix) q)]")
  fix i :: digest and queue and ix ix' :: "('k, 's) block_state list"
  assume ix': "ix' = index_erase i ix"
  show "((queue @ map bid (children i ix'), ix'), (i # queue, ix))
      \<in> measures [\<lambda>(_, ix). length ix, \<lambda>(q, ix). length (filter (\<lambda>i. i \<notin> bid ` set ix) q)]"
  proof (cases "i \<in> bid ` set ix")
    case True
    then have "length ix' < length ix" unfolding ix' index_erase_def by (auto intro: length_filter_less)
    then show ?thesis by simp
  next
    case False
    then have "ix' = ix" unfolding ix' index_erase_def by (auto intro!: filter_True)
    with False show ?thesis by (auto simp: filter_empty_conv children_def)
  qed
qed simp

definition fork_remove :: "('k, 's) orders \<Rightarrow> digest \<Rightarrow> ('k, 's) fork_db \<Rightarrow> ('k, 's) fork_db res" where
  "fork_remove mi i db =
     (let db = db\<lparr>index := remove_loop [i] (index db)\<rparr> in
      bind_res (best mi db) (\<lambda>b. Inr (db\<lparr>head := Some b\<rparr>)))"

definition set_validity :: "('k, 's) orders \<Rightarrow> ('k, 's) block_state \<Rightarrow> bool \<Rightarrow> ('k, 's) fork_db \<Rightarrow> ('k, 's) fork_db res" where
  "set_validity mi h valid db =
     (if \<not> valid then fork_remove mi (bid h) db
      else Inr (modify_block (bid h) (\<lambda>b. b\<lparr>validated := True\<rparr>) db))"

definition mark_in_current_chain :: "('k, 's) block_state \<Rightarrow> bool \<Rightarrow> ('k, 's) fork_db \<Rightarrow> ('k, 's) fork_db res" where
  "mark_in_current_chain h flag db =
     (if in_current_chain h = flag then Inr db
      else if get_block (bid h) db = None then Inl Fork_db_block_not_found
      else Inr (modify_block (bid h) (\<lambda>b. b\<lparr>in_current_chain := flag\<rparr>) db))"

text \<open>
  The last loop of \<open>prune\<close>: the blocks of one number, in index order. \<open>remove\<close> must not erase the element
  the iterator stands on; where it would, the behaviour is undefined.
\<close>

fun remove_all :: "('k, 's) orders \<Rightarrow> ('k, 's) block_state list \<Rightarrow> ('k, 's) fork_db \<Rightarrow> ('k, 's) fork_db res" where
  "remove_all mi [] db = Inr db"
| "remove_all mi (b # bs) db =
     (if get_block (bid b) db = None then Inl Undefined_behaviour
      else bind_res (fork_remove mi (bid b) db) (remove_all mi bs))"

text \<open>What \<open>prune\<close> does after its first loop.\<close>

definition prune_block :: "('k, 's) orders \<Rightarrow> ('k, 's) block_state \<Rightarrow> ('k, 's) fork_db \<Rightarrow> ('k, 's) fork_db res" where
  "prune_block mi h db =
     (let db = (if get_block (bid h) db \<noteq> None
                then db\<lparr>index := index_erase (bid h) (index db),
                        irreversible_log := irreversible_log db @ [bid h]\<rparr>
                else db) in
      remove_all mi (filter (\<lambda>b. block_num b = block_num h) (by_block_num mi (index db))) db)"

text \<open>
  \<open>prune\<close> and its first loop call each other; \<open>None\<close> is running out of fuel. \<open>prune_fuel\<close>, three more
  than the number of blocks, is enough: \<open>prune_enough_fuel\<close>.
\<close>

fun prune :: "('k, 's) orders \<Rightarrow> nat \<Rightarrow> ('k, 's) block_state \<Rightarrow> ('k, 's) fork_db \<Rightarrow> ('k, 's) fork_db res option"
  and prune_lower :: "('k, 's) orders \<Rightarrow> nat \<Rightarrow> 32 word \<Rightarrow> ('k, 's) fork_db \<Rightarrow> ('k, 's) fork_db res option" where
  "prune mi 0 h db = None"
| "prune mi (Suc n) h db =
     (case prune_lower mi n (block_num h) db of
        Some (Inr db') \<Rightarrow> Some (prune_block mi h db')
      | r \<Rightarrow> r)"
| "prune_lower mi 0 num db = None"
| "prune_lower mi (Suc n) num db =
     (case by_block_num mi (index db) of
        [] \<Rightarrow> Some (Inr db)
      | b # _ \<Rightarrow>
          if block_num b < num then
            (case prune mi n b db of Some (Inr db') \<Rightarrow> prune_lower mi n num db' | r \<Rightarrow> r)
          else Some (Inr db))"

definition prune_fuel :: "('k, 's) fork_db \<Rightarrow> nat" where
  "prune_fuel db = length (index db) + 3"

fun prune_oldest :: "('k, 's) orders \<Rightarrow> nat \<Rightarrow> 32 word \<Rightarrow> ('k, 's) fork_db \<Rightarrow> ('k, 's) fork_db res option" where
  "prune_oldest mi 0 lib db = Some (Inr db)"
| "prune_oldest mi (Suc n) lib db =
     (case by_block_num mi (index db) of
        [] \<Rightarrow> Some (Inl Undefined_behaviour)
      | oldest # _ \<Rightarrow>
          if block_num oldest < lib then
            (case prune mi (prune_fuel db) oldest db of
               Some (Inr db') \<Rightarrow> prune_oldest mi n lib db'
             | r \<Rightarrow> r)
          else Some (Inr db))"

definition fork_add_state :: "('k, 's) orders \<Rightarrow> ('k, 's) block_state \<Rightarrow> bool \<Rightarrow> ('k, 's) fork_db
    \<Rightarrow> ('k, 's) fork_db res option" where
  "fork_add_state mi n skip_validate_previous db =
     (if head db = None then Some (Inl Fork_db_block_not_found)
      else if \<not> skip_validate_previous \<and> get_block (previous (block n)) db = None
      then Some (Inl Unlinkable_block_exception)
      else
        (let (inserted, db) = index_insert n db in
         if \<not> inserted then Some (Inl Fork_database_exception)
         else
           (case best mi db of
              Inl e \<Rightarrow> Some (Inl e)
            | Inr h \<Rightarrow> prune_oldest mi 10 (dpos_irreversible_blocknum h) (db\<lparr>head := Some h\<rparr>))))"

definition fork_add_block :: "('k, 's) crypto \<Rightarrow> ('k, 's) orders \<Rightarrow> ('k, 's) signed_block_header \<Rightarrow> bool
    \<Rightarrow> ('k, 's) fork_db \<Rightarrow> ('k, 's) fork_db res option" where
  "fork_add_block cr mi b skip_validate_signee db =
     (if head db = None then Some (Inl Fork_db_block_not_found)
      else if get_block (header_id cr b) db \<noteq> None then Some (Inl Fork_database_exception)
      else
        (case get_block (previous b) db of
           None \<Rightarrow> Some (Inl Unlinkable_block_exception)
         | Some prior \<Rightarrow>
             (case block_state_of_header cr (block_header_state.truncate prior) b skip_validate_signee of
                Inl e \<Rightarrow> Some (Inl e)
              | Inr r \<Rightarrow> fork_add_state mi r True db)))"

definition get_block_in_current_chain_by_num ::
  "('k, 's) orders \<Rightarrow> 32 word \<Rightarrow> ('k, 's) fork_db \<Rightarrow> ('k, 's) block_state option" where
  "get_block_in_current_chain_by_num mi n db =
     (case dropWhile (\<lambda>b. block_num b < n) (by_block_num mi (index db)) of
        [] \<Rightarrow> None
      | b # _ \<Rightarrow> if block_num b \<noteq> n \<or> \<not> in_current_chain b then None else Some b)"

definition get_child_block :: "digest \<Rightarrow> ('k, 's) fork_db \<Rightarrow> ('k, 's) block_state option" where
  "get_child_block parent_id db =
     (case children parent_id (index db) of [] \<Rightarrow> None | b # _ \<Rightarrow> Some b)"

text \<open>
  \<open>fetch_branch_from\<close>. A null block pointer is dereferenced by the loop conditions, and also by the message
  arguments of the assertions that check it, so a missing block is undefined behaviour, not the exception the
  assertion names. \<open>None\<close> is running out of fuel.
\<close>

fun branch_down :: "nat \<Rightarrow> ('k, 's) fork_db \<Rightarrow> 32 word \<Rightarrow> ('k, 's) block_state \<Rightarrow> ('k, 's) block_state list
    \<Rightarrow> (('k, 's) block_state \<times> ('k, 's) block_state list) res option" where
  "branch_down 0 db num b acc = None"
| "branch_down (Suc n) db num b acc =
     (if block_num b > num then
        (case get_block (previous (header b)) db of
           None \<Rightarrow> Some (Inl Undefined_behaviour)
         | Some p \<Rightarrow> branch_down n db num p (acc @ [b]))
      else Some (Inr (b, acc)))"

fun branch_meet :: "nat \<Rightarrow> ('k, 's) fork_db \<Rightarrow> ('k, 's) block_state \<Rightarrow> ('k, 's) block_state
    \<Rightarrow> ('k, 's) block_state list \<Rightarrow> ('k, 's) block_state list
    \<Rightarrow> (('k, 's) block_state list \<times> ('k, 's) block_state list) res option" where
  "branch_meet 0 db a b xs ys = None"
| "branch_meet (Suc n) db a b xs ys =
     (if previous (header a) \<noteq> previous (header b) then
        (case (get_block (previous (header a)) db, get_block (previous (header b)) db) of
           (Some a', Some b') \<Rightarrow> branch_meet n db a' b' (xs @ [a]) (ys @ [b])
         | _ \<Rightarrow> Some (Inl Undefined_behaviour))
      else Some (Inr (xs @ [a], ys @ [b])))"

definition fetch_branch_from :: "nat \<Rightarrow> digest \<Rightarrow> digest \<Rightarrow> ('k, 's) fork_db
    \<Rightarrow> (('k, 's) block_state list \<times> ('k, 's) block_state list) res option" where
  "fetch_branch_from fuel first second db =
     (case (get_block first db, get_block second db) of
        (Some a, Some b) \<Rightarrow>
          (case branch_down fuel db (block_num b) a [] of
             Some (Inr (a, xs)) \<Rightarrow>
               (case branch_down fuel db (block_num a) b [] of
                  Some (Inr (b, ys)) \<Rightarrow> branch_meet fuel db a b xs ys
                | Some (Inl e) \<Rightarrow> Some (Inl e) | None \<Rightarrow> None)
           | Some (Inl e) \<Rightarrow> Some (Inl e) | None \<Rightarrow> None)
      | _ \<Rightarrow> Some (Inl Undefined_behaviour))"

section \<open>BFT irreversibility\<close>

definition raise_bft :: "32 word \<Rightarrow> ('k, 's) block_state \<Rightarrow> ('k, 's) block_state" where
  "raise_bft num b = b\<lparr>bft_irreversible_blocknum := num\<rparr>"

text \<open>The body of the \<open>update\<close> lambda for one parent id, and the lambda: one layer of the search.\<close>

definition bft_children :: "32 word \<Rightarrow> digest \<Rightarrow> ('k, 's) block_state list \<times> digest list
    \<Rightarrow> ('k, 's) block_state list \<times> digest list" where
  "bft_children num i = (\<lambda>(ix, updated).
     (map (\<lambda>b. if previous (header b) = i \<and> bft_irreversible_blocknum b < num then raise_bft num b else b) ix,
      updated @ map bid (filter (\<lambda>b. bft_irreversible_blocknum b < num) (children i ix))))"

definition bft_layer :: "32 word \<Rightarrow> digest list \<Rightarrow> ('k, 's) block_state list \<Rightarrow> ('k, 's) block_state list \<times> digest list" where
  "bft_layer num ids ix = fold (bft_children num) ids (ix, [])"

definition below :: "32 word \<Rightarrow> ('k, 's) block_state list \<Rightarrow> nat" where
  "below num ix = length (filter (\<lambda>b. bft_irreversible_blocknum b < num) ix)"

lemma below_bft_children:
  "below num (fst (bft_children num i (ix, u))) + length (snd (bft_children num i (ix, u)))
     = below num ix + length u"
  by (induction ix) (auto simp: bft_children_def below_def children_def raise_bft_def)

lemma below_bft_fold:
  "below num (fst (fold (bft_children num) ids st)) + length (snd (fold (bft_children num) ids st))
     = below num (fst st) + length (snd st)"
proof (induction ids arbitrary: st)
  case (Cons i ids)
  then show ?case using below_bft_children [of num i "fst st" "snd st"] by simp
qed simp

lemma below_bft_layer: "below num (fst (bft_layer num ids ix)) + length (snd (bft_layer num ids ix)) = below num ix"
  unfolding bft_layer_def using below_bft_fold [of num ids "(ix, [])"] by simp

lemma bft_layer_measure:
  "(ix', q') = bft_layer num q ix \<Longrightarrow>
   (q' \<noteq> [] \<longrightarrow> below num ix' < below num ix) \<and> below num ix' \<le> below num ix"
  using below_bft_layer [of num q ix] by (cases "bft_layer num q ix"; cases q') auto

function (sequential) bft_loop :: "32 word \<Rightarrow> digest list \<Rightarrow> ('k, 's) block_state list \<Rightarrow> ('k, 's) block_state list" where
  "bft_loop num [] ix = ix"
| "bft_loop num (i # queue) ix =
     (case bft_layer num (i # queue) ix of (ix', queue') \<Rightarrow> bft_loop num queue' ix')"
  by pat_completeness auto
termination
  by (relation "measure (\<lambda>(num, q, ix). 2 * below num ix + (if q = [] then 0 else 1))")
    (auto dest: bft_layer_measure)

definition set_bft_irreversible :: "digest \<Rightarrow> ('k, 's) fork_db \<Rightarrow> ('k, 's) fork_db res" where
  "set_bft_irreversible i db =
     (case get_block i db of
        None \<Rightarrow> Inl Undefined_behaviour
      | Some s \<Rightarrow>
          let db = modify_block i (\<lambda>b. b\<lparr>bft_irreversible_blocknum := block_num b\<rparr>) db;
              ix = bft_loop (block_num s) [i] (index db) in
          Inr (db\<lparr>index := ix,
                  head := map_option (\<lambda>h. case find (\<lambda>b. bid b = bid h) ix of Some b \<Rightarrow> b | None \<Rightarrow> h) (head db)\<rparr>))"

text \<open>\<open>add_confirmation\<close> on the header part of a block state.\<close>

definition block_add_confirmation :: "('k, 's) crypto \<Rightarrow> 's header_confirmation \<Rightarrow> ('k, 's) block_state
    \<Rightarrow> ('k, 's) block_state res" where
  "block_add_confirmation cr c b =
     bind_res (add_confirmation cr c (block_header_state.truncate b)) (\<lambda>s.
     Inr (b\<lparr>confirmations := confirmations s\<rparr>))"

definition fork_add_confirmation :: "('k, 's) crypto \<Rightarrow> 's header_confirmation \<Rightarrow> ('k, 's) fork_db
    \<Rightarrow> ('k, 's) fork_db res" where
  "fork_add_confirmation cr c db =
     (case get_block (conf_block_id c) db of
        None \<Rightarrow> Inl Fork_db_block_not_found
      | Some b \<Rightarrow>
          bind_res (block_add_confirmation cr c b) (\<lambda>b'.
          let db = modify_block (conf_block_id c) (\<lambda>x. x\<lparr>confirmations := confirmations b'\<rparr>) db in
          if bft_irreversible_blocknum b' < block_num b'
             \<and> length (confirmations b') \<ge> length (producers (active_schedule b')) * 2 div 3 + 1
          then set_bft_irreversible (conf_block_id c) db
          else Inr db))"

section \<open>Saving and loading\<close>

text \<open>
  What \<open>close\<close> writes, with \<open>ord\<close> the iteration order of the hashed index, and what the constructor rebuilds
  from it. Packing to bytes is the \<open>fc\<close> library's.
\<close>

definition fork_dump :: "(('k, 's) block_state list \<Rightarrow> ('k, 's) block_state list) \<Rightarrow> ('k, 's) fork_db
    \<Rightarrow> ('k, 's) block_state list \<times> digest" where
  "fork_dump ord db =
     (ord (index db), (case head db of Some h \<Rightarrow> bid h | None \<Rightarrow> null_digest))"

fun fork_set_all :: "('k, 's) crypto \<Rightarrow> ('k, 's) block_state list \<Rightarrow> ('k, 's) fork_db \<Rightarrow> ('k, 's) fork_db res" where
  "fork_set_all cr [] db = Inr db"
| "fork_set_all cr (s # ss) db =
     (case fork_set cr s db of (Inl e, _) \<Rightarrow> Inl e | (Inr _, db) \<Rightarrow> fork_set_all cr ss db)"

definition empty_fork_db :: "('k, 's) fork_db" where
  "empty_fork_db = \<lparr>index = [], head = None, irreversible_log = []\<rparr>"

definition fork_load :: "('k, 's) crypto \<Rightarrow> ('k, 's) block_state list \<times> digest \<Rightarrow> ('k, 's) fork_db res" where
  "fork_load cr = (\<lambda>(content, head_id).
     bind_res (fork_set_all cr content empty_fork_db) (\<lambda>db. Inr (db\<lparr>head := get_block head_id db\<rparr>)))"

section \<open>Removing\<close>

text \<open>The blocks that stand on one of the given ids: those blocks, and the blocks that link to one.\<close>

inductive built_on :: "digest set \<Rightarrow> ('k, 's) block_state list \<Rightarrow> ('k, 's) block_state \<Rightarrow> bool" for Q ix where
  self: "b \<in> set ix \<Longrightarrow> bid b \<in> Q \<Longrightarrow> built_on Q ix b"
| link: "b \<in> set ix \<Longrightarrow> previous (header b) \<in> Q \<Longrightarrow> built_on Q ix b"
| up: "built_on Q ix p \<Longrightarrow> b \<in> set ix \<Longrightarrow> previous (header b) = bid p \<Longrightarrow> built_on Q ix b"

lemma built_on_in: "built_on Q ix b \<Longrightarrow> b \<in> set ix"
  by (induction rule: built_on.induct)

lemma set_children: "set (children i ix) = {b \<in> set ix. previous (header b) = i}"
  by (auto simp: children_def)

lemma set_index_erase: "set (index_erase i ix) = {b \<in> set ix. bid b \<noteq> i}"
  by (auto simp: index_erase_def)

lemma distinct_index_erase: "distinct (map bid ix) \<Longrightarrow> distinct (map bid (index_erase i ix))"
  by (simp add: index_erase_def distinct_map inj_on_def)

lemma distinct_bid_eq: "distinct (map bid ix) \<Longrightarrow> a \<in> set ix \<Longrightarrow> b \<in> set ix \<Longrightarrow> bid a = bid b \<Longrightarrow> a = b"
  by (simp add: distinct_map inj_on_def)

lemma built_on_step:
  assumes d: "distinct (map bid ix)" and ix'_def: "ix' = index_erase i ix"
  shows "built_on (insert i Q) ix b \<longleftrightarrow>
    b \<in> set ix \<and> bid b = i \<or> built_on (Q \<union> bid ` set (children i ix')) ix' b" (is "?l b \<longleftrightarrow> _ \<or> ?r b")
proof
  assume "?l b"
  then show "b \<in> set ix \<and> bid b = i \<or> ?r b"
  proof (induction rule: built_on.induct)
    case (self b)
    then show ?case by (auto simp: ix'_def set_index_erase intro: built_on.self)
  next
    case (link b)
    then show ?case
      by (cases "bid b = i") (auto simp: ix'_def set_index_erase set_children intro: built_on.self built_on.link)
  next
    case (up p b)
    then show ?case
      by (cases "bid b = i")
        (auto simp: ix'_def set_index_erase set_children intro: built_on.self built_on.up)
  qed
next
  assume "b \<in> set ix \<and> bid b = i \<or> ?r b"
  moreover have "?l b" if "?r b"
    using that
  proof (induction rule: built_on.induct)
    case (self b)
    then have "b \<in> set ix" by (simp add: ix'_def set_index_erase)
    from self consider "bid b \<in> Q" | c where "c \<in> set ix" "previous (header c) = i" "bid b = bid c"
      by (auto simp: ix'_def set_index_erase set_children)
    then show ?case
    proof cases
      case 2
      with \<open>b \<in> set ix\<close> d have "b = c" using distinct_bid_eq by blast
      with 2 show ?thesis by (auto intro: built_on.link)
    qed (use \<open>b \<in> set ix\<close> in \<open>auto intro: built_on.self\<close>)
  next
    case (link b)
    then have "b \<in> set ix" by (simp add: ix'_def set_index_erase)
    from link consider "previous (header b) \<in> Q"
      | c where "c \<in> set ix" "previous (header c) = i" "previous (header b) = bid c"
      by (auto simp: ix'_def set_index_erase set_children)
    then show ?case
    proof cases
      case 2
      then have "?l c" by (auto intro: built_on.link)
      with 2 \<open>b \<in> set ix\<close> show ?thesis by (blast intro: built_on.up)
    qed (use \<open>b \<in> set ix\<close> in \<open>auto intro: built_on.link\<close>)
  next
    case (up p b)
    then show ?case by (auto simp: ix'_def set_index_erase intro: built_on.up)
  qed
  ultimately show "?l b" by (auto intro: built_on.self)
qed

lemma built_on_empty: "\<not> built_on {} ix b"
proof
  assume "built_on {} ix b"
  then show False by (induction rule: built_on.induct) auto
qed

lemma remove_loop_exact:
  "distinct (map bid ix) \<Longrightarrow> remove_loop q ix = filter (\<lambda>b. \<not> built_on (set q) ix b) ix"
proof (induction q ix rule: remove_loop.induct)
  case (1 ix)
  then show ?case by (simp add: built_on_empty)
next
  case (2 i queue ix)
  let ?ix = "index_erase i ix"
  have "remove_loop (i # queue) ix =
      filter (\<lambda>b. \<not> built_on (set queue \<union> bid ` set (children i ?ix)) ?ix b) ?ix"
    using "2.IH" [OF refl] distinct_index_erase [OF "2.prems"] by (simp add: Let_def)
  also have "\<dots> = filter (\<lambda>b. \<not> built_on (insert i (set queue)) ix b) ix"
    unfolding index_erase_def [of i ix] filter_filter
    by (rule filter_cong [OF refl])
      (use built_on_step [OF "2.prems" refl, of i "set queue"] in \<open>auto simp: index_erase_def\<close>)
  finally show ?case by simp
qed

lemma remove_loop_filter: "\<exists>P. remove_loop q ix = filter P ix"
proof (induction q ix rule: remove_loop.induct)
  case (1 ix)
  then show ?case by (auto intro: exI [of _ "\<lambda>_. True"])
next
  case (2 i queue ix)
  then obtain P where "remove_loop (i # queue) ix = filter P (index_erase i ix)" by (auto simp: Let_def)
  then show ?case by (auto simp: index_erase_def)
qed

lemma remove_loop_gone: "i \<in> set q \<Longrightarrow> i \<notin> bid ` set (remove_loop q ix)"
proof (induction q ix rule: remove_loop.induct)
  case (2 j queue ix)
  obtain P where P: "remove_loop (j # queue) ix = filter P (index_erase j ix)"
    using remove_loop_filter by (auto simp: Let_def)
  show ?case
  proof (cases "i = j")
    case True
    then show ?thesis unfolding P by (auto simp: set_index_erase)
  next
    case False
    with "2.IH" [OF refl] "2.prems" show ?thesis by (simp add: Let_def)
  qed
qed simp

section \<open>Orders and the best block\<close>

definition head_best :: "('k, 's) fork_db \<Rightarrow> bool" where
  "head_best db \<longleftrightarrow>
     (\<exists>h. head db = Some h \<and> (h \<in> set (index db) \<longrightarrow> (\<forall>b \<in> set (index db). lib_ge h b)))"

definition ids_distinct :: "('k, 's) fork_db \<Rightarrow> bool" where
  "ids_distinct db \<longleftrightarrow> distinct (map bid (index db))"

lemma get_block_None: "get_block i db = None \<longleftrightarrow> i \<notin> bid ` set (index db)"
  by (auto simp: get_block_def find_None_iff)

lemma get_block_SomeD: "get_block i db = Some b \<Longrightarrow> b \<in> set (index db) \<and> bid b = i"
  by (auto simp: get_block_def find_Some_iff)

lemma get_block_in: "ids_distinct db \<Longrightarrow> b \<in> set (index db) \<Longrightarrow> get_block (bid b) db = Some b"
proof -
  assume d: "ids_distinct db" and b: "b \<in> set (index db)"
  then have "get_block (bid b) db \<noteq> None" by (simp add: get_block_None)
  then obtain c where c: "get_block (bid b) db = Some c" by auto
  with d b show ?thesis using get_block_SomeD [OF c] distinct_bid_eq unfolding ids_distinct_def by metis
qed

lemma by_block_num_set: "orders_ok mi \<Longrightarrow> set (by_block_num mi xs) = set xs"
  unfolding orders_ok_def using mset_eq_setD by blast

lemma by_block_num_least:
  assumes "orders_ok mi" "by_block_num mi xs = b # r" "c \<in> set xs"
  shows "block_num b \<le> block_num c"
proof -
  have "sorted_wrt num_le (b # r)" "c \<in> set (b # r)"
    using assms by_block_num_set [OF assms(1), of xs] unfolding orders_ok_def by metis+
  then show ?thesis by (auto simp: num_le_def)
qed

lemma best_Inr:
  assumes "orders_ok mi" "best mi db = Inr h"
  shows "h \<in> set (index db) \<and> (\<forall>b \<in> set (index db). lib_ge h b)"
proof -
  obtain r where r: "by_lib_block_num mi (index db) = h # r"
    using assms(2) by (auto simp: best_def split: list.splits)
  then have "sorted_wrt lib_ge (h # r)" "set (h # r) = set (index db)"
    using assms(1) unfolding orders_ok_def using mset_eq_setD by metis+
  then show ?thesis by (auto simp: lib_ge_def)
qed

text \<open>What every step of pruning keeps: nothing is added, ids stay distinct and the head stays best.\<close>

definition shrinks :: "('k, 's) fork_db \<Rightarrow> ('k, 's) fork_db \<Rightarrow> bool" where
  "shrinks db db' \<longleftrightarrow> (\<exists>P. index db' = filter P (index db)) \<and> (head_best db \<longrightarrow> head_best db')"

lemma shrinks_refl [simp]: "shrinks db db"
  unfolding shrinks_def by (auto intro: exI [of _ "\<lambda>_. True"])

lemma shrinks_trans: "shrinks a b \<Longrightarrow> shrinks b c \<Longrightarrow> shrinks a c"
  unfolding shrinks_def by (auto simp: filter_filter)

lemma shrinks_length: "shrinks a b \<Longrightarrow> length (index b) \<le> length (index a)"
  unfolding shrinks_def by auto

lemma shrinks_set: "shrinks a b \<Longrightarrow> set (index b) \<subseteq> set (index a)"
  unfolding shrinks_def by auto

lemma shrinks_distinct: "shrinks a b \<Longrightarrow> ids_distinct a \<Longrightarrow> ids_distinct b"
  unfolding shrinks_def ids_distinct_def by (auto simp: distinct_map inj_on_def)

lemma shrinks_erase:
  "index db' = filter P (index db) \<Longrightarrow> head db' = head db \<Longrightarrow> shrinks db db'"
  unfolding shrinks_def head_best_def by auto

lemma fork_remove_shrinks:
  assumes "orders_ok mi" "fork_remove mi i db = Inr db'"
  shows "shrinks db db'" and "head_best db'" and "i \<notin> bid ` set (index db')"
proof -
  obtain b where b: "best mi (db\<lparr>index := remove_loop [i] (index db)\<rparr>) = Inr b"
    and db': "db' = db\<lparr>index := remove_loop [i] (index db), head := Some b\<rparr>"
    using assms(2) by (auto simp: fork_remove_def res_simps Let_def simp del: remove_loop.simps)
  show "head_best db'" using best_Inr [OF assms(1) b] by (simp add: head_best_def db' del: remove_loop.simps)
  then show "shrinks db db'" using remove_loop_filter [of "[i]" "index db"] by (auto simp: shrinks_def db' simp del: remove_loop.simps)
  show "i \<notin> bid ` set (index db')" using remove_loop_gone [of i "[i]" "index db"] by (simp add: db' del: remove_loop.simps)
qed

lemma remove_all_shrinks:
  assumes "orders_ok mi" "remove_all mi bs db = Inr db'"
  shows "shrinks db db' \<and> (\<forall>b \<in> set bs. bid b \<notin> bid ` set (index db'))"
  using assms(2)
proof (induction bs arbitrary: db)
  case (Cons b bs)
  then obtain db1 where 1: "fork_remove mi (bid b) db = Inr db1" "remove_all mi bs db1 = Inr db'"
    by (auto simp: res_simps split: if_splits)
  from Cons.IH [OF 1(2)] fork_remove_shrinks [OF assms(1) 1(1)] show ?case
    using shrinks_trans shrinks_set by auto blast
qed simp

lemma prune_block_shrinks:
  assumes o: "orders_ok mi" and p: "prune_block mi h db = Inr db'"
  shows "shrinks db db'" and "h \<in> set (index db) \<Longrightarrow> length (index db') < length (index db)"
    and "\<forall>b \<in> set (index db'). block_num b \<noteq> block_num h"
proof -
  define db1 where "db1 = (if get_block (bid h) db \<noteq> None
                then db\<lparr>index := index_erase (bid h) (index db),
                        irreversible_log := irreversible_log db @ [bid h]\<rparr>
                else db)"
  have r: "remove_all mi (filter (\<lambda>b. block_num b = block_num h) (by_block_num mi (index db1))) db1 = Inr db'"
    using p unfolding prune_block_def Let_def db1_def .
  have 1: "shrinks db db1" unfolding db1_def by (auto simp: index_erase_def intro!: shrinks_erase)
  note ra = remove_all_shrinks [OF o r]
  show "shrinks db db'" using shrinks_trans [OF 1] ra by blast
  show "length (index db') < length (index db)" if "h \<in> set (index db)"
  proof -
    have "get_block (bid h) db \<noteq> None" using that by (auto simp: get_block_None)
    then have "length (index db1) < length (index db)"
      using that unfolding db1_def index_erase_def by (auto intro: length_filter_less)
    with shrinks_length [of db1 db'] ra show ?thesis by simp
  qed
  show "\<forall>b \<in> set (index db'). block_num b \<noteq> block_num h"
  proof (intro ballI notI)
    fix b assume b: "b \<in> set (index db')" "block_num b = block_num h"
    then have "b \<in> set (index db1)" using ra shrinks_set by blast
    then have "bid b \<notin> bid ` set (index db')" using ra b(2) by_block_num_set [OF o] by auto
    with b(1) show False by blast
  qed
qed

text \<open>The fuel suffices, and the loop removes every lower block.\<close>

lemma prune_lower_total:
  assumes o: "orders_ok mi"
  shows "length (index db) + 2 \<le> n \<Longrightarrow>
    \<exists>r. prune_lower mi n num db = Some r \<and>
      (\<forall>db'. r = Inr db' \<longrightarrow> shrinks db db' \<and> (\<forall>b \<in> set (index db'). num \<le> block_num b))"
proof (induction n arbitrary: db)
  case (Suc n)
  show ?case
  proof (cases "by_block_num mi (index db)")
    case Nil
    then have "set (index db) = {}" using by_block_num_set [OF o, of "index db"] by simp
    with Nil show ?thesis by simp
  next
    case (Cons b r)
    have least: "\<forall>c \<in> set (index db). block_num b \<le> block_num c"
      using by_block_num_least [OF o Cons] by blast
    have b: "b \<in> set (index db)" using by_block_num_set [OF o, of "index db"] Cons by auto
    show ?thesis
    proof (cases "block_num b < num")
      case False
      with Cons least show ?thesis by auto
    next
      case True
      from b have "1 \<le> length (index db)" by (cases "index db") auto
      with Suc.prems obtain m where n: "n = Suc (Suc m)" by (cases n; cases "n - 1") auto
      have pr: "prune mi n b db = Some (prune_block mi b db)" using Cons by (simp add: n)
      show ?thesis
      proof (cases "prune_block mi b db")
        case (Inl e)
        with pr Cons True show ?thesis by simp
      next
        case (Inr db1)
        note sh = prune_block_shrinks [OF o Inr]
        have "length (index db1) + 2 \<le> n" using sh(2) [OF b] Suc.prems by simp
        from Suc.IH [OF this] obtain r' where "prune_lower mi n num db1 = Some r'"
          "\<forall>db'. r' = Inr db' \<longrightarrow> shrinks db1 db' \<and> (\<forall>b \<in> set (index db'). num \<le> block_num b)" by blast
        then show ?thesis using Inr Cons True pr shrinks_trans [OF sh(1)] by auto
      qed
    qed
  qed
qed simp

lemma prune_total:
  assumes o: "orders_ok mi" and n: "length (index db) + 3 \<le> n"
  shows "\<exists>r. prune mi n h db = Some r \<and>
      (\<forall>db'. r = Inr db' \<longrightarrow> shrinks db db' \<and> (\<forall>b \<in> set (index db'). block_num h < block_num b))"
proof -
  obtain m where m: "n = Suc m" "length (index db) + 2 \<le> m" using n by (cases n) auto
  from prune_lower_total [OF o m(2), of "block_num h"] obtain r where
    r: "prune_lower mi m (block_num h) db = Some r"
    "\<forall>db'. r = Inr db' \<longrightarrow> shrinks db db' \<and> (\<forall>b \<in> set (index db'). block_num h \<le> block_num b)" by blast
  show ?thesis
  proof (cases r)
    case (Inl e)
    with r show ?thesis by (simp add: m)
  next
    case (Inr db1)
    have "shrinks db db' \<and> (\<forall>b \<in> set (index db'). block_num h < block_num b)"
      if "prune_block mi h db1 = Inr db'" for db'
    proof -
      note sh = prune_block_shrinks [OF o that]
      have "shrinks db db1" "\<forall>b \<in> set (index db1). block_num h \<le> block_num b" using r(2) Inr by auto
      with sh(1,3) shrinks_set [OF sh(1)] shrinks_trans show ?thesis by (metis in_mono order_less_le)
    qed
    with r Inr show ?thesis by (simp add: m)
  qed
qed

lemma prune_oldest_total:
  assumes o: "orders_ok mi"
  shows "\<exists>r. prune_oldest mi n lib db = Some r \<and> (\<forall>db'. r = Inr db' \<longrightarrow> shrinks db db')"
proof (induction n arbitrary: db)
  case (Suc n)
  show ?case
  proof (cases "by_block_num mi (index db)")
    case (Cons b r)
    from prune_total [OF o, of db "prune_fuel db" b] obtain r' where
      r': "prune mi (prune_fuel db) b db = Some r'" "\<forall>db'. r' = Inr db' \<longrightarrow> shrinks db db'"
      by (auto simp: prune_fuel_def)
    show ?thesis
    proof (cases "block_num b < lib")
      case True
      show ?thesis
      proof (cases r')
        case (Inl e)
        with True Cons r'(1) show ?thesis by simp
      next
        case (Inr db1)
        obtain r2 where "prune_oldest mi n lib db1 = Some r2" "\<forall>db'. r2 = Inr db' \<longrightarrow> shrinks db1 db'"
          using Suc.IH by blast
        moreover have "shrinks db db1" using r'(2) Inr by blast
        ultimately show ?thesis using True Cons r'(1) Inr by (auto intro: shrinks_trans)
      qed
    qed (use Cons in simp)
  qed simp
qed simp

section \<open>BFT irreversibility\<close>

definition bft_mono :: "('k, 's) block_state list \<Rightarrow> bool" where
  "bft_mono ix \<longleftrightarrow>
     (\<forall>p \<in> set ix. \<forall>b \<in> set ix. previous (header b) = bid p \<longrightarrow>
        bft_irreversible_blocknum p \<le> bft_irreversible_blocknum b)"

text \<open>
  During the search only the links out of pending blocks may be out of order, and pending blocks have the new
  number.
\<close>

definition bft_pending :: "32 word \<Rightarrow> digest set \<Rightarrow> ('k, 's) block_state list \<Rightarrow> bool" where
  "bft_pending num S ix \<longleftrightarrow> distinct (map bid ix)
   \<and> (\<forall>p \<in> set ix. \<forall>b \<in> set ix. previous (header b) = bid p \<longrightarrow> bid p \<notin> S \<longrightarrow>
        bft_irreversible_blocknum p \<le> bft_irreversible_blocknum b)
   \<and> (\<forall>p \<in> set ix. bid p \<in> S \<longrightarrow> bft_irreversible_blocknum p = num)"

definition bft_raised :: "('k, 's) block_state \<Rightarrow> ('k, 's) block_state \<Rightarrow> bool" where
  "bft_raised b b' \<longleftrightarrow> (\<exists>n. b' = b\<lparr>bft_irreversible_blocknum := n\<rparr> \<and> bft_irreversible_blocknum b \<le> n)"

lemma bft_raised_refl [simp]: "bft_raised b b"
  unfolding bft_raised_def by (rule exI [of _ "bft_irreversible_blocknum b"]) simp

lemma bft_raised_upd: "bft_irreversible_blocknum b \<le> n \<Longrightarrow> bft_raised b (b\<lparr>bft_irreversible_blocknum := n\<rparr>)"
  unfolding bft_raised_def by auto

lemma bft_raised_trans: "bft_raised a b \<Longrightarrow> bft_raised b c \<Longrightarrow> bft_raised a c"
  unfolding bft_raised_def by auto

lemma bft_raised_sel:
  "bft_raised b b' \<Longrightarrow> bid b' = bid b \<and> header b' = header b \<and> block_num b' = block_num b
     \<and> bft_irreversible_blocknum b \<le> bft_irreversible_blocknum b'"
  unfolding bft_raised_def by auto

lemma list_all2_raised_trans:
  "list_all2 bft_raised xs ys \<Longrightarrow> list_all2 bft_raised ys zs \<Longrightarrow> list_all2 bft_raised xs zs"
  using list_all2_trans bft_raised_trans by blast

lemma list_all2_raised_refl [simp]: "list_all2 bft_raised xs xs"
  by (simp add: list_all2_refl)

lemma list_all2_raised_map: "(\<And>b. bft_raised b (f b)) \<Longrightarrow> list_all2 bft_raised xs (map f xs)"
  by (simp add: list_all2_conv_all_nth)

lemma bft_children_step:
  fixes ix ix' :: "('k, 's) block_state list"
  assumes K: "bft_pending num (insert i S \<union> set u) ix"
    and st: "bft_children num i (ix, u) = (ix', u')"
  shows "bft_pending num (S \<union> set u') ix'" and "list_all2 bft_raised ix ix'"
proof -
  define g :: "('k, 's) block_state \<Rightarrow> ('k, 's) block_state" where
    "g = (\<lambda>b. if previous (header b) = i \<and> bft_irreversible_blocknum b < num then raise_bft num b else b)"
  have ix': "ix' = map g ix" and u': "u' = u @ map bid (filter (\<lambda>b. bft_irreversible_blocknum b < num) (children i ix))"
    using st by (auto simp: bft_children_def g_def)
  have gsel: "bid (g b) = bid b" "header (g b) = header b"
    "bft_irreversible_blocknum (g b) = (if previous (header b) = i \<and> bft_irreversible_blocknum b < num
      then num else bft_irreversible_blocknum b)" for b
    by (simp_all add: g_def raise_bft_def)
  show "list_all2 bft_raised ix ix'"
    unfolding ix' by (rule list_all2_raised_map) (simp add: g_def raise_bft_def bft_raised_upd less_imp_le)
  have d: "distinct (map bid ix)" using K by (simp add: bft_pending_def)
  have upd: "bid b \<in> set u'" if "b \<in> set ix" "previous (header b) = i" "bft_irreversible_blocknum b < num" for b
    using that by (auto simp: u' children_def)
  have new: "bft_irreversible_blocknum (g p) = num" if p: "p \<in> set ix" and "bid p \<in> S \<union> set u'" for p
  proof (cases "bid p \<in> S \<union> set u")
    case True
    then have "bft_irreversible_blocknum p = num" using K p by (auto simp: bft_pending_def)
    then show ?thesis by (simp add: gsel)
  next
    case False
    with that obtain b where "b \<in> set ix" "previous (header b) = i" "bft_irreversible_blocknum b < num" "bid b = bid p"
      by (auto simp: u' children_def)
    with p d have "b = p" using distinct_bid_eq by blast
    with \<open>previous (header b) = i\<close> \<open>bft_irreversible_blocknum b < num\<close> show ?thesis by (simp add: gsel)
  qed
  have edge: "bft_irreversible_blocknum (g p) \<le> bft_irreversible_blocknum (g b)"
    if "p \<in> set ix" "b \<in> set ix" "previous (header b) = bid p" "bid p \<notin> S \<union> set u'" for p b
  proof (cases "bid p = i")
    case True
    then have "bft_irreversible_blocknum p = num" using K that(1) by (simp add: bft_pending_def)
    with True that(3) show ?thesis by (simp add: gsel not_less)
  next
    case False
    have "bid p \<notin> insert i S \<union> set u" using that(4) False u' by auto
    then have "bft_irreversible_blocknum p \<le> bft_irreversible_blocknum b"
      using K that by (simp add: bft_pending_def)
    moreover have "\<not> (previous (header p) = i \<and> bft_irreversible_blocknum p < num)"
      using upd that(1,4) by blast
    ultimately show ?thesis by (auto simp: gsel)
  qed
  show "bft_pending num (S \<union> set u') ix'"
    using d new edge unfolding bft_pending_def ix' by (auto simp: gsel comp_def)
qed

lemma bft_layer_step:
  "bft_pending num (set ids \<union> set u) ix \<Longrightarrow> fold (bft_children num) ids (ix, u) = (ix', u') \<Longrightarrow>
   bft_pending num (set u') ix' \<and> list_all2 bft_raised ix ix'"
proof (induction ids arbitrary: ix u)
  case (Cons i ids)
  obtain ix1 u1 where 1: "bft_children num i (ix, u) = (ix1, u1)" by (metis surj_pair)
  have "bft_pending num (insert i (set ids) \<union> set u) ix" using Cons.prems(1) by simp
  note st = bft_children_step [OF this 1]
  from Cons.IH [OF st(1)] Cons.prems(2) 1 have "bft_pending num (set u') ix' \<and> list_all2 bft_raised ix1 ix'"
    by simp
  with st(2) show ?case using list_all2_raised_trans by blast
qed simp

lemma bft_loop_settles:
  "bft_pending num (set q) ix \<Longrightarrow>
   bft_pending num {} (bft_loop num q ix) \<and> list_all2 bft_raised ix (bft_loop num q ix)"
proof (induction num q ix rule: bft_loop.induct)
  case (2 num i queue ix)
  obtain ix' q' where l: "bft_layer num (i # queue) ix = (ix', q')" by (metis surj_pair)
  then have "bft_pending num (set q') ix' \<and> list_all2 bft_raised ix ix'"
    using bft_layer_step [of num "i # queue" "[]" ix ix' q'] "2.prems" by (simp add: bft_layer_def)
  with "2.IH" [OF l [symmetric]] show ?case
    using list_all2_raised_trans by (auto simp: l)
qed simp

lemma find_raised:
  "list_all2 bft_raised xs ys \<Longrightarrow> b' \<in> set ys \<Longrightarrow> \<exists>b \<in> set xs. bft_raised b b'"
  by (induction rule: list_all2_induct) auto

lemma raised_bids: "list_all2 bft_raised xs ys \<Longrightarrow> map bid ys = map bid xs"
  by (induction rule: list_all2_induct) (auto dest: bft_raised_sel)

lemma built_on_bft:
  assumes m: "bft_mono ix" and s: "\<And>b. b \<in> set ix \<Longrightarrow> bid b = i \<Longrightarrow> num \<le> bft_irreversible_blocknum b"
    and i: "i \<in> bid ` set ix"
  shows "built_on {i} ix b \<Longrightarrow> num \<le> bft_irreversible_blocknum b"
proof (induction rule: built_on.induct)
  case (self b)
  then show ?case using s by simp
next
  case (link b)
  from i obtain p where "p \<in> set ix" "bid p = i" by auto
  moreover from this link have "bft_irreversible_blocknum p \<le> bft_irreversible_blocknum b"
    using m unfolding bft_mono_def by simp
  ultimately show ?case using s order_trans by blast
next
  case (up p b)
  then have "bft_irreversible_blocknum p \<le> bft_irreversible_blocknum b"
    using m built_on_in [OF up.hyps(1)] unfolding bft_mono_def by simp
  with up.IH show ?case by (rule order_trans)
qed

lemma set_bft_irreversible_result:
  fixes db db' :: "('k, 's) fork_db"
  assumes d: "ids_distinct db" and m: "bft_mono (index db)" and s: "get_block i db = Some s"
    and lt: "bft_irreversible_blocknum s < block_num s" and r: "set_bft_irreversible i db = Inr db'"
  shows "bft_mono (index db')" and "list_all2 bft_raised (index db) (index db')"
    and "built_on {i} (index db') b \<Longrightarrow> block_num s \<le> bft_irreversible_blocknum b"
proof -
  define g :: "('k, 's) block_state \<Rightarrow> ('k, 's) block_state" where
    "g = (\<lambda>b. if bid b = i then b\<lparr>bft_irreversible_blocknum := block_num b\<rparr> else b)"
  let ?ix = "map g (index db)"
  have ix': "index db' = bft_loop (block_num s) [i] ?ix"
    using r s by (auto simp: set_bft_irreversible_def modify_block_def g_def Let_def)
  have sin: "s \<in> set (index db)" "bid s = i" using get_block_SomeD [OF s] by auto
  have only: "b = s" if "b \<in> set (index db)" "bid b = i" for b
    using that sin d distinct_bid_eq unfolding ids_distinct_def by metis
  have gsel: "bid (g b) = bid b" "header (g b) = header b" for b by (simp_all add: g_def)
  have le: "bft_irreversible_blocknum b \<le> bft_irreversible_blocknum (g b)" if "b \<in> set (index db)" for b
    using only [OF that] lt by (auto simp: g_def)
  have r1: "list_all2 bft_raised (index db) ?ix"
  proof (unfold list_all2_conv_all_nth, intro conjI allI impI)
    fix j assume "j < length (index db)"
    then have "index db ! j \<in> set (index db)" by simp
    from only [OF this] lt have "bft_raised (index db ! j) (g (index db ! j))"
      by (auto simp: g_def intro!: bft_raised_upd less_imp_le)
    with \<open>j < _\<close> show "bft_raised (index db ! j) (?ix ! j)" by simp
  qed simp
  have pend: "bft_pending (block_num s) (set [i]) ?ix"
  proof -
    have "bft_irreversible_blocknum (g p) \<le> bft_irreversible_blocknum (g b)"
      if "p \<in> set (index db)" "b \<in> set (index db)" "previous (header b) = bid p" "bid p \<noteq> i" for p b
    proof -
      have "bft_irreversible_blocknum (g p) = bft_irreversible_blocknum p" using that(4) by (simp add: g_def)
      also have "\<dots> \<le> bft_irreversible_blocknum b" using m that unfolding bft_mono_def by blast
      finally show ?thesis using le [OF that(2)] by (rule order_trans)
    qed
    then show ?thesis
      using d only by (auto simp: bft_pending_def gsel comp_def ids_distinct_def) (auto simp: g_def)
  qed
  have st: "bft_pending (block_num s) {} (index db')" "list_all2 bft_raised ?ix (index db')"
    using bft_loop_settles [OF pend] unfolding ix' by simp_all
  show raised: "list_all2 bft_raised (index db) (index db')"
    by (rule list_all2_raised_trans [OF r1 st(2)])
  show mono: "bft_mono (index db')"
    using st(1) unfolding bft_mono_def bft_pending_def by simp
  have "block_num s \<le> bft_irreversible_blocknum b" if "b \<in> set (index db')" "bid b = i" for b
  proof -
    from find_raised [OF st(2) that(1)] obtain b0 where b0: "b0 \<in> set ?ix" "bft_raised b0 b" by blast
    then have "bid b0 = i" using that(2) bft_raised_sel [OF b0(2)] by simp
    with b0(1) only have "b0 = g s" by (auto simp: gsel)
    then show ?thesis using bft_raised_sel [OF b0(2)] sin(2) by (simp add: g_def)
  qed
  moreover have "i \<in> bid ` set (index db')"
  proof -
    from raised_bids [OF raised] have "set (map bid (index db')) = set (map bid (index db))" by simp
    with sin show ?thesis by auto
  qed
  ultimately show "built_on {i} (index db') b \<Longrightarrow> block_num s \<le> bft_irreversible_blocknum b"
    by (rule built_on_bft [OF mono])
qed

section \<open>Branches\<close>

text \<open>
  A fork tree: one root, every other block linked to a block of the database whose number is one less.
\<close>

definition fork_tree :: "('k, 's) fork_db \<Rightarrow> bool" where
  "fork_tree db \<longleftrightarrow> ids_distinct db \<and>
     (\<exists>r \<in> set (index db). \<forall>b \<in> set (index db). b \<noteq> r \<longrightarrow>
        (\<exists>p \<in> set (index db). bid p = previous (header b) \<and> unat (block_num b) = unat (block_num p) + 1))"

text \<open>A branch: each block followed by the block it links to.\<close>

fun is_branch :: "('k, 's) fork_db \<Rightarrow> ('k, 's) block_state list \<Rightarrow> bool" where
  "is_branch db [] \<longleftrightarrow> True"
| "is_branch db [b] \<longleftrightarrow> b \<in> set (index db)"
| "is_branch db (b # c # bs) \<longleftrightarrow>
     b \<in> set (index db) \<and> get_block (previous (header b)) db = Some c \<and> is_branch db (c # bs)"

lemma is_branch_snoc:
  "is_branch db (xs @ [b]) \<Longrightarrow> get_block (previous (header b)) db = Some c \<Longrightarrow> is_branch db (xs @ [b, c])"
  by (induction db xs rule: is_branch.induct) (auto dest: get_block_SomeD)

lemma fork_tree_parent:
  assumes "fork_tree db"
  obtains r where "r \<in> set (index db)"
    and "\<And>b. b \<in> set (index db) \<Longrightarrow> b \<noteq> r \<Longrightarrow> unat (block_num r) < unat (block_num b)"
    and "\<And>b. b \<in> set (index db) \<Longrightarrow> b \<noteq> r \<Longrightarrow>
      \<exists>p. get_block (previous (header b)) db = Some p \<and> p \<in> set (index db)
        \<and> unat (block_num b) = unat (block_num p) + 1"
proof -
  from assms obtain r where r: "r \<in> set (index db)"
    and p: "\<And>b. b \<in> set (index db) \<Longrightarrow> b \<noteq> r \<Longrightarrow>
        \<exists>p \<in> set (index db). bid p = previous (header b) \<and> unat (block_num b) = unat (block_num p) + 1"
    and d: "ids_distinct db"
    unfolding fork_tree_def by blast
  have "unat (block_num r) < unat (block_num b)" if "b \<in> set (index db)" "b \<noteq> r" for b
    using that
  proof (induction "unat (block_num b)" arbitrary: b rule: less_induct)
    case less
    from p [OF less.prems] obtain q where q: "q \<in> set (index db)" "unat (block_num b) = unat (block_num q) + 1"
      by blast
    with less.hyps [of q] show ?case by (cases "q = r") auto
  qed
  moreover have "\<exists>p. get_block (previous (header b)) db = Some p \<and> p \<in> set (index db)
        \<and> unat (block_num b) = unat (block_num p) + 1" if "b \<in> set (index db)" "b \<noteq> r" for b
    using p [OF that] get_block_in [OF d] by metis
  ultimately show thesis using that r by blast
qed

lemma is_branch_last: "is_branch db (xs @ [b]) \<Longrightarrow> b \<in> set (index db)"
  by (induction db xs rule: is_branch.induct) (auto dest: get_block_SomeD)

lemma branch_down_ok:
  assumes t: "fork_tree db" and low: "\<exists>r \<in> set (index db). block_num r \<le> num"
  shows "is_branch db (acc @ [b]) \<Longrightarrow> unat (block_num b) < n \<Longrightarrow>
    \<exists>b' acc'. branch_down n db num b acc = Some (Inr (b', acc')) \<and> is_branch db (acc' @ [b'])
      \<and> hd (acc' @ [b']) = hd (acc @ [b]) \<and> block_num b' = min num (block_num b)"
proof (induction n arbitrary: b acc)
  case (Suc n)
  obtain r where r: "r \<in> set (index db)"
    "\<And>b. b \<in> set (index db) \<Longrightarrow> b \<noteq> r \<Longrightarrow> unat (block_num r) < unat (block_num b)"
    "\<And>b. b \<in> set (index db) \<Longrightarrow> b \<noteq> r \<Longrightarrow> \<exists>p. get_block (previous (header b)) db = Some p
        \<and> p \<in> set (index db) \<and> unat (block_num b) = unat (block_num p) + 1"
    using fork_tree_parent [OF t] by blast
  from low obtain q where q: "q \<in> set (index db)" "block_num q \<le> num" by blast
  have rnum: "block_num r \<le> num"
    using r(2) [OF q(1)] q(2) by (cases "q = r") (auto simp: word_le_nat_alt)
  show ?case
  proof (cases "block_num b > num")
    case True
    then have "b \<noteq> r" using rnum by auto
    then obtain p where p: "get_block (previous (header b)) db = Some p"
      "unat (block_num b) = unat (block_num p) + 1"
      using r(3) is_branch_last [OF Suc.prems(1)] by blast
    have "num \<le> block_num p" using True p(2) by (simp add: word_less_nat_alt word_le_nat_alt)
    moreover have "is_branch db ((acc @ [b]) @ [p])" using is_branch_snoc [OF Suc.prems(1) p(1)] by simp
    moreover have "unat (block_num p) < n" using p(2) Suc.prems(2) by simp
    ultimately show ?thesis
      using Suc.IH [of "acc @ [b]" p] True p(1) by (auto simp: min_def hd_append split: if_splits)
  qed (use Suc.prems in \<open>auto simp: min_def not_less\<close>)
qed simp

lemma branch_meet_ok:
  assumes t: "fork_tree db"
  shows "is_branch db (xs @ [a]) \<Longrightarrow> is_branch db (ys @ [b]) \<Longrightarrow> block_num a = block_num b \<Longrightarrow>
    unat (block_num a) < n \<Longrightarrow>
    \<exists>xs' ys'. branch_meet n db a b xs ys = Some (Inr (xs', ys')) \<and> is_branch db xs' \<and> is_branch db ys'
      \<and> xs' \<noteq> [] \<and> ys' \<noteq> [] \<and> hd xs' = hd (xs @ [a]) \<and> hd ys' = hd (ys @ [b])
      \<and> previous (header (last xs')) = previous (header (last ys'))"
proof (induction n arbitrary: a b xs ys)
  case (Suc n)
  obtain r where r: "r \<in> set (index db)"
    "\<And>b. b \<in> set (index db) \<Longrightarrow> b \<noteq> r \<Longrightarrow> unat (block_num r) < unat (block_num b)"
    "\<And>b. b \<in> set (index db) \<Longrightarrow> b \<noteq> r \<Longrightarrow> \<exists>p. get_block (previous (header b)) db = Some p
        \<and> p \<in> set (index db) \<and> unat (block_num b) = unat (block_num p) + 1"
    using fork_tree_parent [OF t] by blast
  show ?case
  proof (cases "previous (header a) = previous (header b)")
    case True
    with Suc.prems show ?thesis by simp
  next
    case False
    have ab: "a \<in> set (index db)" "b \<in> set (index db)" using is_branch_last Suc.prems by blast+
    have "a \<noteq> r" "b \<noteq> r"
      using r(2) [OF ab(1)] r(2) [OF ab(2)] Suc.prems(3) False by (cases "a = r"; cases "b = r"; auto)+
    from r(3) [OF ab(1) this(1)] r(3) [OF ab(2) this(2)] obtain p q where
      p: "get_block (previous (header a)) db = Some p" "unat (block_num a) = unat (block_num p) + 1"
      and q: "get_block (previous (header b)) db = Some q" "unat (block_num b) = unat (block_num q) + 1"
      by blast
    have "is_branch db ((xs @ [a]) @ [p])" "is_branch db ((ys @ [b]) @ [q])"
      using is_branch_snoc [OF Suc.prems(1) p(1)] is_branch_snoc [OF Suc.prems(2) q(1)] by simp_all
    moreover have "block_num p = block_num q" using p(2) q(2) Suc.prems(3) by (simp add: word_unat_eq_iff)
    moreover have "unat (block_num p) < n" using p(2) Suc.prems(4) by simp
    ultimately obtain xs' ys' where "branch_meet n db p q (xs @ [a]) (ys @ [b]) = Some (Inr (xs', ys'))"
      "is_branch db xs'" "is_branch db ys'" "xs' \<noteq> []" "ys' \<noteq> []" "hd xs' = hd ((xs @ [a]) @ [p])"
      "hd ys' = hd ((ys @ [b]) @ [q])" "previous (header (last xs')) = previous (header (last ys'))"
      using Suc.IH [of "xs @ [a]" p "ys @ [b]" q] by blast
    with False p(1) q(1) show ?thesis by (intro exI [of _ xs'] exI [of _ ys']) (simp add: hd_append)
  qed
qed simp

text \<open>
  An example: container orders that break ties by insertion, and a root with two successors, the second of
  which has a successor.
\<close>

definition ref_orders :: "('k, 's) orders" where
  "ref_orders = \<lparr>
     by_block_num = sort_key (\<lambda>b. (block_num b, \<not> in_current_chain b)),
     by_lib_block_num = sort_key (\<lambda>b. (- uint (dpos_irreversible_blocknum b),
       - uint (bft_irreversible_blocknum b), - uint (block_num b)))\<rparr>"

lemma ref_orders_ok: "orders_ok (ref_orders :: ('k, 's) orders)"
proof -
  have "sorted_wrt num_le (sort_key (\<lambda>b. (block_num b, \<not> in_current_chain b)) xs)"
    for xs :: "('k, 's) block_state list"
    using sorted_sort_key [of "\<lambda>b. (block_num b, \<not> in_current_chain b)" xs]
    by (simp add: sorted_map) (erule sorted_wrt_mono_rel [rotated], auto simp: num_le_def)
  moreover have "sorted_wrt lib_ge (sort_key (\<lambda>b. (- uint (dpos_irreversible_blocknum b),
       - uint (bft_irreversible_blocknum b), - uint (block_num b))) xs)"
    for xs :: "('k, 's) block_state list"
    using sorted_sort_key [of "\<lambda>b. (- uint (dpos_irreversible_blocknum b),
       - uint (bft_irreversible_blocknum b), - uint (block_num b))" xs]
    by (simp add: sorted_map) (erule sorted_wrt_mono_rel [rotated],
      auto simp: lib_ge_def word_less_def word_le_def word_uint_eq_iff)
  ultimately show ?thesis by (simp add: orders_ok_def ref_orders_def)
qed

definition ex_block :: "64 word \<Rightarrow> 64 word \<Rightarrow> 32 word \<Rightarrow> (nat, nat) block_state" where
  "ex_block i p n = block_header_state.extend
     (ex_genesis\<lparr>bid := Digest i 0 0 9, block_num := n, header := (header ex_genesis)\<lparr>previous := Digest p 0 0 9\<rparr>\<rparr>)
     \<lparr>block = ex_header, validated = False, in_current_chain = False\<rparr>"

definition ex_fork_db :: "(nat, nat) fork_db" where
  "ex_fork_db = \<lparr>index = [ex_block 1 0 1, ex_block 2 1 2, ex_block 3 1 2, ex_block 4 3 3],
     head = Some (ex_block 4 3 3), irreversible_log = []\<rparr>"

lemma ex_block_sel [simp]:
  "bid (ex_block i p n) = Digest i 0 0 9" "block_num (ex_block i p n) = n"
  "previous (header (ex_block i p n)) = Digest p 0 0 9" "bft_irreversible_blocknum (ex_block i p n) = 0"
  by (simp_all add: ex_block_def ex_genesis_def block_header_state.defs)

lemma ex_fork_db_distinct: "ids_distinct ex_fork_db"
  by (simp add: ids_distinct_def ex_fork_db_def)

lemma ex_fork_db_tree: "fork_tree ex_fork_db"
  unfolding fork_tree_def using ex_fork_db_distinct
  by (auto simp: ex_fork_db_def intro!: bexI [of _ "ex_block 1 0 1"])

lemma ex_fork_db_get:
  "get_block (Digest 3 0 0 9) ex_fork_db = Some (ex_block 3 1 2)"
  "get_block (Digest 2 0 0 9) ex_fork_db = Some (ex_block 2 1 2)"
  "get_block (Digest 4 0 0 9) ex_fork_db = Some (ex_block 4 3 3)"
  by (simp_all add: get_block_def ex_fork_db_def)

lemma ex_fork_remove:
  "fork_remove ref_orders (Digest 3 0 0 9) ex_fork_db = Inr (projr (fork_remove ref_orders (Digest 3 0 0 9) ex_fork_db))"
  "set_bft_irreversible (Digest 3 0 0 9) ex_fork_db = Inr (projr (set_bft_irreversible (Digest 3 0 0 9) ex_fork_db))"
  by code_simp+

lemma ex_fork_add:
  "fork_add_state ref_orders (ex_block 5 4 4) True ex_fork_db
     = Some (Inr (projr (the (fork_add_state ref_orders (ex_block 5 4 4) True ex_fork_db))))"
  "prune ref_orders (prune_fuel ex_fork_db) (ex_block 1 0 1) ex_fork_db
     = Some (Inr (projr (the (prune ref_orders (prune_fuel ex_fork_db) (ex_block 1 0 1) ex_fork_db))))"
  by code_simp+

section \<open>Properties\<close>

text \<open>
  C24. \<open>remove\<close> erases exactly the block with the given id and the blocks built on it, directly or through
  other blocks; every other block stays, in order, and the new head is a best block of what is left.
\<close>

theorem fork_remove_exact:
  assumes "orders_ok mi" and "ids_distinct db" and "fork_remove mi i db = Inr db'"
  shows "index db' = filter (\<lambda>b. \<not> built_on {i} (index db) b) (index db)
    \<and> (\<exists>h \<in> set (index db'). head db' = Some h \<and> (\<forall>b \<in> set (index db'). lib_ge h b))"
proof -
  obtain b where b: "best mi (db\<lparr>index := remove_loop [i] (index db)\<rparr>) = Inr b"
    and db': "db' = db\<lparr>index := remove_loop [i] (index db), head := Some b\<rparr>"
    using assms(3) by (auto simp: fork_remove_def res_simps Let_def simp del: remove_loop.simps)
  have "index db' = filter (\<lambda>b. \<not> built_on {i} (index db) b) (index db)"
    using remove_loop_exact [of "index db" "[i]"] assms(2) unfolding db' ids_distinct_def
    by (simp del: remove_loop.simps)
  moreover have "b \<in> set (index db') \<and> (\<forall>c \<in> set (index db'). lib_ge b c)"
    using best_Inr [OF assms(1) b] unfolding db' by (simp del: remove_loop.simps)
  ultimately show ?thesis unfolding db' by (auto simp del: remove_loop.simps)
qed

theorem fork_remove_exact_witness:
  "index (projr (fork_remove ref_orders (Digest 3 0 0 9) ex_fork_db))
     = filter (\<lambda>b. \<not> built_on {Digest 3 0 0 9} (index ex_fork_db) b) (index ex_fork_db)"
  using fork_remove_exact [OF ref_orders_ok ex_fork_db_distinct ex_fork_remove(1)] by blast

text \<open>
  C25. Adding a block returns (the pruning loops end), keeps ids distinct and adds at most the new block, and
  the head it leaves, if still stored, is a best block: no stored block is ahead of it in DPOS irreversible
  number, then BFT irreversible number, then block number.
\<close>

theorem fork_add_keeps_best_head:
  assumes o: "orders_ok mi" and d: "ids_distinct db"
  shows "\<exists>r. fork_add_state mi n skip db = Some r \<and>
    (\<forall>db'. r = Inr db' \<longrightarrow> ids_distinct db' \<and> head_best db' \<and> set (index db') \<subseteq> insert n (set (index db)))"
proof -
  obtain ins db1 where ins: "index_insert n db = (ins, db1)" by (metis surj_pair)
  have d1: "ids_distinct db1 \<and> set (index db1) \<subseteq> insert n (set (index db))"
    using ins d by (auto simp: index_insert_def ids_distinct_def get_block_None split: if_splits)
  show ?thesis
  proof (cases "best mi db1")
    case (Inl e)
    with ins show ?thesis by (auto simp: fork_add_state_def)
  next
    case (Inr h)
    let ?db2 = "db1\<lparr>head := Some h\<rparr>"
    have hb: "head_best ?db2" using best_Inr [OF o Inr] by (simp add: head_best_def)
    obtain r where r: "prune_oldest mi 10 (dpos_irreversible_blocknum h) ?db2 = Some r"
      "\<forall>db'. r = Inr db' \<longrightarrow> shrinks ?db2 db'"
      using prune_oldest_total [OF o] by blast
    have "ids_distinct db' \<and> head_best db' \<and> set (index db') \<subseteq> insert n (set (index db))" if "r = Inr db'" for db'
    proof -
      have sh: "shrinks ?db2 db'" using r(2) that by blast
      have "ids_distinct ?db2" using d1 by (simp add: ids_distinct_def)
      from shrinks_distinct [OF sh this] shrinks_set [OF sh] d1 sh hb show ?thesis
        unfolding shrinks_def by auto
    qed
    with r(1) Inr ins show ?thesis by (auto simp: fork_add_state_def)
  qed
qed

theorem fork_add_keeps_best_head_witness:
  "fork_add_state ref_orders (ex_block 5 4 4) True ex_fork_db
     = Some (Inr (projr (the (fork_add_state ref_orders (ex_block 5 4 4) True ex_fork_db))))
   \<and> head_best (projr (the (fork_add_state ref_orders (ex_block 5 4 4) True ex_fork_db)))"
  using fork_add_keeps_best_head [OF ref_orders_ok ex_fork_db_distinct, of "ex_block 5 4 4" True] ex_fork_add(1)
  by (metis option.inject)

text \<open>
  C26. \<open>prune\<close> returns within its fuel, and when it raises nothing every stored block up to the given block's
  number is gone and no block was added.
\<close>

theorem prune_clears_up_to_number:
  assumes "orders_ok mi"
  shows "\<exists>r. prune mi (prune_fuel db) h db = Some r \<and>
    (\<forall>db'. r = Inr db' \<longrightarrow> set (index db') \<subseteq> set (index db)
      \<and> (\<forall>b \<in> set (index db'). block_num h < block_num b))"
proof -
  obtain r where "prune mi (prune_fuel db) h db = Some r"
    "\<forall>db'. r = Inr db' \<longrightarrow> shrinks db db' \<and> (\<forall>b \<in> set (index db'). block_num h < block_num b)"
    using prune_total [OF assms, of db "prune_fuel db" h] by (auto simp: prune_fuel_def)
  then show ?thesis using shrinks_set [of db] by (intro exI [of _ r]) simp
qed

theorem prune_clears_up_to_number_witness:
  "prune ref_orders (prune_fuel ex_fork_db) (ex_block 1 0 1) ex_fork_db
     = Some (Inr (projr (the (prune ref_orders (prune_fuel ex_fork_db) (ex_block 1 0 1) ex_fork_db))))
   \<and> set (index (projr (the (prune ref_orders (prune_fuel ex_fork_db) (ex_block 1 0 1) ex_fork_db))))
       \<subseteq> set (index ex_fork_db)"
  using prune_clears_up_to_number [OF ref_orders_ok, of ex_fork_db "ex_block 1 0 1"] ex_fork_add(2)
  by (metis option.inject)

text \<open>
  C27. When a block becomes BFT irreversible, every block built on it gets at least its number, no other field
  and no other order changes, no number is lowered, and numbers stay monotone along links.
\<close>

theorem set_bft_irreversible_reaches_descendants:
  assumes "ids_distinct db" and "bft_mono (index db)" and "get_block i db = Some s"
    and "bft_irreversible_blocknum s < block_num s" and "set_bft_irreversible i db = Inr db'"
  shows "(\<forall>b. built_on {i} (index db') b \<longrightarrow> block_num s \<le> bft_irreversible_blocknum b)
    \<and> list_all2 bft_raised (index db) (index db') \<and> bft_mono (index db')"
  using set_bft_irreversible_result [OF assms] by blast

theorem set_bft_irreversible_reaches_descendants_witness:
  "list_all2 bft_raised (index ex_fork_db) (index (projr (set_bft_irreversible (Digest 3 0 0 9) ex_fork_db)))
   \<and> bft_mono (index (projr (set_bft_irreversible (Digest 3 0 0 9) ex_fork_db)))"
proof -
  have "bft_mono (index ex_fork_db)" by (simp add: bft_mono_def ex_fork_db_def)
  from set_bft_irreversible_reaches_descendants [OF ex_fork_db_distinct this ex_fork_db_get(1) _ ex_fork_remove(2)]
  show ?thesis by simp
qed

text \<open>
  C29. In a fork tree \<open>fetch_branch_from\<close> succeeds on any two stored blocks: it returns two branches that
  start with the given blocks, follow the links, and end in blocks with the same predecessor.
\<close>

theorem fetch_branch_from_common_ancestor:
  assumes t: "fork_tree db" and a: "get_block i db = Some a" and b: "get_block j db = Some b"
    and fuel: "unat (block_num a) < n" "unat (block_num b) < n"
  shows "\<exists>xs ys. fetch_branch_from n i j db = Some (Inr (xs, ys)) \<and> is_branch db xs \<and> is_branch db ys
    \<and> xs \<noteq> [] \<and> ys \<noteq> [] \<and> hd xs = a \<and> hd ys = b
    \<and> previous (header (last xs)) = previous (header (last ys))"
proof -
  have ab: "a \<in> set (index db)" "b \<in> set (index db)" using a b get_block_SomeD by blast+
  obtain a' xs where 1: "branch_down n db (block_num b) a [] = Some (Inr (a', xs))" "is_branch db (xs @ [a'])"
    "hd (xs @ [a']) = a" "block_num a' = min (block_num b) (block_num a)"
    using branch_down_ok [OF t, of "block_num b" "[]" a n] ab fuel by auto
  have a': "a' \<in> set (index db)" using is_branch_last [OF 1(2)] .
  obtain b' ys where 2: "branch_down n db (block_num a') b [] = Some (Inr (b', ys))" "is_branch db (ys @ [b'])"
    "hd (ys @ [b']) = b" "block_num b' = min (block_num a') (block_num b)"
    using branch_down_ok [OF t, of "block_num a'" "[]" b n] ab a' fuel by auto
  have "block_num a' = block_num b'" using 1(4) 2(4) by (simp add: min_def split: if_splits)
  moreover have "unat (block_num a') < n" using 1(4) fuel by (auto simp: min_def split: if_splits)
  ultimately obtain xs' ys' where "branch_meet n db a' b' xs ys = Some (Inr (xs', ys'))"
    "is_branch db xs'" "is_branch db ys'" "xs' \<noteq> []" "ys' \<noteq> []" "hd xs' = a" "hd ys' = b"
    "previous (header (last xs')) = previous (header (last ys'))"
    using branch_meet_ok [OF t 1(2) 2(2), of n] 1(3) 2(3) by auto
  then show ?thesis using 1(1) 2(1) a b by (intro exI [of _ xs'] exI [of _ ys']) (simp add: fetch_branch_from_def)
qed

theorem fetch_branch_from_common_ancestor_witness:
  "\<exists>xs ys. fetch_branch_from 4 (Digest 2 0 0 9) (Digest 4 0 0 9) ex_fork_db = Some (Inr (xs, ys))
    \<and> hd xs = ex_block 2 1 2 \<and> hd ys = ex_block 4 3 3
    \<and> previous (header (last xs)) = previous (header (last ys))"
  using fetch_branch_from_common_ancestor [OF ex_fork_db_tree ex_fork_db_get(2,3), of 4] by auto

end
