(* ===== verification/Authority.thy ===== *)
theory Authority
  imports Prelude Names
begin

text \<open>
  \<^verbatim>\<open>libraries/chain/include/eosio/chain/authority.hpp\<close> and the permission levels of
  \<^verbatim>\<open>action.hpp\<close>: weighted authorities and their validation.  Weights are 16 bits wide, the
  threshold and the running total 32 bits.  Public keys are an ordered type \<open>'k\<close>; their
  serialised size is the parameter of \<open>get_billable_size\<close>, because both belong to the fc library.
\<close>

section \<open>Permission levels\<close>

datatype (plugins only: code size) permission_level =
  Permission_level (actor: "64 word") (permission: "64 word")

instantiation permission_level :: linorder
begin

definition less_permission_level :: "permission_level \<Rightarrow> permission_level \<Rightarrow> bool" where
  "less_permission_level lhs rhs \<longleftrightarrow> (actor lhs, permission lhs) < (actor rhs, permission rhs)"

definition less_eq_permission_level :: "permission_level \<Rightarrow> permission_level \<Rightarrow> bool" where
  "less_eq_permission_level lhs rhs \<longleftrightarrow> (actor lhs, permission lhs) \<le> (actor rhs, permission rhs)"

instance
proof
  fix x y z :: permission_level
  show "(x < y) = (x \<le> y \<and> \<not> y \<le> x)" "x \<le> x" "x \<le> y \<or> y \<le> x"
    by (auto simp: less_permission_level_def less_eq_permission_level_def)
  show "x \<le> y \<Longrightarrow> y \<le> z \<Longrightarrow> x \<le> z"
    unfolding less_eq_permission_level_def by (rule order_trans)
  show "x \<le> y \<Longrightarrow> y \<le> x \<Longrightarrow> x = y"
    by (cases x; cases y) (auto simp: less_eq_permission_level_def)
qed

end

section \<open>Authorities\<close>

record permission_level_weight =
  plw_permission :: permission_level
  plw_weight :: "16 word"

record 'k key_weight =
  kw_key :: 'k
  kw_weight :: "16 word"

record wait_weight =
  ww_wait_sec :: "32 word"
  ww_weight :: "16 word"

record 'k authority =
  threshold :: "32 word"
  auth_keys :: "'k key_weight list"
  auth_accounts :: "permission_level_weight list"
  auth_waits :: "wait_weight list"

definition authority_delay :: "32 word \<Rightarrow> 'k authority \<Rightarrow> 'k authority" where
  "authority_delay delay_sec a =
     (if delay_sec > 0
      then a\<lparr>threshold := 2,
             auth_waits := auth_waits a @ [\<lparr>ww_wait_sec = delay_sec, ww_weight = 1\<rparr>]\<rparr>
      else a)"

definition authority_of_key :: "'k \<Rightarrow> 32 word \<Rightarrow> 'k authority" where
  "authority_of_key k delay_sec =
     authority_delay delay_sec
       \<lparr>threshold = 1, auth_keys = [\<lparr>kw_key = k, kw_weight = 1\<rparr>], auth_accounts = [], auth_waits = []\<rparr>"

definition authority_of_permission :: "permission_level \<Rightarrow> 32 word \<Rightarrow> 'k authority" where
  "authority_of_permission p delay_sec =
     authority_delay delay_sec
       \<lparr>threshold = 1, auth_keys = [], auth_accounts = [\<lparr>plw_permission = p, plw_weight = 1\<rparr>],
        auth_waits = []\<rparr>"

definition get_billable_size :: "('k \<Rightarrow> 64 word) \<Rightarrow> 'k authority \<Rightarrow> 64 word" where
  "get_billable_size pack_size a =
     (let accounts_size = of_nat (length (auth_accounts a)) * 24;
          waits_size = of_nat (length (auth_waits a)) * 16;
          keys_size = fold (\<lambda>k s. s + 8 + pack_size (kw_key k)) (auth_keys a) 0
      in accounts_size + waits_size + keys_size)"

section \<open>Validation\<close>

text \<open>The three loops; \<open>None\<close> is \<^verbatim>\<open>return false\<close>, \<open>prev\<close> the element before the current one.\<close>

fun validate_keys :: "'k::linorder option \<Rightarrow> 'k key_weight list \<Rightarrow> 32 word \<Rightarrow> (32 word) option" where
  "validate_keys prev [] total_weight = Some total_weight"
| "validate_keys prev (k # ks) total_weight =
     (if (case prev of None \<Rightarrow> False | Some q \<Rightarrow> \<not> (q < kw_key k)) then None
      else validate_keys (Some (kw_key k)) ks (total_weight + ucast (kw_weight k)))"

fun validate_accounts ::
  "permission_level option \<Rightarrow> permission_level_weight list \<Rightarrow> 32 word \<Rightarrow> (32 word) option" where
  "validate_accounts prev [] total_weight = Some total_weight"
| "validate_accounts prev (a # as) total_weight =
     (if (case prev of None \<Rightarrow> False | Some q \<Rightarrow> q \<ge> plw_permission a) then None
      else validate_accounts (Some (plw_permission a)) as (total_weight + ucast (plw_weight a)))"

fun validate_waits :: "(32 word) option \<Rightarrow> wait_weight list \<Rightarrow> 32 word \<Rightarrow> (32 word) option" where
  "validate_waits prev [] total_weight = Some total_weight"
| "validate_waits prev (w # ws) total_weight =
     (if (case prev of None \<Rightarrow> False | Some q \<Rightarrow> q \<ge> ww_wait_sec w) then None
      else validate_waits (Some (ww_wait_sec w)) ws (total_weight + ucast (ww_weight w)))"

definition validate :: "'k::linorder authority \<Rightarrow> bool" where
  "validate auth =
     (if length (auth_keys auth) + length (auth_accounts auth) + length (auth_waits auth) > 2 ^ 16
      then False
      else if threshold auth = 0 then False
      else case validate_keys None (auth_keys auth) 0 of None \<Rightarrow> False | Some t1 \<Rightarrow>
        (case validate_accounts None (auth_accounts auth) t1 of None \<Rightarrow> False | Some t2 \<Rightarrow>
          if auth_waits auth \<noteq> [] \<and> ww_wait_sec (hd (auth_waits auth)) = 0 then False
          else case validate_waits None (auth_waits auth) t2 of None \<Rightarrow> False | Some t3 \<Rightarrow>
            t3 \<ge> threshold auth))"

section \<open>Lemmas\<close>

text \<open>What the weights add up to, as a number.\<close>

definition total_weight_of :: "'k authority \<Rightarrow> nat" where
  "total_weight_of a =
     (\<Sum>k\<leftarrow>auth_keys a. unat (kw_weight k)) + (\<Sum>p\<leftarrow>auth_accounts a. unat (plw_weight p)) +
     (\<Sum>w\<leftarrow>auth_waits a. unat (ww_weight w))"

text \<open>The three loops are one scan over (sort key, weight) pairs.\<close>

fun scan_sorted :: "'a::linorder option \<Rightarrow> ('a \<times> 16 word) list \<Rightarrow> 32 word \<Rightarrow> (32 word) option" where
  "scan_sorted prev [] t = Some t"
| "scan_sorted prev ((x, w) # xs) t =
     (if (case prev of None \<Rightarrow> False | Some q \<Rightarrow> \<not> q < x) then None
      else scan_sorted (Some x) xs (t + ucast w))"

lemma validate_keys_scan:
  "validate_keys prev ks t = scan_sorted prev (map (\<lambda>k. (kw_key k, kw_weight k)) ks) t"
  by (induction ks arbitrary: prev t) auto

lemma validate_accounts_scan:
  "validate_accounts prev as t = scan_sorted prev (map (\<lambda>a. (plw_permission a, plw_weight a)) as) t"
  by (induction as arbitrary: prev t) (auto simp: not_less split: option.splits)

lemma validate_waits_scan:
  "validate_waits prev ws t = scan_sorted prev (map (\<lambda>w. (ww_wait_sec w, ww_weight w)) ws) t"
  by (induction ws arbitrary: prev t) (auto simp: not_less split: option.splits)

lemma scan_sorted_Some:
  "scan_sorted prev xs t = Some t' \<longleftrightarrow>
     sorted_wrt (<) (map fst xs) \<and> (case prev of None \<Rightarrow> True | Some q \<Rightarrow> \<forall>x\<in>set xs. q < fst x) \<and>
     t' = t + of_nat (\<Sum>x\<leftarrow>xs. unat (snd x))"
proof (induction xs arbitrary: prev t)
  case Nil
  then show ?case by (auto split: option.splits)
next
  case (Cons x xs)
  obtain k w where x: "x = (k, w)" by force
  show ?case
    unfolding x by (auto simp: Cons.IH add.assoc split: option.splits)
qed

lemma scan_sorted_start:
  "scan_sorted None xs t =
     (if sorted_wrt (<) (map fst xs) then Some (t + of_nat (\<Sum>x\<leftarrow>xs. unat (snd x))) else None)"
  using scan_sorted_Some [of None xs t] by (cases "scan_sorted None xs t") auto

lemma sum_weights_le: "(\<Sum>x\<leftarrow>xs. unat ((f x) :: 16 word)) \<le> 65535 * length xs"
proof (induction xs)
  case (Cons x xs)
  have "unat (f x) < 2 ^ 16" using unsigned_less [of "f x"] by simp
  with Cons show ?case by simp
qed simp

lemma unat_of_nat_total:
  assumes "n \<le> 65535 * 65536"
  shows "unat (of_nat n :: 32 word) = n"
  using assms by (simp add: unsigned_of_nat take_bit_nat_eq_self)

lemma validate_threshold: "validate auth \<Longrightarrow> 0 < threshold auth"
  by (auto simp: validate_def word_neq_0_conv split: if_splits)

lemma total_weight_le:
  "total_weight_of auth \<le> 65535 * (length (auth_keys auth) + length (auth_accounts auth) + length (auth_waits auth))"
  using sum_weights_le [of kw_weight "auth_keys auth"] sum_weights_le [of plw_weight "auth_accounts auth"]
    sum_weights_le [of ww_weight "auth_waits auth"] by (simp add: total_weight_of_def)

lemma validate_fits:
  assumes "validate auth"
  shows "total_weight_of auth < 2 ^ 32"
proof -
  have "length (auth_keys auth) + length (auth_accounts auth) + length (auth_waits auth) \<le> 2 ^ 16"
    using assms by (auto simp: validate_def split: if_splits)
  with total_weight_le [of auth] show ?thesis by simp
qed

text \<open>
  C35. An authority passes \<open>validate\<close> exactly when it has at most 65536 factors, a positive
  threshold, keys, permission levels and waits in strictly ascending order (so without duplicates),
  no wait of zero seconds, and weights that add up, without wrap-around, to at least the threshold:
  the 32-bit total never overflows.
\<close>
theorem validate_iff:
  "validate auth \<longleftrightarrow>
     length (auth_keys auth) + length (auth_accounts auth) + length (auth_waits auth) \<le> 2 ^ 16 \<and>
     0 < threshold auth \<and>
     sorted_wrt (<) (map kw_key (auth_keys auth)) \<and>
     sorted_wrt (<) (map plw_permission (auth_accounts auth)) \<and>
     sorted_wrt (<) (map ww_wait_sec (auth_waits auth)) \<and>
     0 \<notin> ww_wait_sec ` set (auth_waits auth) \<and>
     unat (threshold auth) \<le> total_weight_of auth"
  (is "_ \<longleftrightarrow> ?n \<le> 2 ^ 16 \<and> ?t \<and> ?k \<and> ?a \<and> ?w \<and> ?z \<and> ?sum")
proof (cases "?n \<le> 2 ^ 16")
  case True
  let ?K = "\<Sum>k\<leftarrow>auth_keys auth. unat (kw_weight k)"
  let ?A = "\<Sum>p\<leftarrow>auth_accounts auth. unat (plw_weight p)"
  let ?W = "\<Sum>w\<leftarrow>auth_waits auth. unat (ww_weight w)"
  have "?K + ?A + ?W \<le> 65535 * ?n"
    using total_weight_le [of auth] by (simp add: total_weight_of_def)
  also have "\<dots> \<le> 65535 * 65536" using True by simp
  finally have "unat (of_nat (?K + ?A + ?W) :: 32 word) = total_weight_of auth"
    by (simp add: unat_of_nat_total total_weight_of_def del: of_nat_add)
  then have fit: "threshold auth \<le> of_nat ?K + of_nat ?A + of_nat ?W \<longleftrightarrow> ?sum"
    by (simp add: word_le_nat_alt)
  have first: "(auth_waits auth \<noteq> [] \<and> ww_wait_sec (hd (auth_waits auth)) = 0) \<longleftrightarrow> \<not> ?z" if ?w
  proof (cases "auth_waits auth")
    case (Cons w ws)
    with that have "\<forall>x\<in>set ws. ww_wait_sec w < ww_wait_sec x" by simp
    then have "0 \<notin> ww_wait_sec ` set ws" by force
    with Cons show ?thesis by auto
  qed simp
  have t: "threshold auth = 0 \<longleftrightarrow> \<not> ?t" by (simp add: word_neq_0_conv [symmetric])
  have "validate auth \<longleftrightarrow>
      ?t \<and> ?k \<and> ?a \<and> \<not> (auth_waits auth \<noteq> [] \<and> ww_wait_sec (hd (auth_waits auth)) = 0) \<and> ?w \<and>
      threshold auth \<le> of_nat ?K + of_nat ?A + of_nat ?W"
    using True
    by (simp add: validate_def validate_keys_scan validate_accounts_scan validate_waits_scan t
          scan_sorted_start comp_def)
  with True first fit show ?thesis by blast
next
  case False
  then show ?thesis by (simp add: validate_def)
qed

end
