(* ===== verification/AuthChecker.thy ===== *)
theory AuthChecker
  imports Authority
begin

text \<open>
  \<^verbatim>\<open>libraries/chain/include/eosio/chain/authority_checker.hpp\<close>: whether a set of keys,
  permission levels and a delay satisfy an authority, following the accounts an authority delegates
  to up to a recursion limit.  The mutable members of the class (\<^verbatim>\<open>_used_keys\<close>) and the
  permission cache are the state \<open>check_state\<close>; \<open>provided_delay\<close>, which
  \<^verbatim>\<open>satisfied\<close> overrides for the length of a call, is an argument.  The recursion depth is
  compared with its limit before it is incremented, so it never wraps.

  The order in which Boost's \<^verbatim>\<open>flat_multiset\<close> keeps elements of equal weight and kind is
  not specified; it is the parameter \<open>perm_sort\<close>, known to return its argument sorted.
\<close>

section \<open>State\<close>

datatype (plugins only: code size) 'k meta_permission =
    Account_factor permission_level_weight
  | Key_factor "'k key_weight"
  | Wait_factor wait_weight

fun get_weight :: "'k meta_permission \<Rightarrow> 16 word" where
  "get_weight (Account_factor p) = plw_weight p"
| "get_weight (Key_factor k) = kw_weight k"
| "get_weight (Wait_factor w) = ww_weight w"

fun which :: "'k meta_permission \<Rightarrow> nat" where
  "which (Account_factor p) = 0"
| "which (Key_factor k) = 1"
| "which (Wait_factor w) = 2"

definition meta_permission_comparator :: "'k meta_permission \<Rightarrow> 'k meta_permission \<Rightarrow> bool" where
  "meta_permission_comparator lhs rhs \<longleftrightarrow>
     (get_weight lhs, which lhs) > (get_weight rhs, which rhs)"

datatype (plugins only: code size) permission_cache_status =
  Being_evaluated | Permission_unsatisfied | Permission_satisfied

type_synonym permission_cache = "(permission_level \<times> permission_cache_status) list"

record 'k authority_checker =
  permission_to_authority :: "permission_level \<Rightarrow> 'k authority res"
  provided_keys :: "'k list"
  provided_permissions :: "permission_level list"
  recursion_depth_limit :: "16 word"
  perm_sort :: "'k meta_permission list \<Rightarrow> 'k meta_permission list"

record check_state =
  used_keys :: "bool list"
  cached_permissions :: permission_cache

section \<open>Operations\<close>

definition permission_status_in_cache ::
  "permission_cache \<Rightarrow> permission_level \<Rightarrow> permission_cache_status option" where
  "permission_status_in_cache permissions level =
     (case fm_find permissions level of
        Some st \<Rightarrow> Some st
      | None \<Rightarrow> fm_find permissions (Permission_level (actor level) 0))"

definition initialize_permission_cache :: "'k authority_checker \<Rightarrow> permission_cache" where
  "initialize_permission_cache C =
     fold (\<lambda>p c. fm_emplace p Permission_satisfied c) (provided_permissions C) []"

definition meta_permission_set :: "'k authority_checker \<Rightarrow> 'k authority \<Rightarrow> 'k meta_permission list" where
  "meta_permission_set C auth =
     perm_sort C (map Wait_factor (auth_waits auth) @ map Key_factor (auth_keys auth) @
                  map Account_factor (auth_accounts auth))"

definition wait_provided :: "int \<Rightarrow> wait_weight \<Rightarrow> bool" where
  "wait_provided provided_delay w \<longleftrightarrow> provided_delay \<ge> uint (ww_wait_sec w) * 1000000"

definition tally_wait :: "int \<Rightarrow> wait_weight \<Rightarrow> 32 word \<Rightarrow> 32 word" where
  "tally_wait provided_delay w total_weight =
     (if wait_provided provided_delay w then total_weight + ucast (ww_weight w) else total_weight)"

fun find_index :: "'a \<Rightarrow> 'a list \<Rightarrow> nat" where
  "find_index x [] = 0"
| "find_index x (y # ys) = (if y = x then 0 else Suc (find_index x ys))"

definition tally_key ::
  "'k authority_checker \<Rightarrow> 'k key_weight \<Rightarrow> 32 word \<times> check_state \<Rightarrow> 32 word \<times> check_state" where
  "tally_key C k = (\<lambda>(total_weight, s).
     let i = find_index (kw_key k) (provided_keys C) in
     if i \<noteq> length (provided_keys C)
     then (total_weight + ucast (kw_weight k), s\<lparr>used_keys := (used_keys s)[i := True]\<rparr>)
     else (total_weight, s))"

text \<open>
  \<open>satisfied_at\<close> is the private \<^verbatim>\<open>satisfied\<close> with its key reverter, \<open>tally_permissions\<close> its
  loop over the factors, and \<open>tally_account\<close> the visitor's operator for a permission level.
\<close>

function satisfied_at ::
    "'k authority_checker \<Rightarrow> int \<Rightarrow> 'k authority \<Rightarrow> nat \<Rightarrow> check_state \<Rightarrow> (bool \<times> check_state) res"
  and tally_permissions ::
    "'k authority_checker \<Rightarrow> int \<Rightarrow> 32 word \<Rightarrow> nat \<Rightarrow> 'k meta_permission list \<Rightarrow> 32 word \<times> check_state
       \<Rightarrow> (bool \<times> check_state) res"
  and tally_account ::
    "'k authority_checker \<Rightarrow> int \<Rightarrow> nat \<Rightarrow> permission_level_weight \<Rightarrow> 32 word \<times> check_state
       \<Rightarrow> (32 word \<times> check_state) res" where
  "satisfied_at C delay auth depth s =
     bind_res (tally_permissions C delay (threshold auth) depth (meta_permission_set C auth) (0, s))
       (\<lambda>(r, s'). Inr (r, if r then s' else s'\<lparr>used_keys := used_keys s\<rparr>))"
| "tally_permissions C delay thr depth [] ts = Inr (False, snd ts)"
| "tally_permissions C delay thr depth (p # ps) ts =
     bind_res (case p of
                 Wait_factor w \<Rightarrow> Inr (tally_wait delay w (fst ts), snd ts)
               | Key_factor k \<Rightarrow> Inr (tally_key C k ts)
               | Account_factor a \<Rightarrow> tally_account C delay depth a ts)
       (\<lambda>ts'. if fst ts' \<ge> thr then Inr (True, snd ts') else tally_permissions C delay thr depth ps ts')"
| "tally_account C delay depth a ts =
     (case permission_status_in_cache (cached_permissions (snd ts)) (plw_permission a) of
        None \<Rightarrow>
          if depth < unat (recursion_depth_limit C) then
            (case permission_to_authority C (plw_permission a) of
               Inl e \<Rightarrow> if e = Permission_query_exception then Inr ts else Inl e
             | Inr auth \<Rightarrow>
                 bind_res
                   (satisfied_at C delay auth (depth + 1)
                      ((snd ts)\<lparr>cached_permissions :=
                         fm_emplace (plw_permission a) Being_evaluated (cached_permissions (snd ts))\<rparr>))
                   (\<lambda>(r, s').
                     Inr (if r then fst ts + ucast (plw_weight a) else fst ts,
                          s'\<lparr>cached_permissions :=
                              fm_set (plw_permission a)
                                (if r then Permission_satisfied else Permission_unsatisfied)
                                (cached_permissions s')\<rparr>)))
          else Inr ts
      | Some st \<Rightarrow>
          Inr (if st = Permission_satisfied then fst ts + ucast (plw_weight a) else fst ts, snd ts))"
  by pat_completeness auto
termination
  by (relation "inv_image (less_than <*lex*> less_than <*lex*> less_than)
        (\<lambda>x. case x of
           Inl (C, delay, auth, depth, s) \<Rightarrow> (unat (recursion_depth_limit C) - depth, 1, 0)
         | Inr (Inl (C, delay, thr, depth, ps, ts)) \<Rightarrow>
             (unat (recursion_depth_limit C) - depth, 0, 2 * length ps)
         | Inr (Inr (C, delay, depth, a, ts)) \<Rightarrow>
             (unat (recursion_depth_limit C) - depth, 0, 1))")
     auto

declare satisfied_at.simps [simp del] tally_permissions.simps(2) [simp del] tally_account.simps [simp del]

definition authority_checker_init :: "'k authority_checker \<Rightarrow> bool list" where
  "authority_checker_init C = replicate (length (provided_keys C)) False"

text \<open>
  The public overloads: a permission level or an authority, with the cache the caller passes or a
  fresh one that holds the provided permissions.
\<close>

definition start_state :: "'k authority_checker \<Rightarrow> bool list \<Rightarrow> permission_cache option \<Rightarrow> check_state" where
  "start_state C used cached_perms =
     \<lparr>used_keys = used,
      cached_permissions = (case cached_perms of None \<Rightarrow> initialize_permission_cache C | Some c \<Rightarrow> c)\<rparr>"

definition satisfied_permission ::
  "'k authority_checker \<Rightarrow> int \<Rightarrow> permission_level \<Rightarrow> permission_cache option \<Rightarrow> bool list
     \<Rightarrow> (bool \<times> check_state) res" where
  "satisfied_permission C delay p cached_perms used =
     bind_res (tally_account C delay 0 \<lparr>plw_permission = p, plw_weight = 1\<rparr> (0, start_state C used cached_perms))
       (\<lambda>(w, s). Inr (w > 0, s))"

definition satisfied_authority ::
  "'k authority_checker \<Rightarrow> int \<Rightarrow> 'k authority \<Rightarrow> permission_cache option \<Rightarrow> bool list
     \<Rightarrow> (bool \<times> check_state) res" where
  "satisfied_authority C delay auth cached_perms used =
     satisfied_at C delay auth 0 (start_state C used cached_perms)"

definition all_keys_used :: "bool list \<Rightarrow> bool" where
  "all_keys_used used \<longleftrightarrow> list_all (\<lambda>b. b) used"

fun filter_data_by_marker :: "'a list \<Rightarrow> bool list \<Rightarrow> bool \<Rightarrow> 'a list" where
  "filter_data_by_marker (x # xs) (m # ms) mark =
     (if m = mark then x # filter_data_by_marker xs ms mark else filter_data_by_marker xs ms mark)"
| "filter_data_by_marker _ _ mark = []"

definition used_key_set :: "'k authority_checker \<Rightarrow> bool list \<Rightarrow> 'k list" where
  "used_key_set C used = filter_data_by_marker (provided_keys C) used True"

definition unused_key_set :: "'k authority_checker \<Rightarrow> bool list \<Rightarrow> 'k list" where
  "unused_key_set C used = filter_data_by_marker (provided_keys C) used False"


section \<open>What it means to satisfy a permission\<close>

text \<open>
  A permission level is granted when it was provided, when its actor was provided with the empty
  permission name, or when the factors of its authority that hold (keys provided, waits covered by
  the delay, permission levels granted in turn) weigh at least its threshold.
\<close>

inductive granted :: "'k authority_checker \<Rightarrow> int \<Rightarrow> permission_level \<Rightarrow> bool" for C delay where
  granted_provided: "p \<in> set (provided_permissions C) \<Longrightarrow> granted C delay p"
| granted_any: "Permission_level (actor p) 0 \<in> set (provided_permissions C) \<Longrightarrow> granted C delay p"
| granted_authority:
    "permission_to_authority C p = Inr auth \<Longrightarrow> (\<And>q. q \<in> S \<Longrightarrow> granted C delay q) \<Longrightarrow>
     unat (threshold auth)
       \<le> (\<Sum>w\<leftarrow>auth_waits auth. if wait_provided delay w then unat (ww_weight w) else 0) +
         (\<Sum>k\<leftarrow>auth_keys auth. if kw_key k \<in> set (provided_keys C) then unat (kw_weight k) else 0) +
         (\<Sum>a\<leftarrow>auth_accounts auth. if plw_permission a \<in> S then unat (plw_weight a) else 0) \<Longrightarrow>
     granted C delay p"


fun factor_holds :: "'k authority_checker \<Rightarrow> int \<Rightarrow> 'k meta_permission \<Rightarrow> bool" where
  "factor_holds C delay (Account_factor a) \<longleftrightarrow> granted C delay (plw_permission a)"
| "factor_holds C delay (Key_factor k) \<longleftrightarrow> kw_key k \<in> set (provided_keys C)"
| "factor_holds C delay (Wait_factor w) \<longleftrightarrow> wait_provided delay w"

definition held_weight :: "'k authority_checker \<Rightarrow> int \<Rightarrow> 'k meta_permission list \<Rightarrow> nat" where
  "held_weight C delay ps = (\<Sum>p\<leftarrow>ps. if factor_holds C delay p then unat (get_weight p) else 0)"

definition perm_sort_ok :: "'k authority_checker \<Rightarrow> bool" where
  "perm_sort_ok C \<longleftrightarrow>
     (\<forall>ps. mset (perm_sort C ps) = mset ps \<and>
           sorted_wrt (\<lambda>a b. \<not> meta_permission_comparator b a) (perm_sort C ps))"

lemma held_weight_Nil [simp]: "held_weight C delay [] = 0"
  by (simp add: held_weight_def)

lemma held_weight_Cons [simp]:
  "held_weight C delay (p # ps) =
     (if factor_holds C delay p then unat (get_weight p) else 0) + held_weight C delay ps"
  by (simp add: held_weight_def)

lemma held_weight_set:
  assumes "perm_sort_ok C"
  shows "held_weight C delay (meta_permission_set C auth) =
    (\<Sum>w\<leftarrow>auth_waits auth. if wait_provided delay w then unat (ww_weight w) else 0) +
    (\<Sum>k\<leftarrow>auth_keys auth. if kw_key k \<in> set (provided_keys C) then unat (kw_weight k) else 0) +
    (\<Sum>a\<leftarrow>auth_accounts auth. if granted C delay (plw_permission a) then unat (plw_weight a) else 0)"
proof -
  let ?f = "\<lambda>p. if factor_holds C delay p then unat (get_weight p) else 0"
  let ?ps = "map Wait_factor (auth_waits auth) @ map Key_factor (auth_keys auth) @
             map Account_factor (auth_accounts auth)"
  have "held_weight C delay (meta_permission_set C auth) = sum_mset (image_mset ?f (mset (perm_sort C ?ps)))"
    by (simp add: held_weight_def meta_permission_set_def flip: sum_mset_sum_list)
  also have "\<dots> = sum_mset (image_mset ?f (mset ?ps))" using assms by (simp add: perm_sort_ok_def)
  also have "\<dots> = sum_list (map ?f ?ps)" by (simp add: sum_mset_sum_list flip: mset_map)
  finally show ?thesis by (simp add: comp_def cong: if_cong)
qed

lemma grantedI:
  assumes "perm_sort_ok C" and "permission_to_authority C p = Inr auth"
    and "unat (threshold auth) \<le> held_weight C delay (meta_permission_set C auth)"
  shows "granted C delay p"
  using assms by (intro granted_authority [of C p auth "{q. granted C delay q}"]) (simp_all add: held_weight_set)

lemma sum_list_if_le:
  "(\<And>x. x \<in> set xs \<Longrightarrow> P x \<Longrightarrow> Q x) \<Longrightarrow>
     (\<Sum>x\<leftarrow>xs. if P x then f x else (0::nat)) \<le> (\<Sum>x\<leftarrow>xs. if Q x then f x else 0)"
  by (rule sum_list_mono) auto

lemma granted_cases:
  assumes "granted C delay p" and "perm_sort_ok C"
    and "p \<notin> set (provided_permissions C)" and "Permission_level (actor p) 0 \<notin> set (provided_permissions C)"
  obtains auth where "permission_to_authority C p = Inr auth"
    and "unat (threshold auth) \<le> held_weight C delay (meta_permission_set C auth)"
  using assms(1)
proof (cases rule: granted.cases)
  case (granted_authority auth S)
  have "(\<Sum>a\<leftarrow>auth_accounts auth. if plw_permission a \<in> S then unat (plw_weight a) else 0)
      \<le> (\<Sum>a\<leftarrow>auth_accounts auth. if granted C delay (plw_permission a) then unat (plw_weight a) else 0)"
    using granted_authority(2) by (intro sum_list_if_le) blast
  with granted_authority(3) have "unat (threshold auth) \<le> held_weight C delay (meta_permission_set C auth)"
    unfolding held_weight_set [OF assms(2)] by linarith
  with granted_authority(1) show ?thesis by (rule that)
qed (use assms in auto)

section \<open>Soundness\<close>

text \<open>Every level the cache calls satisfied is granted.\<close>

definition cache_sound :: "'k authority_checker \<Rightarrow> int \<Rightarrow> check_state \<Rightarrow> bool" where
  "cache_sound C delay s \<longleftrightarrow>
     (\<forall>q. fm_find (cached_permissions s) q = Some Permission_satisfied \<longrightarrow>
        granted C delay q \<and> (permission q = 0 \<longrightarrow> q \<in> set (provided_permissions C)))"

definition pta_named :: "'k authority_checker \<Rightarrow> bool" where
  "pta_named C \<longleftrightarrow> (\<forall>p auth. permission_to_authority C p = Inr auth \<longrightarrow> permission p \<noteq> 0)"

lemma cache_sound_used [simp]: "cache_sound C delay (s\<lparr>used_keys := u\<rparr>) = cache_sound C delay s"
  by (simp add: cache_sound_def)

lemma cache_sound_set:
  assumes "cache_sound C delay s"
    and "st = Permission_satisfied \<Longrightarrow> granted C delay q \<and> permission q \<noteq> 0"
  shows "cache_sound C delay (s\<lparr>cached_permissions := fm_set q st (cached_permissions s)\<rparr>)"
  using assms by (auto simp: cache_sound_def fm_find_set)

lemma cache_sound_status:
  assumes "cache_sound C delay s"
    and "permission_status_in_cache (cached_permissions s) p = Some Permission_satisfied"
  shows "granted C delay p"
proof (cases "fm_find (cached_permissions s) p")
  case None
  with assms(2) have "fm_find (cached_permissions s) (Permission_level (actor p) 0) = Some Permission_satisfied"
    by (simp add: permission_status_in_cache_def)
  with assms(1) have "Permission_level (actor p) 0 \<in> set (provided_permissions C)"
    by (fastforce simp: cache_sound_def)
  then show ?thesis by (rule granted_any)
next
  case (Some st)
  with assms show ?thesis by (auto simp: permission_status_in_cache_def cache_sound_def)
qed


lemma unat_add_ucast_le: "unat (t + ucast (w :: 16 word) :: 32 word) \<le> unat t + unat w"
  by (metis of_nat_add of_nat_unat order_refl ucast_id unat_of_nat mod_less_eq_dividend)

lemma find_index_le: "find_index x xs \<le> length xs"
  by (induction xs) auto

lemma find_index_eq: "find_index x xs = length xs \<longleftrightarrow> x \<notin> set xs"
  by (induction xs) auto

lemma tally_key_weight:
  "fst (tally_key C k (t, s)) = (if kw_key k \<in> set (provided_keys C) then t + ucast (kw_weight k) else t)"
  "cached_permissions (snd (tally_key C k (t, s))) = cached_permissions s"
  by (simp_all add: tally_key_def find_index_eq Let_def)

lemma checker_sound_induct:
  assumes "perm_sort_ok C" "pta_named C"
  shows "satisfied_at C delay auth depth s = Inr rs \<Longrightarrow> cache_sound C delay s \<Longrightarrow>
           cache_sound C delay (snd rs) \<and>
           (fst rs \<longrightarrow> unat (threshold auth) \<le> held_weight C delay (meta_permission_set C auth))"
    and "tally_permissions C delay thr depth ps ts = Inr rs \<Longrightarrow> cache_sound C delay (snd ts) \<Longrightarrow>
           cache_sound C delay (snd rs) \<and>
           (fst rs \<longrightarrow> unat thr \<le> unat (fst ts) + held_weight C delay ps)"
    and "tally_account C delay depth a ts = Inr ts' \<Longrightarrow> cache_sound C delay (snd ts) \<Longrightarrow>
           cache_sound C delay (snd ts') \<and>
           unat (fst ts') \<le> unat (fst ts) + held_weight C delay [Account_factor a]"
  using assms
proof (induction C delay auth depth s and C delay thr depth ps ts and C delay depth a ts
    arbitrary: rs and rs and ts'
    rule: satisfied_at_tally_permissions_tally_account.induct)
  case (1 C delay auth depth s)
  then show ?case by (auto simp: satisfied_at.simps res_simps)
next
  case (2 C delay thr depth ts)
  then show ?case by auto
next
  case (3 C delay thr depth p ps ts)
  from 3(3) obtain ts' where step: "(case p of
                 Wait_factor w \<Rightarrow> Inr (tally_wait delay w (fst ts), snd ts)
               | Key_factor k \<Rightarrow> Inr (tally_key C k ts)
               | Account_factor a \<Rightarrow> tally_account C delay depth a ts) = Inr ts'"
    and rest: "(if thr \<le> fst ts' then Inr (True, snd ts') else tally_permissions C delay thr depth ps ts') = Inr rs"
    by (auto simp: tally_permissions.simps bind_res_Inr)
  have one: "cache_sound C delay (snd ts') \<and>
      unat (fst ts') \<le> unat (fst ts) + held_weight C delay [p]"
  proof (cases p)
    case (Account_factor a)
    then show ?thesis using 3(1) [OF Account_factor] step 3(4-) by simp
  next
    case (Key_factor k)
    then show ?thesis using step 3(4) tally_key_weight [of C k "fst ts" "snd ts"]
        unat_add_ucast_le [of "fst ts" "kw_weight k"]
      by (auto simp: cache_sound_def)
  next
    case (Wait_factor w)
    then show ?thesis using step 3(4) unat_add_ucast_le [of "fst ts" "ww_weight w"]
      by (auto simp: tally_wait_def)
  qed
  show ?case
  proof (cases "thr \<le> fst ts'")
    case True
    then show ?thesis using rest one by (auto simp: word_le_nat_alt)
  next
    case False
    then show ?thesis using 3(2) [OF step False, of rs] rest one 3(5,6) by auto
  qed
next
  case (4 C delay depth a ts)
  let ?s = "snd ts" let ?q = "plw_permission a"
  show ?case
  proof (cases "permission_status_in_cache (cached_permissions ?s) ?q")
    case (Some st)
    then show ?thesis
      using 4(2,3) cache_sound_status [of C delay ?s ?q] unat_add_ucast_le [of "fst ts" "plw_weight a"]
      by (auto simp: tally_account.simps)
  next
    case None
    show ?thesis
    proof (cases "depth < unat (recursion_depth_limit C)")
      case False
      then show ?thesis using 4(2,3) None by (auto simp: tally_account.simps)
    next
      case True
      show ?thesis
      proof (cases "permission_to_authority C ?q")
        case (Inl e)
        then show ?thesis using 4(2,3) None True by (auto simp: tally_account.simps split: if_splits)
      next
        case (Inr auth)
        let ?s1 = "?s\<lparr>cached_permissions := fm_emplace ?q Being_evaluated (cached_permissions ?s)\<rparr>"
        from 4(2) None True Inr obtain r s' where
          sat: "satisfied_at C delay auth (depth + 1) ?s1 = Inr (r, s')" and
          ts': "ts' = (if r then fst ts + ucast (plw_weight a) else fst ts,
                  s'\<lparr>cached_permissions := fm_set ?q
                      (if r then Permission_satisfied else Permission_unsatisfied) (cached_permissions s')\<rparr>)"
          by (auto simp: tally_account.simps bind_res_Inr)
        have "cache_sound C delay ?s1" using 4(3) by (auto simp: cache_sound_def fm_find_emplace)
        from 4(1) [OF None True Inr sat this 4(4,5)]
        have s': "cache_sound C delay s'" and
          r: "r \<Longrightarrow> unat (threshold auth) \<le> held_weight C delay (meta_permission_set C auth)" by auto
        have g: "r \<Longrightarrow> granted C delay ?q" using grantedI [OF 4(4) Inr r] .
        have "permission ?q \<noteq> 0" using 4(5) Inr by (auto simp: pta_named_def)
        then have "cache_sound C delay (snd ts')" unfolding ts' using s' g by (auto intro!: cache_sound_set)
        then show ?thesis unfolding ts' using g unat_add_ucast_le [of "fst ts" "plw_weight a"] by auto
      qed
    qed
  qed
qed


section \<open>Exactness on acyclic delegations\<close>

text \<open>
  When delegation follows a rank (no cycles) that stays below the recursion limit, authorities are
  valid, no permission level with an empty name occurs and unknown permissions are the only lookup
  failure, the checker decides \<open>granted\<close>.
\<close>

definition named :: "permission_level \<Rightarrow> bool" where
  "named p \<longleftrightarrow> actor p \<noteq> 0 \<and> permission p \<noteq> 0"

definition delegation_ranked :: "'k::linorder authority_checker \<Rightarrow> (permission_level \<Rightarrow> nat) \<Rightarrow> bool" where
  "delegation_ranked C rank \<longleftrightarrow>
     (\<forall>p. case permission_to_authority C p of
            Inl e \<Rightarrow> named p \<longrightarrow> e = Permission_query_exception
          | Inr auth \<Rightarrow> named p \<and> validate auth \<and>
              (\<forall>a \<in> set (auth_accounts auth).
                 named (plw_permission a) \<and> rank (plw_permission a) < rank p))"

definition cache_exact :: "'k authority_checker \<Rightarrow> int \<Rightarrow> check_state \<Rightarrow> bool" where
  "cache_exact C delay s \<longleftrightarrow>
     (\<forall>q \<in> set (provided_permissions C). fm_find (cached_permissions s) q = Some Permission_satisfied) \<and>
     (\<forall>q st. fm_find (cached_permissions s) q = Some st \<longrightarrow>
        (st = Permission_satisfied \<longrightarrow> granted C delay q) \<and>
        (st = Permission_unsatisfied \<longrightarrow> \<not> granted C delay q) \<and>
        (permission q = 0 \<longrightarrow> q \<in> set (provided_permissions C)))"

definition being :: "check_state \<Rightarrow> permission_level set" where
  "being s = {q. fm_find (cached_permissions s) q = Some Being_evaluated}"

definition factors_weight :: "'k meta_permission list \<Rightarrow> nat" where
  "factors_weight ps = (\<Sum>p\<leftarrow>ps. unat (get_weight p))"

lemma factors_weight_simps [simp]:
  "factors_weight [] = 0" "factors_weight (p # ps) = unat (get_weight p) + factors_weight ps"
  by (simp_all add: factors_weight_def)

lemma set_meta_permission_set:
  assumes "perm_sort_ok C"
  shows "set (meta_permission_set C auth) =
    Wait_factor ` set (auth_waits auth) \<union> Key_factor ` set (auth_keys auth) \<union>
    Account_factor ` set (auth_accounts auth)"
proof -
  have "set (perm_sort C ps) = set ps" for ps
    using assms by (metis perm_sort_ok_def set_mset_mset)
  then show ?thesis by (auto simp: meta_permission_set_def)
qed

lemma factors_weight_set:
  assumes "perm_sort_ok C"
  shows "factors_weight (meta_permission_set C auth) = total_weight_of auth"
proof -
  let ?ps = "map Wait_factor (auth_waits auth) @ map Key_factor (auth_keys auth) @
             map Account_factor (auth_accounts auth)"
  have "factors_weight (meta_permission_set C auth)
      = sum_mset (image_mset (\<lambda>p. unat (get_weight p)) (mset (perm_sort C ?ps)))"
    by (simp add: factors_weight_def meta_permission_set_def flip: sum_mset_sum_list)
  also have "\<dots> = sum_mset (image_mset (\<lambda>p. unat (get_weight p)) (mset ?ps))"
    using assms by (simp add: perm_sort_ok_def)
  also have "\<dots> = sum_list (map (\<lambda>p. unat (get_weight p)) ?ps)"
    by (simp add: sum_mset_sum_list flip: mset_map)
  finally show ?thesis by (simp add: comp_def total_weight_of_def)
qed

lemma unat_add_ucast_fits:
  "unat (t :: 32 word) + unat (w :: 16 word) < 2 ^ 32 \<Longrightarrow> unat (t + ucast w) = unat t + unat w"
  by (simp add: unat_add_lem [THEN iffD1] unsigned_ucast_eq take_bit_nat_eq_self)

lemma status_exact:
  assumes "cache_exact C delay s"
    and "permission_status_in_cache (cached_permissions s) p = Some st" and "p \<notin> being s"
  shows "st = Permission_satisfied \<longleftrightarrow> granted C delay p"
proof (cases "fm_find (cached_permissions s) p")
  case None
  with assms have st: "fm_find (cached_permissions s) (Permission_level (actor p) 0) = Some st"
    by (simp add: permission_status_in_cache_def)
  with assms(1) have "Permission_level (actor p) 0 \<in> set (provided_permissions C)"
    by (fastforce simp: cache_exact_def)
  moreover from this assms(1) st have "st = Permission_satisfied" by (fastforce simp: cache_exact_def)
  ultimately show ?thesis by (simp add: granted_any)
next
  case (Some st')
  with assms show ?thesis
    by (cases st) (auto simp: permission_status_in_cache_def cache_exact_def being_def)
qed

lemma status_None:
  assumes "cache_exact C delay s" and "permission_status_in_cache (cached_permissions s) p = None"
  shows "p \<notin> set (provided_permissions C)" "Permission_level (actor p) 0 \<notin> set (provided_permissions C)"
    and "fm_find (cached_permissions s) p = None"
  using assms by (auto simp: permission_status_in_cache_def cache_exact_def split: option.splits)

lemma cache_exact_set:
  assumes "cache_exact C delay s" and "q \<notin> set (provided_permissions C)" and "permission q \<noteq> 0"
    and "st = Permission_satisfied \<Longrightarrow> granted C delay q" and "st = Permission_unsatisfied \<Longrightarrow> \<not> granted C delay q"
  shows "cache_exact C delay (s\<lparr>cached_permissions := fm_set q st (cached_permissions s)\<rparr>)"
  using assms by (auto simp: cache_exact_def)

lemma cache_exact_used [simp]: "cache_exact C delay (s\<lparr>used_keys := u\<rparr>) = cache_exact C delay s"
  and being_used [simp]: "being (s\<lparr>used_keys := u\<rparr>) = being s"
  by (simp_all add: cache_exact_def being_def)


text \<open>One factor: the total grows by the weight of the factor exactly when the factor holds.\<close>

definition tally_exact ::
  "'k authority_checker \<Rightarrow> int \<Rightarrow> 'k meta_permission \<Rightarrow> 32 word \<times> check_state \<Rightarrow> 32 word \<times> check_state \<Rightarrow> bool" where
  "tally_exact C delay p ts ts' \<longleftrightarrow>
     fst ts' = (if factor_holds C delay p then fst ts + ucast (get_weight p) else fst ts) \<and>
     cache_exact C delay (snd ts') \<and> being (snd ts') \<subseteq> being (snd ts)"

definition ranked_below :: "(permission_level \<Rightarrow> nat) \<Rightarrow> nat \<Rightarrow> 'k meta_permission list \<Rightarrow> bool" where
  "ranked_below rank R ps \<longleftrightarrow>
     (\<forall>a. Account_factor a \<in> set ps \<longrightarrow> named (plw_permission a) \<and> rank (plw_permission a) < R)"

lemma tally_key_exact:
  "cache_exact C delay (snd ts) \<Longrightarrow> tally_exact C delay (Key_factor k) ts (tally_key C k ts)"
  using tally_key_weight [of C k "fst ts" "snd ts"]
  by (auto simp: tally_exact_def cache_exact_def being_def)

lemma tally_wait_exact:
  "cache_exact C delay (snd ts) \<Longrightarrow>
     tally_exact C delay (Wait_factor w) ts (tally_wait delay w (fst ts), snd ts)"
  by (simp add: tally_exact_def tally_wait_def)

lemma tally_account_missing:
  assumes "cache_exact C delay (snd ts)" and "perm_sort_ok C"
    and "permission_status_in_cache (cached_permissions (snd ts)) (plw_permission a) = None"
    and "permission_to_authority C (plw_permission a) = Inl e"
  shows "tally_exact C delay (Account_factor a) ts ts"
proof -
  have "\<not> granted C delay (plw_permission a)"
  proof
    assume "granted C delay (plw_permission a)"
    then obtain auth where "permission_to_authority C (plw_permission a) = Inr auth"
      using granted_cases [OF _ assms(2) status_None(1,2) [OF assms(1,3)]] by blast
    with assms(4) show False by simp
  qed
  with assms(1) show ?thesis by (simp add: tally_exact_def)
qed

lemma tally_account_evaluated:
  assumes "cache_exact C delay (snd ts)" and "perm_sort_ok C"
    and "permission_status_in_cache (cached_permissions (snd ts)) (plw_permission a) = None"
    and "permission_to_authority C (plw_permission a) = Inr auth" and "permission (plw_permission a) \<noteq> 0"
    and "cache_exact C delay s'" and "being s' \<subseteq> insert (plw_permission a) (being (snd ts))"
    and r: "r = (unat (threshold auth) \<le> held_weight C delay (meta_permission_set C auth))"
  shows "tally_exact C delay (Account_factor a) ts
           (if r then fst ts + ucast (plw_weight a) else fst ts,
            s'\<lparr>cached_permissions := fm_set (plw_permission a)
                 (if r then Permission_satisfied else Permission_unsatisfied) (cached_permissions s')\<rparr>)"
proof -
  note prov = status_None(1,2) [OF assms(1,3)]
  have g: "granted C delay (plw_permission a) \<longleftrightarrow> r"
  proof
    assume "granted C delay (plw_permission a)"
    then obtain auth' where "permission_to_authority C (plw_permission a) = Inr auth'"
      "unat (threshold auth') \<le> held_weight C delay (meta_permission_set C auth')"
      using granted_cases [OF _ assms(2) prov] by blast
    with assms(4) r show r by simp
  next
    assume r
    then show "granted C delay (plw_permission a)" using grantedI [OF assms(2,4)] r by blast
  qed
  have "cache_exact C delay (s'\<lparr>cached_permissions := fm_set (plw_permission a)
                 (if r then Permission_satisfied else Permission_unsatisfied) (cached_permissions s')\<rparr>)"
    using g prov(1) assms(5,6) by (intro cache_exact_set) (auto split: if_splits)
  then show ?thesis using g assms(7) by (auto simp: tally_exact_def being_def split: if_splits)
qed

lemma checker_exact_induct:
  fixes C :: "'k::linorder authority_checker"
  assumes "perm_sort_ok C" "delegation_ranked C rank"
  shows "cache_exact C delay s \<Longrightarrow> validate auth \<Longrightarrow> R \<le> unat (recursion_depth_limit C) - depth \<Longrightarrow>
           ranked_below rank R (meta_permission_set C auth) \<Longrightarrow> \<forall>q\<in>being s. R \<le> rank q \<Longrightarrow>
           \<exists>s'. satisfied_at C delay auth depth s =
                  Inr (unat (threshold auth) \<le> held_weight C delay (meta_permission_set C auth), s') \<and>
                cache_exact C delay s' \<and> being s' \<subseteq> being s"
    and "cache_exact C delay (snd ts) \<Longrightarrow> R \<le> unat (recursion_depth_limit C) - depth \<Longrightarrow>
           ranked_below rank R ps \<Longrightarrow> \<forall>q\<in>being (snd ts). R \<le> rank q \<Longrightarrow>
           fst ts < thr \<Longrightarrow> unat (fst ts) + factors_weight ps < 2 ^ 32 \<Longrightarrow>
           \<exists>s'. tally_permissions C delay thr depth ps ts =
                  Inr (unat thr \<le> unat (fst ts) + held_weight C delay ps, s') \<and>
                cache_exact C delay s' \<and> being s' \<subseteq> being (snd ts)"
    and "cache_exact C delay (snd ts) \<Longrightarrow> R \<le> unat (recursion_depth_limit C) - depth \<Longrightarrow>
           ranked_below rank R [Account_factor a] \<Longrightarrow> \<forall>q\<in>being (snd ts). R \<le> rank q \<Longrightarrow>
           \<exists>ts'. tally_account C delay depth a ts = Inr ts' \<and> tally_exact C delay (Account_factor a) ts ts'"
  using assms
proof (induction C delay auth depth s and C delay thr depth ps ts and C delay depth a ts
    arbitrary: R and R and R
    rule: satisfied_at_tally_permissions_tally_account.induct)
  case (1 C delay auth depth s)
  have fit: "total_weight_of auth < 2 ^ 32" using validate_fits [OF 1(3)] .
  have "0 < threshold auth" using 1(3) by (rule validate_threshold)
  with 1(1) [OF _ 1(4,5) _ _ _ 1(7,8)] 1(2,6) fit factors_weight_set [OF 1(7)]
  obtain s' where "tally_permissions C delay (threshold auth) depth (meta_permission_set C auth) (0, s) =
      Inr (unat (threshold auth) \<le> held_weight C delay (meta_permission_set C auth), s')"
    "cache_exact C delay s'" "being s' \<subseteq> being s" by auto
  then show ?case by (auto simp: satisfied_at.simps)
next
  case (2 C delay thr depth ts)
  then show ?case by (auto simp: word_less_nat_alt)
next
  case (3 C delay thr depth p ps ts)
  have "\<exists>ts'. (case p of
                 Wait_factor w \<Rightarrow> Inr (tally_wait delay w (fst ts), snd ts)
               | Key_factor k \<Rightarrow> Inr (tally_key C k ts)
               | Account_factor a \<Rightarrow> tally_account C delay depth a ts) = Inr ts' \<and> tally_exact C delay p ts ts'"
  proof (cases p)
    case (Account_factor a)
    have "ranked_below rank R [Account_factor a]" using 3(5) Account_factor by (auto simp: ranked_below_def)
    from 3(1) [OF Account_factor 3(3,4) this 3(6,9,10)] Account_factor show ?thesis by auto
  qed (simp_all add: tally_key_exact [OF 3(3)] tally_wait_exact [OF 3(3)])
  then obtain ts' where step: "(case p of
                 Wait_factor w \<Rightarrow> Inr (tally_wait delay w (fst ts), snd ts)
               | Key_factor k \<Rightarrow> Inr (tally_key C k ts)
               | Account_factor a \<Rightarrow> tally_account C delay depth a ts) = Inr ts'"
    and ex: "tally_exact C delay p ts ts'" by blast
  have sum: "unat (fst ts') = unat (fst ts) + held_weight C delay [p]"
    using ex 3(8) unat_add_ucast_fits [of "fst ts" "get_weight p"] by (auto simp: tally_exact_def)
  have "unat (fst ts') + factors_weight ps < 2 ^ 32"
    using sum 3(8) by (auto split: if_splits)
  note fit = this
  show ?case
  proof (cases "thr \<le> fst ts'")
    case True
    then have "unat thr \<le> unat (fst ts) + held_weight C delay (p # ps)" using sum by (simp add: word_le_nat_alt)
    with True ex show ?thesis by (auto simp: tally_permissions.simps step tally_exact_def)
  next
    case False
    have "cache_exact C delay (snd ts')" "\<forall>q\<in>being (snd ts'). R \<le> rank q"
      using ex 3(6) by (auto simp: tally_exact_def)
    moreover have "ranked_below rank R ps" using 3(5) by (auto simp: ranked_below_def)
    ultimately obtain s' where "tally_permissions C delay thr depth ps ts' =
          Inr (unat thr \<le> unat (fst ts') + held_weight C delay ps, s')"
        "cache_exact C delay s'" "being s' \<subseteq> being (snd ts')"
      using 3(2) [OF step False _ 3(4) _ _ _ fit 3(9,10)] False by (auto simp: not_le)
    moreover from this ex have "being s' \<subseteq> being (snd ts)" by (auto simp: tally_exact_def)
    moreover have "unat (fst ts') + held_weight C delay ps = unat (fst ts) + held_weight C delay (p # ps)"
      using sum by simp
    ultimately show ?thesis
      using False by (intro exI [of _ s']) (simp add: tally_permissions.simps step)
  qed
next
  case (4 C delay depth a ts)
  let ?q = "plw_permission a"
  have rank: "rank ?q < R" and nm: "named ?q" using 4(4) by (simp_all add: ranked_below_def)
  then have fresh: "?q \<notin> being (snd ts)" using 4(5) by auto
  have depth: "depth < unat (recursion_depth_limit C)" using rank 4(3) by simp
  show ?case
  proof (cases "permission_status_in_cache (cached_permissions (snd ts)) ?q")
    case (Some st)
    then show ?thesis
      using status_exact [OF 4(2) Some fresh] 4(2)
      by (auto simp: tally_account.simps tally_exact_def)
  next
    case None
    show ?thesis
    proof (cases "permission_to_authority C ?q")
      case (Inl e)
      then have "e = Permission_query_exception"
        using 4(7) [unfolded delegation_ranked_def, THEN spec, of ?q] nm by simp
      then show ?thesis
        using Inl None depth tally_account_missing [OF 4(2,6) None Inl] by (simp add: tally_account.simps)
    next
      case (Inr auth)
      let ?s1 = "(snd ts)\<lparr>cached_permissions := fm_emplace ?q Being_evaluated (cached_permissions (snd ts))\<rparr>"
      have auth: "permission ?q \<noteq> 0" "validate auth"
        "\<forall>b\<in>set (auth_accounts auth). named (plw_permission b) \<and> rank (plw_permission b) < rank ?q"
        using 4(7) [unfolded delegation_ranked_def, THEN spec, of ?q] Inr by (simp_all add: named_def)
      have "?s1 = (snd ts)\<lparr>cached_permissions := fm_set ?q Being_evaluated (cached_permissions (snd ts))\<rparr>"
        using status_None(3) [OF 4(2) None] by (simp add: fm_emplace_def)
      then have ce: "cache_exact C delay ?s1"
        using cache_exact_set [OF 4(2) status_None(1) [OF 4(2) None] auth(1), of Being_evaluated] by simp
      have be: "being ?s1 = insert ?q (being (snd ts))"
        using status_None(3) [OF 4(2) None] by (auto simp: being_def fm_find_emplace)
      have rb: "ranked_below rank (rank ?q) (meta_permission_set C auth)"
        using auth(3) by (auto simp: ranked_below_def set_meta_permission_set [OF 4(6)])
      have be': "\<forall>q\<in>being ?s1. rank ?q \<le> rank q" using be rank 4(5) by auto
      have dep: "rank ?q \<le> unat (recursion_depth_limit C) - (depth + 1)" using rank 4(3) by simp
      from 4(1) [OF None depth Inr ce auth(2) dep rb be' 4(6,7)] obtain s' where
        sat: "satisfied_at C delay auth (depth + 1) ?s1 =
          Inr (unat (threshold auth) \<le> held_weight C delay (meta_permission_set C auth), s')"
        "cache_exact C delay s'" "being s' \<subseteq> being ?s1" by blast
      from tally_account_evaluated [OF 4(2,6) None Inr auth(1) sat(2) sat(3) [unfolded be] refl]
      show ?thesis using None depth Inr sat(1) by (auto simp: tally_account.simps)
    qed
  qed
qed


section \<open>Properties\<close>

lemma find_initial_cache:
  "fm_find (initialize_permission_cache C) q =
     (if q \<in> set (provided_permissions C) then Some Permission_satisfied else None)"
proof -
  have "fm_find (fold (\<lambda>p c. fm_emplace p Permission_satisfied c) ps c) q =
      (if fm_find c q = None \<and> q \<in> set ps then Some Permission_satisfied else fm_find c q)" for ps c
    by (induction ps arbitrary: c) (auto simp: fm_find_emplace)
  from this [of "provided_permissions C" "[]"] show ?thesis
    by (simp add: initialize_permission_cache_def)
qed

lemma start_state_sel [simp]:
  "used_keys (start_state C used c) = used"
  "cached_permissions (start_state C used None) = initialize_permission_cache C"
  by (simp_all add: start_state_def)

lemma start_exact: "cache_exact C delay (start_state C used None)" "being (start_state C used None) = {}"
  by (auto simp: cache_exact_def being_def find_initial_cache granted_provided split: if_splits)

lemma start_sound: "cache_sound C delay (start_state C used None)"
  by (auto simp: cache_sound_def find_initial_cache granted_provided split: if_splits)

text \<open>Keys stay marked as used, and only keys of the provided list are ever marked.\<close>

definition used_le :: "bool list \<Rightarrow> bool list \<Rightarrow> bool" where
  "used_le u v \<longleftrightarrow> list_all2 (\<longrightarrow>) u v"

lemma used_le_refl [simp]: "used_le u u"
  by (simp add: used_le_def list_all2_refl)

lemma used_le_trans: "used_le u v \<Longrightarrow> used_le v w \<Longrightarrow> used_le u w"
  by (auto simp: used_le_def list_all2_conv_all_nth)

lemma used_le_mark: "used_le u (u[i := True])"
  by (auto simp: used_le_def list_all2_conv_all_nth) (metis nth_list_update_eq nth_list_update_neq)

lemma checker_used_induct:
  "satisfied_at C delay auth depth s = Inr rs \<Longrightarrow>
     used_le (used_keys s) (used_keys (snd rs)) \<and> (\<not> fst rs \<longrightarrow> used_keys (snd rs) = used_keys s)"
  "tally_permissions C delay thr depth ps ts = Inr rs \<Longrightarrow> used_le (used_keys (snd ts)) (used_keys (snd rs))"
  "tally_account C delay depth a ts = Inr ts' \<Longrightarrow>
     used_le (used_keys (snd ts)) (used_keys (snd ts')) \<and>
     (fst ts' = fst ts \<and> plw_weight a \<noteq> 0 \<longrightarrow> used_keys (snd ts') = used_keys (snd ts))"
proof (induction C delay auth depth s and C delay thr depth ps ts and C delay depth a ts
    arbitrary: rs and rs and ts'
    rule: satisfied_at_tally_permissions_tally_account.induct)
  case (1 C delay auth depth s)
  then show ?case by (fastforce simp: satisfied_at.simps res_simps)
next
  case (2 C delay thr depth ts)
  then show ?case by auto
next
  case (3 C delay thr depth p ps ts)
  from 3(3) obtain ts' where step: "(case p of
                 Wait_factor w \<Rightarrow> Inr (tally_wait delay w (fst ts), snd ts)
               | Key_factor k \<Rightarrow> Inr (tally_key C k ts)
               | Account_factor a \<Rightarrow> tally_account C delay depth a ts) = Inr ts'"
    and rest: "(if thr \<le> fst ts' then Inr (True, snd ts') else tally_permissions C delay thr depth ps ts') = Inr rs"
    by (auto simp: tally_permissions.simps bind_res_Inr)
  have one: "used_le (used_keys (snd ts)) (used_keys (snd ts'))"
  proof (cases p)
    case (Account_factor a)
    with 3(1) [OF Account_factor] step show ?thesis by simp
  next
    case (Key_factor k)
    with step show ?thesis by (auto simp: tally_key_def Let_def used_le_mark split: prod.splits if_splits)
  next
    case (Wait_factor w)
    with step show ?thesis by auto
  qed
  show ?case
  proof (cases "thr \<le> fst ts'")
    case True
    then show ?thesis using rest one by auto
  next
    case False
    then show ?thesis using 3(2) [OF step False, of rs] rest one used_le_trans by auto
  qed
next
  case (4 C delay depth a ts)
  have w: "(ucast (plw_weight a) :: 32 word) = 0 \<longleftrightarrow> plw_weight a = 0"
  proof -
    have "unat (plw_weight a) < 2 ^ 16" using unsigned_less [of "plw_weight a"] by simp
    then have "unat (ucast (plw_weight a) :: 32 word) = unat (plw_weight a)"
      using unat_add_ucast_fits [of 0 "plw_weight a"] by simp
    then show ?thesis by (metis unat_eq_zero)
  qed
  from 4(2) show ?case
    apply (subst (asm) tally_account.simps)
    apply (auto simp: bind_res_Inr w split: option.splits if_splits sum.splits dest!: 4(1))
    done
qed


text \<open>
  A concrete delegation for the witnesses: \<open>alice@active\<close> (actor 1, permission 5) needs key 10 and
  \<open>bob@active\<close> (actor 2, permission 5), who needs one of the keys 20 and 30 or a wait of ten seconds.
\<close>

definition ref_perm_sort :: "'k meta_permission list \<Rightarrow> 'k meta_permission list" where
  "ref_perm_sort ps = rev (sort_key (\<lambda>p. (get_weight p, which p)) ps)"

definition ex_pta :: "permission_level \<Rightarrow> nat authority res" where
  "ex_pta p =
     (if p = Permission_level 1 5
      then Inr \<lparr>threshold = 2, auth_keys = [\<lparr>kw_key = 10, kw_weight = 1\<rparr>],
                auth_accounts = [\<lparr>plw_permission = Permission_level 2 5, plw_weight = 1\<rparr>], auth_waits = []\<rparr>
      else if p = Permission_level 2 5
      then Inr \<lparr>threshold = 1, auth_keys = [\<lparr>kw_key = 20, kw_weight = 1\<rparr>, \<lparr>kw_key = 30, kw_weight = 1\<rparr>],
                auth_accounts = [], auth_waits = [\<lparr>ww_wait_sec = 10, ww_weight = 1\<rparr>]\<rparr>
      else Inl Permission_query_exception)"

definition ex_checker :: "nat authority_checker" where
  "ex_checker = \<lparr>permission_to_authority = ex_pta, provided_keys = [10, 30], provided_permissions = [],
                 recursion_depth_limit = 6, perm_sort = ref_perm_sort\<rparr>"


lemma ref_perm_sort_ok:
  assumes "perm_sort C = ref_perm_sort"
  shows "perm_sort_ok C"
proof -
  let ?f = "\<lambda>p. (get_weight p, which p)"
  have "sorted_wrt (\<lambda>a b. ?f b \<le> ?f a) (rev (sort_key ?f ps))" for ps :: "'a meta_permission list"
    unfolding sorted_wrt_rev using sorted_sort_key [of ?f ps] by (simp only: sorted_map)
  then show ?thesis
    unfolding perm_sort_ok_def assms ref_perm_sort_def meta_permission_comparator_def not_less by simp
qed

lemma ex_named: "pta_named ex_checker"
  by (auto simp: pta_named_def ex_checker_def ex_pta_def split: if_splits)

lemma ex_ranked: "delegation_ranked ex_checker (\<lambda>p. if actor p = 1 then 1 else 0)"
  by (auto simp: delegation_ranked_def ex_checker_def ex_pta_def validate_def named_def)

lemma checker_grants:
  assumes "perm_sort_ok C" and "pta_named C"
    and "satisfied_permission C delay p None used = Inr (True, s)"
  shows "granted C delay p"
proof -
  let ?a = "\<lparr>plw_permission = p, plw_weight = 1\<rparr>"
  obtain w where w: "tally_account C delay 0 ?a (0, start_state C used None) = Inr (w, s)" "0 < w"
    using assms(3) by (auto simp: satisfied_permission_def bind_res_Inr)
  from checker_sound_induct(3) [OF assms(1,2) w(1)] start_sound [of C delay used]
  have "unat w \<le> held_weight C delay [Account_factor ?a]" by (simp del: held_weight_Cons)
  with w(2) show ?thesis by (auto simp: word_less_nat_alt split: if_splits)
qed

text \<open>
  C5. Soundness of the authority checker: when \<open>satisfied\<close> answers true for a permission level,
  that level is granted by the provided keys, permissions and delay.  This holds for every
  permission graph, cycles included, at every recursion limit and even if a total of weights wraps,
  as long as the lookup knows no permission with the empty name (as \<^verbatim>\<open>get_permission\<close>
  guarantees) and the multiset of factors is a reordering of them.
\<close>
theorem satisfied_sound:
  assumes "perm_sort_ok C" and "pta_named C"
    and "satisfied_permission C delay p None used = Inr (True, s)"
  shows "granted C delay p"
  using assms by (rule checker_grants)

theorem satisfied_sound_witness: "granted ex_checker 0 (Permission_level 1 5)"
proof -
  have "satisfied_permission ex_checker 0 (Permission_level 1 5) None [False, False] =
      Inr (True, \<lparr>used_keys = [True, True],
                  cached_permissions = [(Permission_level 1 5, Permission_satisfied),
                                        (Permission_level 2 5, Permission_satisfied)]\<rparr>)"
    by code_simp
  then show ?thesis
    using satisfied_sound [OF ref_perm_sort_ok ex_named] by (simp add: ex_checker_def)
qed

text \<open>
  C6. Exactness of the authority checker: when the delegation between permissions has no cycle and
  is shorter than the recursion limit, stored authorities are valid, no empty name is involved and
  the only lookup failure is an unknown permission, \<open>satisfied\<close> always returns and answers true exactly when the permission
  level is granted.  The order in which factors are tried, the early exit at the threshold and the
  cache of permissions already evaluated do not change the answer.
\<close>
theorem satisfied_exact:
  assumes "perm_sort_ok C" and "delegation_ranked C rank" and "named p"
    and "rank p < unat (recursion_depth_limit C)"
  shows "\<exists>s. satisfied_permission C delay p None used = Inr (granted C delay p, s)"
proof -
  let ?a = "\<lparr>plw_permission = p, plw_weight = 1\<rparr>"
  have "Suc (rank p) \<le> unat (recursion_depth_limit C) - 0" "ranked_below rank (Suc (rank p)) [Account_factor ?a]"
    using assms(3,4) by (simp_all add: ranked_below_def)
  from checker_exact_induct(3) [where delay = delay and ts = "(0, start_state C used None)",
      OF assms(1,2) _ this]
  obtain ts' where "tally_account C delay 0 ?a (0, start_state C used None) = Inr ts'"
      "tally_exact C delay (Account_factor ?a) (0, start_state C used None) ts'"
    using start_exact(1) [of C delay used] start_exact(2) [of C used] by auto
  then show ?thesis by (cases ts') (auto simp: satisfied_permission_def tally_exact_def)
qed

theorem satisfied_exact_witness:
  "\<exists>s. satisfied_permission ex_checker 0 (Permission_level 1 5) None [False, False] =
       Inr (granted ex_checker 0 (Permission_level 1 5), s)"
  by (rule satisfied_exact [OF ref_perm_sort_ok ex_ranked]) (simp_all add: ex_checker_def named_def)

text \<open>
  C30. Keys that turn out not to be needed are given back: a check never unmarks a used key, marks
  only positions of the provided list, and one that answers false leaves the set of used keys as it
  was, whatever keys were tried on the way.
\<close>
theorem satisfied_reverts_keys:
  assumes "satisfied_permission C delay p cached used = Inr (r, s)"
  shows "used_le used (used_keys s) \<and> length (used_keys s) = length used \<and>
         (r \<or> used_keys s = used)"
proof -
  let ?a = "\<lparr>plw_permission = p, plw_weight = 1\<rparr>"
  obtain w where w: "tally_account C delay 0 ?a (0, start_state C used cached) = Inr (w, s)" "r = (0 < w)"
    using assms by (auto simp: satisfied_permission_def bind_res_Inr)
  from checker_used_induct(3) [OF w(1)]
  have "used_le used (used_keys s)" "w = 0 \<Longrightarrow> used_keys s = used" by simp_all
  then show ?thesis using w(2) by (auto simp: used_le_def list_all2_lengthD word_gt_0)
qed

theorem satisfied_reverts_keys_witness:
  "\<exists>s. satisfied_permission (ex_checker\<lparr>provided_keys := [10, 40]\<rparr>) 0 (Permission_level 1 5) None [False, False] =
       Inr (False, s) \<and> used_keys s = [False, False]"
proof -
  let ?C = "ex_checker\<lparr>provided_keys := [10, 40]\<rparr>"
  let ?s = "\<lparr>used_keys = [False, False],
             cached_permissions = [(Permission_level 1 5, Permission_unsatisfied),
                                   (Permission_level 2 5, Permission_unsatisfied)]\<rparr>"
  have s: "satisfied_permission ?C 0 (Permission_level 1 5) None [False, False] = Inr (False, ?s)"
    by code_simp
  with satisfied_reverts_keys [OF s] show ?thesis by (intro exI [of _ ?s]) simp
qed

end
