(* ===== verification/ChainTable.thy ===== *)
theory ChainTable
  imports Prelude
begin

text \<open>
  The tables of the chain database as native code sees them through
  \<^verbatim>\<open>chaindb/multi_index.hpp\<close>: rows in the order of their primary key, and the next key the
  cache hands out.  \<open>tbl_create\<close> follows \<^verbatim>\<open>create_cache_object\<close> in
  \<^verbatim>\<open>chaindb/controller.cpp\<close>: the cached counter when there is one, otherwise the successor of
  the largest key the driver knows.  A unique secondary index is a search for the row with the
  indexed fields.  The journal, the undo stack and the cache behind the tables are not visible here.

  The contract the managers rely on is the locale \<open>pk_table\<close>: a fresh key lies above every key in
  use, and a lookup after an insertion, a change or a removal returns what was written.
\<close>

section \<open>Operations\<close>

record 'r chain_table =
  rows :: "(64 word \<times> 'r) list"
  next_pk :: "64 word"

abbreviation pk_Unset :: "64 word" where "pk_Unset \<equiv> - 2"
abbreviation pk_End :: "64 word" where "pk_End \<equiv> - 1"

definition pk_is_good :: "64 word \<Rightarrow> bool" where
  "pk_is_good v \<longleftrightarrow> v \<noteq> pk_Unset \<and> v \<noteq> pk_End"

definition available_pk :: "'r chain_table \<Rightarrow> 64 word" where
  "available_pk t = (if rows t = [] then 0 else fst (last (rows t)) + 1)"

text \<open>\<^verbatim>\<open>cache_map::create\<close>: take the counter, and refuse a bad key or one in use.\<close>

definition get_next_pk :: "'r chain_table \<Rightarrow> (64 word \<times> 'r chain_table) option" where
  "get_next_pk t =
     (if next_pk t \<noteq> pk_Unset then Some (next_pk t, t\<lparr>next_pk := next_pk t + 1\<rparr>) else None)"

definition cache_create :: "64 word \<Rightarrow> 'r chain_table \<Rightarrow> unit res" where
  "cache_create pk t =
     bind_res (eos_assert (pk_is_good pk) Cache_primary_key_exception) (\<lambda>_.
       eos_assert (fm_find (rows t) pk = None) Driver_duplicate_exception)"

definition tbl_create :: "'r chain_table \<Rightarrow> (64 word \<times> 'r chain_table) res" where
  "tbl_create t =
     (case get_next_pk t of
        Some (pk, t') \<Rightarrow> bind_res (cache_create pk t) (\<lambda>_. Inr (pk, t'))
      | None \<Rightarrow>
          (case get_next_pk (t\<lparr>next_pk := available_pk t\<rparr>) of
             Some (pk, t') \<Rightarrow> bind_res (cache_create pk t) (\<lambda>_. Inr (pk, t'))
           | None \<Rightarrow> Inl Undefined_behaviour))"

definition tbl_emplace :: "'r \<Rightarrow> 'r chain_table \<Rightarrow> (64 word \<times> 'r chain_table) res" where
  "tbl_emplace row t =
     bind_res (tbl_create t) (\<lambda>(pk, t'). Inr (pk, t'\<lparr>rows := fm_set pk row (rows t')\<rparr>))"

definition tbl_emplace_at :: "64 word \<Rightarrow> 'r \<Rightarrow> 'r chain_table \<Rightarrow> 'r chain_table res" where
  "tbl_emplace_at pk row t =
     bind_res (cache_create pk t) (\<lambda>_. Inr (t\<lparr>rows := fm_set pk row (rows t)\<rparr>))"

definition tbl_find :: "'r chain_table \<Rightarrow> 64 word \<Rightarrow> 'r option" where
  "tbl_find t pk = fm_find (rows t) pk"

definition tbl_get :: "'r chain_table \<Rightarrow> 64 word \<Rightarrow> 'r res" where
  "tbl_get t pk =
     (case tbl_find t pk of Some r \<Rightarrow> Inr r | None \<Rightarrow> Inl Chaindb_midx_find_exception)"

definition tbl_modify :: "64 word \<Rightarrow> ('r \<Rightarrow> 'r) \<Rightarrow> 'r chain_table \<Rightarrow> 'r chain_table" where
  "tbl_modify pk f t =
     (case tbl_find t pk of Some r \<Rightarrow> t\<lparr>rows := fm_set pk (f r) (rows t)\<rparr> | None \<Rightarrow> t)"

definition tbl_erase :: "64 word \<Rightarrow> 'r chain_table \<Rightarrow> 'r chain_table" where
  "tbl_erase pk t = t\<lparr>rows := fm_erase pk (rows t)\<rparr>"

definition find_by :: "('r \<Rightarrow> bool) \<Rightarrow> 'r chain_table \<Rightarrow> (64 word \<times> 'r) option" where
  "find_by P t = List.find (\<lambda>(pk, r). P r) (rows t)"

definition empty_table :: "'r chain_table" where
  "empty_table = \<lparr>rows = [], next_pk = pk_Unset\<rparr>"

section \<open>The contract\<close>

definition tbl_keys :: "'r chain_table \<Rightarrow> (64 word) set" where
  "tbl_keys t = fst ` set (rows t)"

definition tbl_ok :: "'r chain_table \<Rightarrow> bool" where
  "tbl_ok t \<longleftrightarrow>
     fm_invar (rows t) \<and> (\<forall>pk \<in> tbl_keys t. pk_is_good pk) \<and>
     (next_pk t = pk_Unset \<or> (\<forall>pk \<in> tbl_keys t. pk < next_pk t))"

lemma good_unat: "pk_is_good v \<longleftrightarrow> unat v < 18446744073709551614"
proof -
  have a: "unat v < 18446744073709551616" using unsigned_less [of v] by simp
  have b: "unat pk_Unset = 18446744073709551614" by simp
  have c: "unat pk_End = 18446744073709551615"
    by (simp add: unsigned_minus_1_eq_mask mask_eq_exp_minus_1)
  have "pk_is_good v \<longleftrightarrow> unat v \<noteq> 18446744073709551614 \<and> unat v \<noteq> 18446744073709551615"
    unfolding pk_is_good_def word_unat_eq_iff [of v] b c ..
  also have "\<dots> \<longleftrightarrow> unat v < 18446744073709551614" using a by linarith
  finally show ?thesis .
qed

lemma good_succ: "pk_is_good v \<Longrightarrow> v < v + 1"
proof -
  assume "pk_is_good v"
  then have "unat v + unat (1 :: 64 word) < 2 ^ LENGTH(64)" by (simp add: good_unat)
  then have "unat (v + 1) = unat v + unat (1 :: 64 word)" using unat_add_lem [of v 1] by blast
  then show "v < v + 1" by (simp add: word_less_nat_alt)
qed

lemma fm_invar_last: "fm_invar m \<Longrightarrow> k \<in> fst ` set m \<Longrightarrow> k \<le> fst (last m)"
proof (induction m)
  case (Cons x m)
  obtain a w where x: "x = (a, w)" by force
  show ?case
  proof (cases "m = []")
    case False
    have *: "\<forall>j \<in> fst ` set m. a < j" "fm_invar m" using Cons.prems(1) by (simp_all add: x fm_invar_Cons)
    have "a < fst (last m)" using * False by (metis image_eqI last_in_set)
    then have "k = a \<Longrightarrow> ?thesis" using False by (simp add: x)
    moreover have "k \<noteq> a \<Longrightarrow> ?thesis" using Cons *(2) False by (simp add: x)
    ultimately show ?thesis by blast
  qed (use Cons.prems in auto)
qed simp

lemma available_pk_above:
  assumes "tbl_ok t" and "pk \<in> tbl_keys t"
  shows "pk < available_pk t"
proof -
  have ne: "rows t \<noteq> []" using assms(2) by (auto simp: tbl_keys_def)
  then have "pk_is_good (fst (last (rows t)))" using assms(1) by (simp add: tbl_ok_def tbl_keys_def)
  from good_succ [OF this] have "fst (last (rows t)) < available_pk t" using ne by (simp add: available_pk_def)
  moreover have "pk \<le> fst (last (rows t))" using assms fm_invar_last by (auto simp: tbl_ok_def tbl_keys_def)
  ultimately show ?thesis by simp
qed

lemma tbl_emplace_Inr:
  assumes "tbl_ok t" and "tbl_emplace row t = Inr (pk, t')"
  shows "\<forall>k \<in> tbl_keys t. k < pk"
    and "rows t' = fm_set pk row (rows t)" and "tbl_ok t'" and "pk_is_good pk"
proof -
  let ?n = "if next_pk t = pk_Unset then available_pk t else next_pk t"
  have "pk = ?n \<and> t' = t\<lparr>next_pk := ?n + 1, rows := fm_set ?n row (rows t)\<rparr> \<and> pk_is_good ?n"
    using assms(2)
    by (auto simp: tbl_emplace_def tbl_create_def get_next_pk_def cache_create_def bind_res_Inr eos_assert_Inr
        split: if_splits)
  moreover have "\<forall>k \<in> tbl_keys t. k < ?n" using assms(1) available_pk_above [OF assms(1)] by (auto simp: tbl_ok_def)
  ultimately have *: "(\<forall>k \<in> tbl_keys t. k < pk) \<and> rows t' = fm_set pk row (rows t) \<and>
     next_pk t' = pk + 1 \<and> pk_is_good pk" by simp
  then show "\<forall>k \<in> tbl_keys t. k < pk" "rows t' = fm_set pk row (rows t)" "pk_is_good pk" by auto
  have "tbl_keys t' = insert pk (tbl_keys t)" using * by (simp add: tbl_keys_def)
  moreover have "\<forall>k \<in> tbl_keys t. k < pk + 1" using * good_succ [of pk] by (meson less_trans)
  ultimately show "tbl_ok t'"
    using * assms(1) good_succ [of pk] by (simp add: tbl_ok_def fm_invar_set)
qed

lemma tbl_ok_modify [simp]: "tbl_ok t \<Longrightarrow> tbl_ok (tbl_modify pk f t)"
proof (cases "fm_find (rows t) pk")
  case (Some r)
  assume ok: "tbl_ok t"
  have "pk \<in> tbl_keys t" using fm_find_SomeD [OF Some] by (force simp: tbl_keys_def)
  then have "tbl_keys (tbl_modify pk f t) = tbl_keys t"
    using Some by (simp add: tbl_keys_def tbl_modify_def tbl_find_def insert_absorb)
  with ok Some show ?thesis by (simp add: tbl_ok_def tbl_modify_def tbl_find_def fm_invar_set)
qed (simp add: tbl_modify_def tbl_find_def)

lemma tbl_ok_erase [simp]: "tbl_ok t \<Longrightarrow> tbl_ok (tbl_erase pk t)"
proof -
  assume ok: "tbl_ok t"
  have "tbl_keys (tbl_erase pk t) \<subseteq> tbl_keys t"
    using set_keys_fm_erase_subset [of pk "rows t"] by (simp add: tbl_keys_def tbl_erase_def)
  with ok show ?thesis unfolding tbl_ok_def by (auto simp: tbl_erase_def fm_invar_erase)
qed

lemma tbl_find_emplace:
  "tbl_ok t \<Longrightarrow> tbl_emplace row t = Inr (pk, t') \<Longrightarrow>
     tbl_find t' k = (if k = pk then Some row else tbl_find t k)"
  using tbl_emplace_Inr(2) [of t row pk t'] by (simp add: tbl_find_def)

lemma tbl_find_modify: "tbl_find (tbl_modify pk f t) k = (if k = pk then map_option f (tbl_find t k) else tbl_find t k)"
  by (auto simp: tbl_modify_def tbl_find_def split: option.splits)

lemma tbl_find_erase: "tbl_ok t \<Longrightarrow> tbl_find (tbl_erase pk t) k = (if k = pk then None else tbl_find t k)"
  by (simp add: tbl_find_def tbl_erase_def fm_find_erase tbl_ok_def)

lemma tbl_find_in: "tbl_ok t \<Longrightarrow> tbl_find t pk = Some r \<longleftrightarrow> (pk, r) \<in> set (rows t)"
  by (simp add: tbl_find_def fm_find_Some_iff tbl_ok_def)

lemma find_SomeD: "List.find P xs = Some x \<Longrightarrow> x \<in> set xs \<and> P x"
  by (induction xs) (auto split: if_splits)

lemma find_by_Some: "tbl_ok t \<Longrightarrow> find_by P t = Some (pk, r) \<Longrightarrow> tbl_find t pk = Some r \<and> P r"
  by (auto simp: find_by_def tbl_find_in dest!: find_SomeD)

lemma find_by_None: "tbl_ok t \<Longrightarrow> find_by P t = None \<longleftrightarrow> (\<forall>pk r. tbl_find t pk = Some r \<longrightarrow> \<not> P r)"
  by (auto simp: find_by_def tbl_find_in find_None_iff)

lemma tbl_ok_empty [simp]: "tbl_ok empty_table"
  by (simp add: tbl_ok_def tbl_keys_def empty_table_def)

locale pk_table =
  fixes look :: "'t \<Rightarrow> 'k::linorder \<Rightarrow> 'r option"
    and insert_new :: "'r \<Rightarrow> 't \<Rightarrow> 'e + ('k \<times> 't)"
    and change :: "'k \<Rightarrow> ('r \<Rightarrow> 'r) \<Rightarrow> 't \<Rightarrow> 't"
    and drop_row :: "'k \<Rightarrow> 't \<Rightarrow> 't"
    and ok :: "'t \<Rightarrow> bool"
  assumes insert_ok: "ok t \<Longrightarrow> insert_new r t = Inr (k, t') \<Longrightarrow> ok t'"
    and insert_fresh: "ok t \<Longrightarrow> insert_new r t = Inr (k, t') \<Longrightarrow> look t j = Some q \<Longrightarrow> j < k"
    and insert_look: "ok t \<Longrightarrow> insert_new r t = Inr (k, t') \<Longrightarrow>
          look t' j = (if j = k then Some r else look t j)"
    and change_ok: "ok t \<Longrightarrow> ok (change k f t)"
    and change_look: "look (change k f t) j = (if j = k then map_option f (look t j) else look t j)"
    and drop_ok: "ok t \<Longrightarrow> ok (drop_row k t)"
    and drop_look: "ok t \<Longrightarrow> look (drop_row k t) j = (if j = k then None else look t j)"
begin

text \<open>
  Client reasoning, once for every table: a predicate on keys and rows that new, changed and
  untouched rows meet keeps holding for the table.
\<close>

lemma insert_all:
  assumes "ok t" and "insert_new r t = Inr (k, t')" and "\<And>j q. look t j = Some q \<Longrightarrow> P j q" and "P k r"
  shows "look t' j = Some q \<Longrightarrow> P j q"
  using assms insert_look [OF assms(1,2)] by (auto split: if_splits)

lemma change_all:
  assumes "\<And>j q. look t j = Some q \<Longrightarrow> P j q" and "\<And>q. look t k = Some q \<Longrightarrow> P k (f q)"
  shows "look (change k f t) j = Some q \<Longrightarrow> P j q"
  using assms by (auto simp: change_look split: if_splits)

lemma insert_not_found: "ok t \<Longrightarrow> insert_new r t = Inr (k, t') \<Longrightarrow> look t k = None"
  using insert_fresh [of t r k t' k] by (cases "look t k") auto

end

interpretation ct: pk_table tbl_find tbl_emplace tbl_modify tbl_erase tbl_ok
proof
  fix t t' :: "'r chain_table" and r k j q
  show "tbl_ok t \<Longrightarrow> tbl_emplace r t = Inr (k, t') \<Longrightarrow> tbl_ok t'" by (rule tbl_emplace_Inr)
  show "tbl_ok t \<Longrightarrow> tbl_emplace r t = Inr (k, t') \<Longrightarrow>
      tbl_find t' j = (if j = k then Some r else tbl_find t j)" by (rule tbl_find_emplace)
  show "tbl_ok t \<Longrightarrow> tbl_emplace r t = Inr (k, t') \<Longrightarrow> tbl_find t j = Some q \<Longrightarrow> j < k"
    using tbl_emplace_Inr(1) [of t r k t'] by (force simp: tbl_find_in tbl_keys_def)
qed (simp_all add: tbl_find_modify tbl_find_erase)

end
