(* ===== verification/AuthManager.thy ===== *)
theory AuthManager
  imports ChainTable AuthChecker
begin

text \<open>
  \<^verbatim>\<open>libraries/chain/authorization_manager.cpp\<close> with the rows it manages
  (\<^verbatim>\<open>permission_object.hpp\<close>, \<^verbatim>\<open>permission_link_object.hpp\<close>,
  \<^verbatim>\<open>generated_transaction_object.hpp\<close>).  A time is a number of microseconds.

  Parameters: \<open>'k\<close> public keys, \<open>'h\<close> transaction ids, \<open>'d\<close> packed action data, the record
  \<open>unpackers\<close> for \<^verbatim>\<open>fc::raw::unpack\<close>, and \<open>checktime\<close>, whose n-th call may throw.
  The walk up the parents of a permission is bounded by the number of permissions; a walk that
  visits more rows than there are runs forever in the code and is \<open>No_return\<close> here.
\<close>

section \<open>Names\<close>

definition system_account_name :: "64 word" where "system_account_name = string_to_name ''cyber''"
definition active_name :: "64 word" where "active_name = string_to_name ''active''"
definition owner_name :: "64 word" where "owner_name = string_to_name ''owner''"
definition eosio_any_name :: "64 word" where "eosio_any_name = string_to_name ''cyber.any''"
definition eosio_code_name :: "64 word" where "eosio_code_name = string_to_name ''cyber.code''"
definition updateauth_name :: "64 word" where "updateauth_name = string_to_name ''updateauth''"
definition deleteauth_name :: "64 word" where "deleteauth_name = string_to_name ''deleteauth''"
definition linkauth_name :: "64 word" where "linkauth_name = string_to_name ''linkauth''"
definition unlinkauth_name :: "64 word" where "unlinkauth_name = string_to_name ''unlinkauth''"
definition canceldelay_name :: "64 word" where "canceldelay_name = string_to_name ''canceldelay''"

text \<open>Their values, which also replace the definitions when a witness is evaluated.\<close>

lemma name_values [code]:
  "system_account_name = 5156247189629960192"
  "active_name = 3617214756542218240"
  "owner_name = 12044502819693133824"
  "eosio_any_name = 5156247193185681408"
  "eosio_code_name = 5156247194265354240"
  "updateauth_name = 15371467950649982976"
  "deleteauth_name = 5378050746259030016"
  "linkauth_name = 10063015651234021376"
  "unlinkauth_name = 15340080295291076608"
  "canceldelay_name = 4730614990712192000"
  by code_simp+

definition unlinkable :: "64 word \<Rightarrow> bool" where
  "unlinkable act_name \<longleftrightarrow>
     act_name \<in> {updateauth_name, deleteauth_name, linkauth_name, unlinkauth_name, canceldelay_name}"

section \<open>State\<close>

record 'k permission_object =
  po_usage_id :: "64 word"
  po_parent :: "64 word"
  po_owner :: "64 word"
  po_name :: "64 word"
  po_last_updated :: int
  po_auth :: "'k authority"

record permission_link_object =
  pl_account :: "64 word"
  pl_code :: "64 word"
  pl_message_type :: "64 word"
  pl_required_permission :: "64 word"

record ('h, 'd) generated_transaction_object =
  gto_trx_id :: 'h
  gto_sender :: "64 word"
  gto_sender_id :: "128 word"
  gto_delay_until :: int
  gto_expiration :: int
  gto_published :: int
  gto_packed_trx :: 'd

record ('k, 'h, 'd) auth_db =
  permissions :: "'k permission_object chain_table"
  usages :: "int chain_table"
  links :: "permission_link_object chain_table"
  generated :: "('h, 'd) generated_transaction_object chain_table"
  pending_block_time :: int
  max_transaction_delay :: "32 word"
  max_authority_depth :: "16 word"

record 'k updateauth =
  ua_account :: "64 word"
  ua_permission :: "64 word"
  ua_parent :: "64 word"
  ua_auth :: "'k authority"

record deleteauth =
  da_account :: "64 word"
  da_permission :: "64 word"

record linkauth =
  la_account :: "64 word"
  la_code :: "64 word"
  la_type :: "64 word"
  la_requirement :: "64 word"

record unlinkauth =
  ul_account :: "64 word"
  ul_code :: "64 word"
  ul_type :: "64 word"

record 'h canceldelay =
  cd_canceling_auth :: permission_level
  cd_trx_id :: 'h

record 'd action =
  act_account :: "64 word"
  act_name :: "64 word"
  act_authorization :: "permission_level list"
  act_data :: 'd

record ('k, 'h, 'd) unpackers =
  unpack_updateauth :: "'d \<Rightarrow> 'k updateauth res"
  unpack_deleteauth :: "'d \<Rightarrow> deleteauth res"
  unpack_linkauth :: "'d \<Rightarrow> linkauth res"
  unpack_unlinkauth :: "'d \<Rightarrow> unlinkauth res"
  unpack_canceldelay :: "'d \<Rightarrow> 'h canceldelay res"
  unpack_actions :: "'d \<Rightarrow> 'd action list res"

section \<open>Permissions\<close>

definition initialize_database :: "('k, 'h, 'd) auth_db \<Rightarrow> ('k, 'h, 'd) auth_db res" where
  "initialize_database db =
     bind_res (tbl_emplace \<lparr>po_usage_id = 0, po_parent = 0, po_owner = 0, po_name = 0, po_last_updated = 0,
                            po_auth = \<lparr>threshold = 0, auth_keys = [], auth_accounts = [], auth_waits = []\<rparr>\<rparr>
                 (permissions db))
       (\<lambda>(pk, t). Inr (db\<lparr>permissions := t\<rparr>))"

definition create_permission ::
  "64 word \<Rightarrow> 64 word \<Rightarrow> 64 word \<Rightarrow> 'k authority \<Rightarrow> int \<Rightarrow> ('k, 'h, 'd) auth_db
     \<Rightarrow> (64 word \<times> ('k, 'h, 'd) auth_db) res" where
  "create_permission account name_v parent auth initial_creation_time db =
     (let creation_time = (if initial_creation_time = 0 then pending_block_time db else initial_creation_time) in
      bind_res (tbl_emplace creation_time (usages db)) (\<lambda>(usage_id, us).
      bind_res (tbl_emplace \<lparr>po_usage_id = usage_id, po_parent = parent, po_owner = account, po_name = name_v,
                             po_last_updated = creation_time, po_auth = auth\<rparr> (permissions db)) (\<lambda>(pk, ps).
        Inr (pk, db\<lparr>usages := us, permissions := ps\<rparr>))))"

definition modify_permission ::
  "64 word \<Rightarrow> 'k authority \<Rightarrow> ('k, 'h, 'd) auth_db \<Rightarrow> ('k, 'h, 'd) auth_db" where
  "modify_permission pk auth db =
     db\<lparr>permissions :=
          tbl_modify pk (\<lambda>po. po\<lparr>po_auth := auth, po_last_updated := pending_block_time db\<rparr>) (permissions db)\<rparr>"

definition remove_permission ::
  "64 word \<times> 'k permission_object \<Rightarrow> ('k, 'h, 'd) auth_db \<Rightarrow> ('k, 'h, 'd) auth_db res" where
  "remove_permission = (\<lambda>(pk, po) db.
     bind_res (eos_assert (find_by (\<lambda>c. po_parent c = pk) (permissions db) = None) Action_validate_exception) (\<lambda>_.
       Inr (db\<lparr>usages := tbl_erase (po_usage_id po) (usages db),
               permissions := tbl_erase pk (permissions db)\<rparr>)))"

definition update_permission_usage ::
  "'k permission_object \<Rightarrow> ('k, 'h, 'd) auth_db \<Rightarrow> ('k, 'h, 'd) auth_db res" where
  "update_permission_usage po db =
     bind_res (tbl_get (usages db) (po_usage_id po)) (\<lambda>_.
       Inr (db\<lparr>usages := tbl_modify (po_usage_id po) (\<lambda>_. pending_block_time db) (usages db)\<rparr>))"

definition get_permission_last_used :: "'k permission_object \<Rightarrow> ('k, 'h, 'd) auth_db \<Rightarrow> int res" where
  "get_permission_last_used po db = tbl_get (usages db) (po_usage_id po)"

text \<open>
  \<^verbatim>\<open>EOS_RETHROW_EXCEPTIONS\<close> lets exceptions derived from \<^verbatim>\<open>chain_exception\<close> through and turns
  every other one, such as the missing key of the multi-index, into
  \<^verbatim>\<open>permission_query_exception\<close>.
\<close>

definition find_permission ::
  "permission_level \<Rightarrow> ('k, 'h, 'd) auth_db \<Rightarrow> (64 word \<times> 'k permission_object) option res" where
  "find_permission level db =
     bind_res (eos_assert (actor level \<noteq> 0 \<and> permission level \<noteq> 0) Invalid_permission) (\<lambda>_.
       Inr (find_by (\<lambda>po. po_owner po = actor level \<and> po_name po = permission level) (permissions db)))"

definition get_permission ::
  "permission_level \<Rightarrow> ('k, 'h, 'd) auth_db \<Rightarrow> (64 word \<times> 'k permission_object) res" where
  "get_permission level db =
     bind_res (eos_assert (actor level \<noteq> 0 \<and> permission level \<noteq> 0) Invalid_permission) (\<lambda>_.
       (case find_by (\<lambda>po. po_owner po = actor level \<and> po_name po = permission level) (permissions db) of
          Some p \<Rightarrow> Inr p
        | None \<Rightarrow> Inl Permission_query_exception))"

text \<open>\<open>walk_parents\<close> is the loop of \<open>satisfies\<close> at the row \<open>cur\<close>.\<close>

fun walk_parents :: "nat \<Rightarrow> 'k permission_object chain_table \<Rightarrow> 64 word \<Rightarrow> 64 word \<Rightarrow> bool res" where
  "walk_parents 0 t this cur = Inl No_return"
| "walk_parents (Suc fuel) t this cur =
     (case tbl_find t cur of
        None \<Rightarrow> Inr False
      | Some po \<Rightarrow>
          if this = po_parent po then Inr True
          else if po_parent po = 0 then Inr False
          else walk_parents fuel t this (po_parent po))"

definition satisfies ::
  "64 word \<times> 'k permission_object \<Rightarrow> 64 word \<times> 'k permission_object \<Rightarrow> 'k permission_object chain_table
     \<Rightarrow> bool res" where
  "satisfies = (\<lambda>(this, po) (other, oo) t.
     if po_owner po \<noteq> po_owner oo then Inr False
     else if this = other \<or> this = po_parent oo then Inr True
     else walk_parents (Suc (length (rows t))) t this (po_parent oo))"

definition lookup_linked_permission ::
  "64 word \<Rightarrow> 64 word \<Rightarrow> 64 word \<Rightarrow> ('k, 'h, 'd) auth_db \<Rightarrow> (64 word) option" where
  "lookup_linked_permission authorizer_account scope act db =
     (let look = (\<lambda>ty. find_by (\<lambda>l. pl_account l = authorizer_account \<and> pl_code l = scope \<and>
                                    pl_message_type l = ty) (links db))
      in case look act of
           Some (_, l) \<Rightarrow> Some (pl_required_permission l)
         | None \<Rightarrow> (case look 0 of Some (_, l) \<Rightarrow> Some (pl_required_permission l) | None \<Rightarrow> None))"

definition lookup_minimum_permission ::
  "64 word \<Rightarrow> 64 word \<Rightarrow> 64 word \<Rightarrow> ('k, 'h, 'd) auth_db \<Rightarrow> (64 word) option res" where
  "lookup_minimum_permission authorizer_account scope act db =
     bind_res (eos_assert (scope = system_account_name \<longrightarrow> \<not> unlinkable act) Unlinkable_min_permission_action)
       (\<lambda>_. case lookup_linked_permission authorizer_account scope act db of
               None \<Rightarrow> Inr (Some active_name)
             | Some p \<Rightarrow> if p = eosio_any_name then Inr None else Inr (Some p))"

section \<open>Authorization of the native actions\<close>

text \<open>A declared authorization has to satisfy a minimum permission.\<close>

definition require_satisfies ::
  "permission_level \<Rightarrow> 64 word \<times> 'k permission_object \<Rightarrow> ('k, 'h, 'd) auth_db \<Rightarrow> unit res" where
  "require_satisfies auth min_permission db =
     bind_res (get_permission auth db) (\<lambda>p.
     bind_res (satisfies p min_permission (permissions db)) (\<lambda>b.
       eos_assert b Irrelevant_auth_exception))"

definition check_updateauth_authorization ::
  "'k updateauth \<Rightarrow> permission_level list \<Rightarrow> ('k, 'h, 'd) auth_db \<Rightarrow> unit res" where
  "check_updateauth_authorization update auths db =
     bind_res (eos_assert (length auths = 1) Irrelevant_auth_exception) (\<lambda>_.
     let auth = hd auths in
     bind_res (eos_assert (actor auth = ua_account update) Irrelevant_auth_exception) (\<lambda>_.
     bind_res (find_permission (Permission_level (ua_account update) (ua_permission update)) db) (\<lambda>found.
     bind_res (case found of
                 Some p \<Rightarrow> Inr p
               | None \<Rightarrow> get_permission (Permission_level (ua_account update) (ua_parent update)) db)
       (\<lambda>min_permission. require_satisfies auth min_permission db))))"

definition check_deleteauth_authorization ::
  "deleteauth \<Rightarrow> permission_level list \<Rightarrow> ('k, 'h, 'd) auth_db \<Rightarrow> unit res" where
  "check_deleteauth_authorization del auths db =
     bind_res (eos_assert (length auths = 1) Irrelevant_auth_exception) (\<lambda>_.
     let auth = hd auths in
     bind_res (eos_assert (actor auth = da_account del) Irrelevant_auth_exception) (\<lambda>_.
     bind_res (get_permission (Permission_level (da_account del) (da_permission del)) db) (\<lambda>min_permission.
       require_satisfies auth min_permission db)))"

definition check_linkauth_authorization ::
  "linkauth \<Rightarrow> permission_level list \<Rightarrow> ('k, 'h, 'd) auth_db \<Rightarrow> unit res" where
  "check_linkauth_authorization link auths db =
     bind_res (eos_assert (length auths = 1) Irrelevant_auth_exception) (\<lambda>_.
     let auth = hd auths in
     bind_res (eos_assert (actor auth = la_account link) Irrelevant_auth_exception) (\<lambda>_.
     bind_res (eos_assert (\<not> unlinkable (la_type link)) Action_validate_exception) (\<lambda>_.
     bind_res (lookup_minimum_permission (la_account link) (la_code link) (la_type link) db) (\<lambda>linked.
       case linked of
         None \<Rightarrow> Inr ()
       | Some n \<Rightarrow>
           bind_res (get_permission auth db) (\<lambda>p.
           bind_res (get_permission (Permission_level (la_account link) n) db) (\<lambda>m.
           bind_res (satisfies p m (permissions db)) (\<lambda>b. eos_assert b Irrelevant_auth_exception)))))))"

definition check_unlinkauth_authorization ::
  "unlinkauth \<Rightarrow> permission_level list \<Rightarrow> ('k, 'h, 'd) auth_db \<Rightarrow> unit res" where
  "check_unlinkauth_authorization unlink auths db =
     bind_res (eos_assert (length auths = 1) Irrelevant_auth_exception) (\<lambda>_.
     let auth = hd auths in
     bind_res (eos_assert (actor auth = ul_account unlink) Irrelevant_auth_exception) (\<lambda>_.
       case lookup_linked_permission (ul_account unlink) (ul_code unlink) (ul_type unlink) db of
         None \<Rightarrow> Inl Transaction_exception
       | Some n \<Rightarrow>
           if n = eosio_any_name then Inr ()
           else
             bind_res (get_permission auth db) (\<lambda>p.
             bind_res (get_permission (Permission_level (ul_account unlink) n) db) (\<lambda>m.
             bind_res (satisfies p m (permissions db)) (\<lambda>b. eos_assert b Irrelevant_auth_exception)))))"

text \<open>
  The index by transaction id is unique, so its lower bound with that id is the row with that id.
\<close>

definition check_canceldelay_authorization ::
  "('k, 'h, 'd) unpackers \<Rightarrow> 'h canceldelay \<Rightarrow> permission_level list \<Rightarrow> ('k, 'h, 'd) auth_db \<Rightarrow> int res" where
  "check_canceldelay_authorization U cancel auths db =
     bind_res (eos_assert (length auths = 1) Irrelevant_auth_exception) (\<lambda>_.
     let auth = hd auths in
     bind_res (get_permission auth db) (\<lambda>p.
     bind_res (get_permission (cd_canceling_auth cancel) db) (\<lambda>m.
     bind_res (satisfies p m (permissions db)) (\<lambda>b.
     bind_res (eos_assert b Irrelevant_auth_exception) (\<lambda>_.
       case find_by (\<lambda>g. gto_trx_id g = cd_trx_id cancel) (generated db) of
         None \<Rightarrow> Inl Tx_not_found
       | Some (_, g) \<Rightarrow>
           bind_res (eos_assert (gto_sender g = 0) Tx_not_found) (\<lambda>_.
           bind_res (unpack_actions U (gto_packed_trx g)) (\<lambda>acts.
           bind_res (eos_assert (list_ex (\<lambda>act. cd_canceling_auth cancel \<in> set (act_authorization act)) acts)
                       Action_validate_exception) (\<lambda>_.
             Inr (gto_delay_until g - gto_published g)))))))))"


section \<open>Authorization of transactions\<close>

definition effective_delay :: "int \<Rightarrow> ('k, 'h, 'd) auth_db \<Rightarrow> int" where
  "effective_delay provided_delay db =
     (if provided_delay \<ge> uint (max_transaction_delay db) * 1000000 then 2 ^ 63 - 1 else provided_delay)"

definition make_auth_checker ::
  "('k meta_permission list \<Rightarrow> 'k meta_permission list) \<Rightarrow> 'k list \<Rightarrow> permission_level list \<Rightarrow> ('k, 'h, 'd) auth_db
     \<Rightarrow> 'k authority_checker" where
  "make_auth_checker srt keys perms db =
     \<lparr>permission_to_authority = (\<lambda>p. bind_res (get_permission p db) (\<lambda>(_, po). Inr (po_auth po))),
      provided_keys = keys, provided_permissions = perms,
      recursion_depth_limit = max_authority_depth db, perm_sort = srt\<rparr>"

text \<open>The dispatch on native actions: whether the action was one of them, and the delay to use.\<close>

definition check_native ::
  "('k, 'h, 'd) unpackers \<Rightarrow> 'd action \<Rightarrow> int \<Rightarrow> ('k, 'h, 'd) auth_db \<Rightarrow> (bool \<times> int) res" where
  "check_native U act delay db =
     (if act_account act \<noteq> system_account_name then Inr (False, delay)
      else if act_name act = updateauth_name then
        bind_res (unpack_updateauth U (act_data act)) (\<lambda>d.
        bind_res (check_updateauth_authorization d (act_authorization act) db) (\<lambda>_. Inr (True, delay)))
      else if act_name act = deleteauth_name then
        bind_res (unpack_deleteauth U (act_data act)) (\<lambda>d.
        bind_res (check_deleteauth_authorization d (act_authorization act) db) (\<lambda>_. Inr (True, delay)))
      else if act_name act = linkauth_name then
        bind_res (unpack_linkauth U (act_data act)) (\<lambda>d.
        bind_res (check_linkauth_authorization d (act_authorization act) db) (\<lambda>_. Inr (True, delay)))
      else if act_name act = unlinkauth_name then
        bind_res (unpack_unlinkauth U (act_data act)) (\<lambda>d.
        bind_res (check_unlinkauth_authorization d (act_authorization act) db) (\<lambda>_. Inr (True, delay)))
      else if act_name act = canceldelay_name then
        bind_res (unpack_canceldelay U (act_data act)) (\<lambda>d.
        bind_res (check_canceldelay_authorization U d (act_authorization act) db) (\<lambda>x.
          Inr (True, max delay x)))
      else Inr (False, delay))"

text \<open>What an action that is not native requires of a declared authorization.\<close>

definition check_minimum ::
  "'d action \<Rightarrow> permission_level \<Rightarrow> ('k, 'h, 'd) auth_db \<Rightarrow> unit res" where
  "check_minimum act declared_auth db =
     bind_res (lookup_minimum_permission (actor declared_auth) (act_account act) (act_name act) db) (\<lambda>min_name.
       case min_name of
         None \<Rightarrow> Inr ()
       | Some n \<Rightarrow>
           bind_res (get_permission (Permission_level (actor declared_auth) n) db) (\<lambda>min_permission.
             require_satisfies declared_auth min_permission db))"

type_synonym to_satisfy = "(permission_level \<times> int) list"

definition note_permission :: "permission_level \<Rightarrow> int \<Rightarrow> to_satisfy \<Rightarrow> to_satisfy" where
  "note_permission p delay m =
     (case fm_find m p of
        None \<Rightarrow> fm_set p delay m
      | Some d \<Rightarrow> if d > delay then fm_set p delay m else m)"

definition collect_auth ::
  "(nat \<Rightarrow> unit res) \<Rightarrow> permission_level list \<Rightarrow> ('k, 'h, 'd) auth_db \<Rightarrow> 'd action \<Rightarrow> bool \<Rightarrow> int
     \<Rightarrow> permission_level \<Rightarrow> nat \<times> to_satisfy \<Rightarrow> (nat \<times> to_satisfy) res" where
  "collect_auth checktime satisfied db act special delay declared_auth = (\<lambda>(n, m).
     bind_res (checktime n) (\<lambda>_.
     bind_res (if special then Inr () else check_minimum act declared_auth db) (\<lambda>_.
       Inr (Suc n, if declared_auth \<in> set satisfied then m else note_permission declared_auth delay m))))"

definition collect_action ::
  "(nat \<Rightarrow> unit res) \<Rightarrow> ('k, 'h, 'd) unpackers \<Rightarrow> permission_level list \<Rightarrow> int \<Rightarrow> ('k, 'h, 'd) auth_db
     \<Rightarrow> 'd action \<Rightarrow> nat \<times> to_satisfy \<Rightarrow> (nat \<times> to_satisfy) res" where
  "collect_action checktime U satisfied eff db act s =
     bind_res (check_native U act eff db) (\<lambda>(special, delay).
       fold_res (collect_auth checktime satisfied db act special delay) (act_authorization act) s)"

definition check_permission ::
  "(nat \<Rightarrow> unit res) \<Rightarrow> 'k authority_checker \<Rightarrow> permission_level \<times> int \<Rightarrow> nat \<times> bool list
     \<Rightarrow> (nat \<times> bool list) res" where
  "check_permission checktime C = (\<lambda>(p, delay) (n, used).
     bind_res (checktime n) (\<lambda>_.
     bind_res (satisfied_permission C delay p None used) (\<lambda>(b, s).
     bind_res (eos_assert b Unsatisfied_authorization) (\<lambda>_. Inr (Suc n, used_keys s)))))"

definition check_authorization ::
  "('k meta_permission list \<Rightarrow> 'k meta_permission list) \<Rightarrow> (nat \<Rightarrow> unit res) \<Rightarrow> ('k, 'h, 'd) unpackers
     \<Rightarrow> 'd action list \<Rightarrow> 'k list \<Rightarrow> permission_level list \<Rightarrow> int \<Rightarrow> bool \<Rightarrow> permission_level list
     \<Rightarrow> ('k, 'h, 'd) auth_db \<Rightarrow> unit res" where
  "check_authorization srt checktime U actions keys perms provided_delay allow_unused_keys satisfied db =
     (let eff = effective_delay provided_delay db;
          C = make_auth_checker srt keys perms db
      in bind_res (fold_res (collect_action checktime U satisfied eff db) actions (0, [])) (\<lambda>(n, m).
         bind_res (fold_res (check_permission checktime C) m (n, authority_checker_init C)) (\<lambda>(n', used).
           eos_assert (allow_unused_keys \<or> all_keys_used used) Tx_irrelevant_sig)))"

definition check_authorization_of ::
  "('k meta_permission list \<Rightarrow> 'k meta_permission list) \<Rightarrow> permission_level \<Rightarrow> 'k list \<Rightarrow> permission_level list
     \<Rightarrow> int \<Rightarrow> bool \<Rightarrow> ('k, 'h, 'd) auth_db \<Rightarrow> unit res" where
  "check_authorization_of srt level keys perms provided_delay allow_unused_keys db =
     (let C = make_auth_checker srt keys perms db
      in bind_res (satisfied_permission C (effective_delay provided_delay db) level None (authority_checker_init C)) (\<lambda>(b, s).
         bind_res (eos_assert b Unsatisfied_authorization) (\<lambda>_.
           eos_assert (allow_unused_keys \<or> all_keys_used (used_keys s)) Tx_irrelevant_sig)))"

definition get_required_keys ::
  "('k meta_permission list \<Rightarrow> 'k meta_permission list) \<Rightarrow> 'd action list \<Rightarrow> 'k list \<Rightarrow> int \<Rightarrow> ('k, 'h, 'd) auth_db
     \<Rightarrow> 'k list res" where
  "get_required_keys srt actions candidate_keys provided_delay db =
     (let C = make_auth_checker srt candidate_keys [] db
      in bind_res (fold_res (\<lambda>act. fold_res (\<lambda>declared_auth used.
             bind_res (satisfied_permission C provided_delay declared_auth None used) (\<lambda>(b, s).
             bind_res (eos_assert b Unsatisfied_authorization) (\<lambda>_. Inr (used_keys s)))) (act_authorization act))
           actions (authority_checker_init C)) (\<lambda>used. Inr (used_key_set C used)))"

section \<open>The permission forest\<close>

text \<open>
  Row 0 is the reserved permission.  Every other permission has an owner and a name that no other
  row shares, a valid authority, a usage row of its own, and a parent of the same owner with a
  smaller id, or no parent (0).
\<close>

definition perm_row_ok ::
  "('k::linorder, 'h, 'd) auth_db \<Rightarrow> 64 word \<Rightarrow> 'k permission_object \<Rightarrow> bool" where
  "perm_row_ok db pk po \<longleftrightarrow>
     po_owner po \<noteq> 0 \<and> po_name po \<noteq> 0 \<and> po_parent po < pk \<and> validate (po_auth po) \<and>
     tbl_find (usages db) (po_usage_id po) \<noteq> None \<and>
     (po_parent po \<noteq> 0 \<longrightarrow> (\<exists>pp. tbl_find (permissions db) (po_parent po) = Some pp \<and> po_owner pp = po_owner po))"

definition names_unique :: "('k, 'h, 'd) auth_db \<Rightarrow> bool" where
  "names_unique db \<longleftrightarrow>
     (\<forall>pk po qk qo. tbl_find (permissions db) pk = Some po \<longrightarrow> tbl_find (permissions db) qk = Some qo \<longrightarrow>
        po_owner po = po_owner qo \<longrightarrow> po_name po = po_name qo \<longrightarrow> pk = qk)"

definition usages_unique :: "('k, 'h, 'd) auth_db \<Rightarrow> bool" where
  "usages_unique db \<longleftrightarrow>
     (\<forall>pk po qk qo. tbl_find (permissions db) pk = Some po \<longrightarrow> tbl_find (permissions db) qk = Some qo \<longrightarrow>
        pk \<noteq> 0 \<longrightarrow> qk \<noteq> 0 \<longrightarrow> po_usage_id po = po_usage_id qo \<longrightarrow> pk = qk)"

definition auth_db_ok :: "('k::linorder, 'h, 'd) auth_db \<Rightarrow> bool" where
  "auth_db_ok db \<longleftrightarrow>
     tbl_ok (permissions db) \<and> tbl_ok (usages db) \<and>
     (\<exists>po. tbl_find (permissions db) 0 = Some po \<and> po_owner po = 0 \<and> po_name po = 0 \<and> po_parent po = 0) \<and>
     (\<forall>pk po. pk \<noteq> 0 \<longrightarrow> tbl_find (permissions db) pk = Some po \<longrightarrow> perm_row_ok db pk po) \<and>
     names_unique db \<and> usages_unique db"

text \<open>The parent relation, and what it is for a permission to be above another.\<close>

inductive below :: "'k permission_object chain_table \<Rightarrow> 64 word \<Rightarrow> 64 word \<Rightarrow> bool" for t where
  below_self: "tbl_find t pk = Some po \<Longrightarrow> below t pk pk"
| below_step: "tbl_find t pk = Some po \<Longrightarrow> po_parent po \<noteq> 0 \<Longrightarrow> below t (po_parent po) anc \<Longrightarrow> below t pk anc"


section \<open>Lemmas\<close>

lemma db_perm_ok: "auth_db_ok db \<Longrightarrow> tbl_ok (permissions db)" "auth_db_ok db \<Longrightarrow> tbl_ok (usages db)"
  by (simp_all add: auth_db_ok_def)

lemma db_row:
  "auth_db_ok db \<Longrightarrow> tbl_find (permissions db) pk = Some po \<Longrightarrow> pk \<noteq> 0 \<Longrightarrow> perm_row_ok db pk po"
  by (simp add: auth_db_ok_def)

lemma db_zero:
  assumes "auth_db_ok db"
  obtains po where "tbl_find (permissions db) 0 = Some po" "po_owner po = 0" "po_name po = 0" "po_parent po = 0"
proof -
  have "\<exists>po. tbl_find (permissions db) 0 = Some po \<and> po_owner po = 0 \<and> po_name po = 0 \<and> po_parent po = 0"
    using assms unfolding auth_db_ok_def by (elim conjE)
  then show ?thesis using that by blast
qed

lemma db_row_zero:
  assumes "auth_db_ok db" and "tbl_find (permissions db) 0 = Some po"
  shows "po_owner po = 0" "po_name po = 0" "po_parent po = 0"
  by (rule db_zero [OF assms(1)], use assms(2) in simp)+

lemma db_unique:
  assumes "auth_db_ok db" "tbl_find (permissions db) pk = Some po" "tbl_find (permissions db) qk = Some qo"
    "po_owner po = po_owner qo" "po_name po = po_name qo"
  shows "pk = qk"
proof -
  have "names_unique db" using assms(1) by (simp add: auth_db_ok_def)
  from this [unfolded names_unique_def, rule_format, OF assms(2-)] show ?thesis .
qed

lemma db_usage_unique:
  assumes "auth_db_ok db" "tbl_find (permissions db) pk = Some po" "tbl_find (permissions db) qk = Some qo"
    "pk \<noteq> 0" "qk \<noteq> 0" "po_usage_id po = po_usage_id qo"
  shows "pk = qk"
proof -
  have "usages_unique db" using assms(1) by (simp add: auth_db_ok_def)
  from this [unfolded usages_unique_def, rule_format, OF assms(2-)] show ?thesis .
qed

lemma below_iff:
  assumes "tbl_find t pk = Some po"
  shows "below t pk anc \<longleftrightarrow> anc = pk \<or> po_parent po \<noteq> 0 \<and> below t (po_parent po) anc"
proof
  assume "below t pk anc"
  then show "anc = pk \<or> po_parent po \<noteq> 0 \<and> below t (po_parent po) anc"
    by cases (use assms in auto)
next
  assume "anc = pk \<or> po_parent po \<noteq> 0 \<and> below t (po_parent po) anc"
  then show "below t pk anc"
    using below_self [OF assms] below_step [OF assms] by blast
qed

lemma below_zero:
  assumes "auth_db_ok db"
  shows "below (permissions db) 0 anc \<longleftrightarrow> anc = 0"
proof -
  obtain po where po: "tbl_find (permissions db) 0 = Some po" "po_parent po = 0"
    by (rule db_zero [OF assms])
  show ?thesis using po(2) by (subst below_iff [OF po(1)]) simp
qed

lemma db_parent:
  assumes "auth_db_ok db" and "tbl_find (permissions db) pk = Some po" and "po_parent po \<noteq> 0"
  obtains pp where "tbl_find (permissions db) (po_parent po) = Some pp" "po_owner pp = po_owner po"
    "po_parent po < pk" "pk \<noteq> 0"
proof -
  have "pk \<noteq> 0" using assms(2,3) db_row_zero [OF assms(1)] by auto
  with db_row [OF assms(1,2)] assms(3) that show ?thesis by (auto simp: perm_row_ok_def)
qed

lemma below_owner:
  assumes "auth_db_ok db" and "below (permissions db) pk anc"
    and "tbl_find (permissions db) pk = Some po" and "tbl_find (permissions db) anc = Some ao"
  shows "po_owner po = po_owner ao"
  using assms(2-)
proof (induction arbitrary: po)
  case (below_self pk po')
  then show ?case by simp
next
  case (below_step pk po' anc)
  obtain pp where "tbl_find (permissions db) (po_parent po') = Some pp" "po_owner pp = po_owner po'"
    by (rule db_parent [OF assms(1) below_step.hyps(1,2)])
  with below_step show ?case by auto
qed

lemma below_le:
  assumes "auth_db_ok db" and "below (permissions db) pk anc"
  shows "anc \<le> pk"
  using assms(2)
proof induction
  case (below_step pk po anc)
  have "po_parent po < pk" by (rule db_parent [OF assms(1) below_step.hyps(1,2)])
  with below_step.IH show ?case by simp
qed simp

text \<open>The walk: the ids it visits decrease, so it ends within the number of permissions.\<close>

definition older :: "'k permission_object chain_table \<Rightarrow> 64 word \<Rightarrow> nat" where
  "older t cur = card {k \<in> tbl_keys t. k \<le> cur}"

lemma older_less:
  assumes "tbl_ok t" and "tbl_find t cur = Some po" and "q < cur"
  shows "older t q < older t cur"
  unfolding older_def
proof (rule psubset_card_mono)
  have "cur \<in> tbl_keys t" using assms(1,2) by (force simp: tbl_find_in tbl_keys_def)
  then have "cur \<in> {k \<in> tbl_keys t. k \<le> cur} - {k \<in> tbl_keys t. k \<le> q}" using assms(3) by simp
  moreover have "{k \<in> tbl_keys t. k \<le> q} \<subseteq> {k \<in> tbl_keys t. k \<le> cur}" using assms(3) by auto
  ultimately show "{k \<in> tbl_keys t. k \<le> q} \<subset> {k \<in> tbl_keys t. k \<le> cur}" by blast
qed (simp add: tbl_keys_def)

lemma older_le: "older t cur \<le> length (rows t)"
proof -
  have "older t cur \<le> card (tbl_keys t)" unfolding older_def by (rule card_mono) (auto simp: tbl_keys_def)
  also have "\<dots> \<le> length (rows t)" unfolding tbl_keys_def by (metis card_length length_map set_map)
  finally show ?thesis .
qed

lemma walk_parents_below:
  assumes "auth_db_ok db" and "this \<noteq> 0" and "tbl_find (permissions db) cur = Some po"
    and "older (permissions db) cur < fuel"
  shows "walk_parents fuel (permissions db) this cur = Inr (below (permissions db) cur this \<and> this \<noteq> cur)"
  using assms(3,4)
proof (induction fuel arbitrary: cur po)
  case (Suc fuel)
  show ?case
  proof (cases "po_parent po = 0")
    case True
    then show ?thesis using Suc.prems(1) assms(2) by (simp add: below_iff [OF Suc.prems(1)])
  next
    case False
    obtain pp where pp: "tbl_find (permissions db) (po_parent po) = Some pp" and less: "po_parent po < cur"
      by (rule db_parent [OF assms(1) Suc.prems(1) False])
    have "older (permissions db) (po_parent po) < fuel"
      using older_less [OF db_perm_ok(1) [OF assms(1)] Suc.prems(1) less] Suc.prems(2) by simp
    from Suc.IH [OF pp this] have ih: "walk_parents fuel (permissions db) this (po_parent po) =
        Inr (below (permissions db) (po_parent po) this \<and> this \<noteq> po_parent po)" .
    have "below (permissions db) (po_parent po) this \<Longrightarrow> this \<noteq> cur"
      using below_le [OF assms(1), of "po_parent po" this] less by auto
    then show ?thesis
      using Suc.prems(1) False ih below_self [OF pp] by (auto simp: below_iff [OF Suc.prems(1)])
  qed
qed simp

lemma db_owner_zero:
  assumes "auth_db_ok db" and "tbl_find (permissions db) pk = Some po" and "po_owner po = 0"
  shows "pk = 0"
  using db_row [OF assms(1,2)] assms(3) by (cases "pk = 0") (simp_all add: perm_row_ok_def)

lemma satisfies_parent:
  assumes "auth_db_ok db" and "tbl_find (permissions db) other = Some oo" and "po_owner po = po_owner oo"
    and "this \<noteq> 0" "this \<noteq> other"
  shows "satisfies (this, po) (other, oo) (permissions db) =
           Inr (po_parent oo \<noteq> 0 \<and> below (permissions db) (po_parent oo) this)"
proof -
  have fuel: "older (permissions db) k < Suc (length (rows (permissions db)))" for k
    using older_le le_imp_less_Suc by blast
  show ?thesis
  proof (cases "po_parent oo = 0")
    case True
    obtain zo where zo: "tbl_find (permissions db) 0 = Some zo" by (rule db_zero [OF assms(1)])
    show ?thesis
      using assms(3-) True walk_parents_below [OF assms(1,4) zo fuel] below_zero [OF assms(1), of this]
      by (simp add: satisfies_def)
  next
    case False
    obtain pp where pp: "tbl_find (permissions db) (po_parent oo) = Some pp"
      by (rule db_parent [OF assms(1,2) False])
    show ?thesis
    proof (cases "this = po_parent oo")
      case True
      then show ?thesis using assms(3-) below_self [OF pp] by (simp add: satisfies_def)
    next
      case nparent: False
      then show ?thesis
        using False assms(3-) walk_parents_below [OF assms(1,4) pp fuel] by (simp add: satisfies_def)
    qed
  qed
qed

lemma satisfies_below:
  assumes "auth_db_ok db" and "tbl_find (permissions db) this = Some po"
    and "tbl_find (permissions db) other = Some oo"
  shows "satisfies (this, po) (other, oo) (permissions db) = Inr (below (permissions db) other this)"
proof -
  consider (owner) "po_owner po \<noteq> po_owner oo" | (same) "po_owner po = po_owner oo" "this = other"
    | (walk) "po_owner po = po_owner oo" "this \<noteq> other" by blast
  then show ?thesis
  proof cases
    case owner
    then have "\<not> below (permissions db) other this" using below_owner [OF assms(1) _ assms(3,2)] by auto
    then show ?thesis using owner by (simp add: satisfies_def)
  next
    case same
    then show ?thesis using below_self [OF assms(3)] by (simp add: satisfies_def)
  next
    case walk
    have "this \<noteq> 0"
    proof
      assume z: "this = 0"
      then have "po_owner oo = 0" using walk(1) assms(2) db_row_zero(1) [OF assms(1), of po] by simp
      with walk(2) z db_owner_zero [OF assms(1,3)] show False by simp
    qed
    from satisfies_parent [OF assms(1,3) walk(1) this walk(2)] walk(2) show ?thesis
      by (simp add: below_iff [OF assms(3)])
  qed
qed


section \<open>Operations keep the forest\<close>

lemma auth_db_okI:
  assumes "tbl_ok (permissions db)" "tbl_ok (usages db)"
    and "tbl_find (permissions db) 0 = Some zo" "po_owner zo = 0" "po_name zo = 0" "po_parent zo = 0"
    and "\<And>pk po. pk \<noteq> 0 \<Longrightarrow> tbl_find (permissions db) pk = Some po \<Longrightarrow> perm_row_ok db pk po"
    and "names_unique db" "usages_unique db"
  shows "auth_db_ok db"
  unfolding auth_db_ok_def using assms by blast

lemma find_permission_Inr:
  "find_permission level db = Inr r \<Longrightarrow>
     r = find_by (\<lambda>po. po_owner po = actor level \<and> po_name po = permission level) (permissions db) \<and>
     actor level \<noteq> 0 \<and> permission level \<noteq> 0"
  by (auto simp: find_permission_def res_simps)

lemma get_permission_Inr:
  assumes "tbl_ok (permissions db)" and "get_permission level db = Inr (pk, po)"
  shows "tbl_find (permissions db) pk = Some po" "po_owner po = actor level" "po_name po = permission level"
    and "actor level \<noteq> 0" "permission level \<noteq> 0"
  using assms(2) find_by_Some [OF assms(1)]
  by (auto simp: get_permission_def res_simps split: option.splits)

lemma create_permission_Inr:
  assumes "create_permission account name_v parent auth t0 db = Inr (pk, db')"
  obtains ct uid us ps where
    "tbl_emplace ct (usages db) = Inr (uid, us)"
    "tbl_emplace \<lparr>po_usage_id = uid, po_parent = parent, po_owner = account, po_name = name_v,
                  po_last_updated = ct, po_auth = auth\<rparr> (permissions db) = Inr (pk, ps)"
    "db' = db\<lparr>usages := us, permissions := ps\<rparr>"
  using assms that by (auto simp: create_permission_def Let_def bind_res_Inr split: prod.splits)

lemma create_permission_ok:
  assumes ok: "auth_db_ok db" and cr: "create_permission account name_v parent auth t0 db = Inr (pk, db')"
    and nz: "account \<noteq> 0" "name_v \<noteq> 0" and val: "validate auth"
    and fresh: "\<And>k po. tbl_find (permissions db) k = Some po \<Longrightarrow> po_owner po = account \<Longrightarrow> po_name po \<noteq> name_v"
    and par: "parent \<noteq> 0 \<Longrightarrow> \<exists>pp. tbl_find (permissions db) parent = Some pp \<and> po_owner pp = account"
  shows "auth_db_ok db'" and "tbl_find (permissions db') k =
           (if k = pk then tbl_find (permissions db') pk else tbl_find (permissions db) k)"
    and "\<exists>po. tbl_find (permissions db') pk = Some po \<and> po_owner po = account \<and> po_name po = name_v \<and>
           po_parent po = parent \<and> po_auth po = auth" and "pk \<noteq> 0"
proof -
  obtain ct uid us ps where us: "tbl_emplace ct (usages db) = Inr (uid, us)"
    and ps: "tbl_emplace \<lparr>po_usage_id = uid, po_parent = parent, po_owner = account, po_name = name_v,
                  po_last_updated = ct, po_auth = auth\<rparr> (permissions db) = Inr (pk, ps)"
    and db': "db' = db\<lparr>usages := us, permissions := ps\<rparr>"
    by (rule create_permission_Inr [OF cr])
  let ?row = "\<lparr>po_usage_id = uid, po_parent = parent, po_owner = account, po_name = name_v,
                  po_last_updated = ct, po_auth = auth\<rparr>"
  note pok = db_perm_ok(1) [OF ok] and uok = db_perm_ok(2) [OF ok]
  note plook = ct.insert_look [OF pok ps] and ulook = ct.insert_look [OF uok us]
  obtain zo where zo: "tbl_find (permissions db) 0 = Some zo" "po_owner zo = 0" "po_name zo = 0" "po_parent zo = 0"
    by (rule db_zero [OF ok])
  have pk: "0 < pk" using ct.insert_fresh [OF pok ps zo(1)] .
  then show pk0: "pk \<noteq> 0" by simp
  have old_usage: "po_usage_id po \<noteq> uid" if "tbl_find (permissions db) k = Some po" "k \<noteq> 0" for k po
  proof -
    have "tbl_find (usages db) (po_usage_id po) \<noteq> None" using db_row [OF ok that] by (simp add: perm_row_ok_def)
    with ct.insert_not_found [OF uok us] show ?thesis by metis
  qed
  have keep: "tbl_find (permissions db) j = Some q \<Longrightarrow> tbl_find ps j = Some q" for j q
    using plook ct.insert_not_found [OF pok ps] by auto
  have row_old: "perm_row_ok db' k po" if "tbl_find (permissions db) k = Some po" "k \<noteq> 0" for k po
    using db_row [OF ok that] keep ulook by (auto simp: perm_row_ok_def db')
  have "parent < pk"
    using par ct.insert_fresh [OF pok ps] pk by (cases "parent = 0") auto
  then have row_new: "perm_row_ok db' pk ?row"
    using nz val par keep ulook by (auto simp: perm_row_ok_def db')
  show "tbl_find (permissions db') k = (if k = pk then tbl_find (permissions db') pk else tbl_find (permissions db) k)"
    by (simp add: db' plook)
  show "\<exists>po. tbl_find (permissions db') pk = Some po \<and> po_owner po = account \<and> po_name po = name_v \<and>
           po_parent po = parent \<and> po_auth po = auth"
    by (simp add: db' plook)
  show "auth_db_ok db'"
  proof (rule auth_db_okI [where zo = zo])
    show "tbl_ok (permissions db')" "tbl_ok (usages db')"
      using ct.insert_ok [OF pok ps] ct.insert_ok [OF uok us] by (simp_all add: db')
    show "tbl_find (permissions db') 0 = Some zo" using keep [OF zo(1)] by (simp add: db')
    show "perm_row_ok db' k po" if "k \<noteq> 0" "tbl_find (permissions db') k = Some po" for k po
      using that row_old row_new by (auto simp: db' plook split: if_splits)
    show "names_unique db'"
      unfolding names_unique_def db' using fresh db_unique [OF ok] by (auto simp: plook split: if_splits)
    show "usages_unique db'"
      unfolding usages_unique_def db' using old_usage db_usage_unique [OF ok]
      by (auto simp: plook split: if_splits)
  qed (use zo in simp_all)
qed


lemma modify_permission_ok:
  assumes ok: "auth_db_ok db" and val: "validate auth" and pk: "pk \<noteq> 0"
  shows "auth_db_ok (modify_permission pk auth db)"
proof -
  let ?f = "\<lambda>po. po\<lparr>po_auth := auth, po_last_updated := pending_block_time db\<rparr>"
  let ?db = "modify_permission pk auth db"
  have look: "tbl_find (permissions ?db) k =
      (if k = pk then map_option ?f (tbl_find (permissions db) k) else tbl_find (permissions db) k)" for k
    by (simp add: modify_permission_def ct.change_look)
  have us: "usages ?db = usages db" by (simp add: modify_permission_def)
  have old: "\<exists>qo. tbl_find (permissions db) k = Some qo \<and> po_owner po = po_owner qo \<and> po_name po = po_name qo \<and>
      po_parent po = po_parent qo \<and> po_usage_id po = po_usage_id qo \<and> (po_auth po = auth \<or> po_auth po = po_auth qo)"
    if "tbl_find (permissions ?db) k = Some po" for k po
    using that by (auto simp: look split: if_splits)
  have new: "\<exists>po. tbl_find (permissions ?db) k = Some po \<and> po_owner po = po_owner qo"
    if "tbl_find (permissions db) k = Some qo" for k qo
    using that by (auto simp: look)
  obtain zo where zo: "tbl_find (permissions db) 0 = Some zo" "po_owner zo = 0" "po_name zo = 0" "po_parent zo = 0"
    by (rule db_zero [OF ok])
  show ?thesis
  proof (rule auth_db_okI [where zo = zo])
    show "tbl_ok (permissions ?db)" "tbl_ok (usages ?db)"
      using db_perm_ok [OF ok] by (simp_all add: modify_permission_def)
    show "tbl_find (permissions ?db) 0 = Some zo" using zo(1) pk by (simp add: look)
    show "perm_row_ok ?db k po" if k: "k \<noteq> 0" and po: "tbl_find (permissions ?db) k = Some po" for k po
    proof -
      obtain qo where qo: "tbl_find (permissions db) k = Some qo" "po_owner po = po_owner qo" "po_name po = po_name qo"
        "po_parent po = po_parent qo" "po_usage_id po = po_usage_id qo" "po_auth po = auth \<or> po_auth po = po_auth qo"
        using old [OF po] by blast
      have row: "perm_row_ok db k qo" by (rule db_row [OF ok qo(1) k])
      have "\<exists>pp. tbl_find (permissions ?db) (po_parent qo) = Some pp \<and> po_owner pp = po_owner qo"
        if "po_parent qo \<noteq> 0"
        using row that new by (metis perm_row_ok_def)
      with row qo(2-) val show ?thesis by (auto simp: perm_row_ok_def us)
    qed
    show "names_unique ?db"
      unfolding names_unique_def by (metis old db_unique [OF ok])
    show "usages_unique ?db"
      unfolding usages_unique_def by (metis old db_usage_unique [OF ok])
  qed (use zo in simp_all)
qed

lemma remove_permission_ok:
  assumes ok: "auth_db_ok db" and rm: "remove_permission (pk, po) db = Inr db'"
    and po: "tbl_find (permissions db) pk = Some po" and pk: "pk \<noteq> 0"
  shows "auth_db_ok db'"
    and "tbl_find (permissions db') k = (if k = pk then None else tbl_find (permissions db) k)"
proof -
  have childless: "find_by (\<lambda>c. po_parent c = pk) (permissions db) = None" and
    db': "db' = db\<lparr>usages := tbl_erase (po_usage_id po) (usages db), permissions := tbl_erase pk (permissions db)\<rparr>"
    using rm by (simp_all add: remove_permission_def bind_res_Inr eos_assert_Inr)
  note pok = db_perm_ok(1) [OF ok] and uok = db_perm_ok(2) [OF ok]
  have look: "tbl_find (permissions db') k = (if k = pk then None else tbl_find (permissions db) k)" for k
    by (simp add: db' ct.drop_look [OF pok])
  then show "tbl_find (permissions db') k = (if k = pk then None else tbl_find (permissions db) k)" .
  have ulook: "tbl_find (usages db') u = (if u = po_usage_id po then None else tbl_find (usages db) u)" for u
    by (simp add: db' ct.drop_look [OF uok])
  have nochild: "po_parent qo \<noteq> pk" if "tbl_find (permissions db) k = Some qo" for k qo
    using childless that by (auto simp: find_by_None [OF pok])
  obtain zo where zo: "tbl_find (permissions db) 0 = Some zo" "po_owner zo = 0" "po_name zo = 0" "po_parent zo = 0"
    by (rule db_zero [OF ok])
  show "auth_db_ok db'"
  proof (rule auth_db_okI [where zo = zo])
    show "tbl_ok (permissions db')" "tbl_ok (usages db')" using pok uok by (simp_all add: db')
    show "tbl_find (permissions db') 0 = Some zo" using zo(1) pk by (simp add: look)
    show "perm_row_ok db' k qo" if "k \<noteq> 0" and qo: "tbl_find (permissions db') k = Some qo" for k qo
    proof -
      have k: "k \<noteq> pk" "tbl_find (permissions db) k = Some qo" using qo by (simp_all add: look split: if_splits)
      have "po_usage_id qo \<noteq> po_usage_id po"
        using db_usage_unique [OF ok k(2) po that(1) pk] k(1) by auto
      then show ?thesis
        using db_row [OF ok k(2) that(1)] nochild [OF k(2)] by (simp add: perm_row_ok_def look ulook)
    qed
    show "names_unique db'"
      unfolding names_unique_def look using db_unique [OF ok] by (auto split: if_splits)
    show "usages_unique db'"
      unfolding usages_unique_def look using db_usage_unique [OF ok] by (auto split: if_splits)
  qed (use zo in simp_all)
qed

section \<open>Soundness of the transaction check\<close>

lemma granted_mono:
  assumes "granted C d p" and "d \<le> d'"
  shows "granted C d' p"
  using assms(1)
proof induction
  case (granted_authority p auth S)
  have "(\<Sum>w\<leftarrow>auth_waits auth. if wait_provided d w then unat (ww_weight w) else 0)
      \<le> (\<Sum>w\<leftarrow>auth_waits auth. if wait_provided d' w then unat (ww_weight w) else 0)"
    using assms(2) by (intro sum_list_if_le) (auto simp: wait_provided_def)
  with granted_authority.hyps(3) show ?case
    by (intro granted.granted_authority [OF granted_authority.hyps(1) granted_authority.IH, of S]) auto
qed (auto intro: granted.granted_provided granted.granted_any)

lemma make_auth_checker_sel [simp]:
  "provided_keys (make_auth_checker srt keys perms db) = keys"
  "provided_permissions (make_auth_checker srt keys perms db) = perms"
  "perm_sort (make_auth_checker srt keys perms db) = srt"
  "recursion_depth_limit (make_auth_checker srt keys perms db) = max_authority_depth db"
  by (simp_all add: make_auth_checker_def)

lemma make_auth_checker_named: "pta_named (make_auth_checker srt keys perms db)"
  by (auto simp: pta_named_def make_auth_checker_def get_permission_def bind_res_Inr eos_assert_Inr)

text \<open>
  \<open>noted m p d\<close>: the map of permissions to satisfy holds \<open>p\<close> with a delay of at most \<open>d\<close>.
\<close>

definition noted :: "to_satisfy \<Rightarrow> permission_level \<Rightarrow> int \<Rightarrow> bool" where
  "noted m p d \<longleftrightarrow> (\<exists>e. fm_find m p = Some e \<and> e \<le> d)"

lemma noted_note_permission: "noted (note_permission p d m) p d"
  by (auto simp: noted_def note_permission_def split: option.splits)

lemma noted_mono: "noted m q e \<Longrightarrow> noted (note_permission p d m) q e"
  by (auto simp: noted_def note_permission_def split: option.splits)

lemma collect_auth_step:
  assumes "collect_auth checktime sat db act special delay a s = Inr r"
  shows "noted (snd s) q e \<Longrightarrow> noted (snd r) q e" and "a \<notin> set sat \<Longrightarrow> noted (snd r) a delay"
    and "\<not> special \<Longrightarrow> check_minimum act a db = Inr ()"
  using assms
  by (auto simp: collect_auth_def bind_res_Inr noted_mono noted_note_permission split: prod.splits if_splits)

lemma collect_auths:
  assumes "fold_res (collect_auth checktime sat db act special delay) auths s = Inr s'"
  shows "noted (snd s) q e \<Longrightarrow> noted (snd s') q e"
    and "p \<in> set auths \<Longrightarrow> p \<notin> set sat \<Longrightarrow> noted (snd s') p delay"
    and "p \<in> set auths \<Longrightarrow> \<not> special \<Longrightarrow> check_minimum act p db = Inr ()"
proof -
  have keep: "noted (snd r') q e"
    if "fold_res (collect_auth checktime sat db act special delay) xs r = Inr r'" "noted (snd r) q e"
    for xs r r' q e
    using fold_res_invariant [where P = "\<lambda>s. noted (snd s) q e", OF that] collect_auth_step(1) by blast
  show "noted (snd s) q e \<Longrightarrow> noted (snd s') q e" by (rule keep [OF assms])
  assume "p \<in> set auths"
  then obtain ys zs r r' where step: "collect_auth checktime sat db act special delay p r = Inr r'"
    and rest: "fold_res (collect_auth checktime sat db act special delay) zs r' = Inr s'"
    by (rule fold_res_at [OF assms])
  show "p \<notin> set sat \<Longrightarrow> noted (snd s') p delay" by (rule keep [OF rest collect_auth_step(2) [OF step]])
  show "\<not> special \<Longrightarrow> check_minimum act p db = Inr ()" by (rule collect_auth_step(3) [OF step])
qed

lemma collect_actions:
  assumes "fold_res (collect_action checktime U sat eff db) actions s = Inr s'"
    and "act \<in> set actions" and "p \<in> set (act_authorization act)"
  obtains special delay where "check_native U act eff db = Inr (special, delay)"
    and "p \<notin> set sat \<Longrightarrow> noted (snd s') p delay" and "\<not> special \<Longrightarrow> check_minimum act p db = Inr ()"
proof -
  have keep: "noted (snd r') q e"
    if "fold_res (collect_action checktime U sat eff db) xs r = Inr r'" "noted (snd r) q e"
    for xs r r' q e
    using fold_res_invariant [where P = "\<lambda>s. noted (snd s) q e", OF that] collect_auths(1)
    by (fastforce simp: collect_action_def bind_res_Inr)
  obtain ys zs r r' where step: "collect_action checktime U sat eff db act r = Inr r'"
    and rest: "fold_res (collect_action checktime U sat eff db) zs r' = Inr s'"
    by (rule fold_res_at [OF assms(1,2)])
  from step obtain special delay where native: "check_native U act eff db = Inr (special, delay)"
    and inner: "fold_res (collect_auth checktime sat db act special delay) (act_authorization act) r = Inr r'"
    by (auto simp: collect_action_def bind_res_Inr)
  show ?thesis
    by (rule that [OF native keep [OF rest collect_auths(2) [OF inner assms(3)]] collect_auths(3) [OF inner assms(3)]])
qed

lemma check_permissions:
  assumes "fold_res (check_permission checktime C) m s = Inr s'" and "(p, d) \<in> set m"
  obtains used t where "satisfied_permission C d p None used = Inr (True, t)"
proof -
  obtain ys zs r r' where "check_permission checktime C (p, d) r = Inr r'"
    by (rule fold_res_at [OF assms])
  then show ?thesis using that by (auto simp: check_permission_def bind_res_Inr eos_assert_Inr split: prod.splits)
qed


section \<open>Properties\<close>

text \<open>
  A database for the witnesses: account 1 with the keys 10 (owner) and 20 (active), and an unpacker
  that knows no native action.
\<close>

definition ex_auth_db :: "(nat, nat, unit) auth_db" where
  "ex_auth_db =
     \<lparr>permissions = \<lparr>rows =
        [(0, \<lparr>po_usage_id = 0, po_parent = 0, po_owner = 0, po_name = 0, po_last_updated = 0,
              po_auth = \<lparr>threshold = 0, auth_keys = [], auth_accounts = [], auth_waits = []\<rparr>\<rparr>),
         (1, \<lparr>po_usage_id = 0, po_parent = 0, po_owner = 1, po_name = owner_name, po_last_updated = 0,
              po_auth = authority_of_key 10 0\<rparr>),
         (2, \<lparr>po_usage_id = 1, po_parent = 1, po_owner = 1, po_name = active_name, po_last_updated = 0,
              po_auth = authority_of_key 20 0\<rparr>)], next_pk = 3\<rparr>,
      usages = \<lparr>rows = [(0, 0), (1, 0)], next_pk = 2\<rparr>,
      links = empty_table, generated = empty_table, pending_block_time = 5000000,
      max_transaction_delay = 3888000, max_authority_depth = 6\<rparr>"

definition ex_unpackers :: "(nat, nat, unit) unpackers" where
  "ex_unpackers =
     \<lparr>unpack_updateauth = (\<lambda>_. Inl Fc_exception), unpack_deleteauth = (\<lambda>_. Inl Fc_exception),
      unpack_linkauth = (\<lambda>_. Inl Fc_exception), unpack_unlinkauth = (\<lambda>_. Inl Fc_exception),
      unpack_canceldelay = (\<lambda>_. Inl Fc_exception), unpack_actions = (\<lambda>_. Inl Fc_exception)\<rparr>"

lemma authority_of_key_valid: "validate (authority_of_key k 0)"
  by (simp add: authority_of_key_def authority_delay_def validate_def)

lemma ex_auth_db_ok: "auth_db_ok ex_auth_db"
proof (rule auth_db_okI)
  show "tbl_ok (permissions ex_auth_db)" "tbl_ok (usages ex_auth_db)"
    by (simp_all add: ex_auth_db_def tbl_ok_def tbl_keys_def fm_invar_def pk_is_good_def)
  show "tbl_find (permissions ex_auth_db) 0 = Some \<lparr>po_usage_id = 0, po_parent = 0, po_owner = 0, po_name = 0,
      po_last_updated = 0, po_auth = \<lparr>threshold = 0, auth_keys = [], auth_accounts = [], auth_waits = []\<rparr>\<rparr>"
    by (simp add: ex_auth_db_def tbl_find_def)
  show "perm_row_ok ex_auth_db pk po" if "pk \<noteq> 0" "tbl_find (permissions ex_auth_db) pk = Some po" for pk po
    using that
    by (auto simp: ex_auth_db_def tbl_find_def perm_row_ok_def authority_of_key_valid name_values split: if_splits)
  show "names_unique ex_auth_db" "usages_unique ex_auth_db"
    by (auto simp: names_unique_def usages_unique_def ex_auth_db_def tbl_find_def name_values split: if_splits)
qed simp_all

lemma check_minimum_below:
  assumes "auth_db_ok db" and "check_minimum act p db = Inr ()"
  shows "lookup_minimum_permission (actor p) (act_account act) (act_name act) db = Inr None \<or>
      (\<exists>n pk po mk mo. lookup_minimum_permission (actor p) (act_account act) (act_name act) db = Inr (Some n) \<and>
         get_permission p db = Inr (pk, po) \<and> get_permission (Permission_level (actor p) n) db = Inr (mk, mo) \<and>
         below (permissions db) mk pk)"
proof -
  note pok = db_perm_ok(1) [OF assms(1)]
  obtain r where r: "lookup_minimum_permission (actor p) (act_account act) (act_name act) db = Inr r"
    using assms(2) by (auto simp: check_minimum_def bind_res_Inr)
  show ?thesis
  proof (cases r)
    case (Some n)
    then obtain mk mo pk po where g: "get_permission (Permission_level (actor p) n) db = Inr (mk, mo)"
        "get_permission p db = Inr (pk, po)" "satisfies (pk, po) (mk, mo) (permissions db) = Inr True"
      using assms(2) r by (auto simp: check_minimum_def require_satisfies_def bind_res_Inr eos_assert_Inr)
    have "below (permissions db) mk pk"
      using satisfies_below [OF assms(1) get_permission_Inr(1) [OF pok g(2)] get_permission_Inr(1) [OF pok g(1)]] g(3)
      by simp
    with r Some g show ?thesis by blast
  qed (use r in simp)
qed






end
