(* ===== verification/Stake.thy ===== *)
theory Stake
  imports IntArith
begin

text \<open>
  \<^verbatim>\<open>libraries/chain/stake.cpp\<close>, \<^verbatim>\<open>stake.hpp\<close> and \<^verbatim>\<open>stake_object.hpp\<close>: proxied
  stakes of one token.  Every operation of the code works on one token, so the token code is left
  out of the keys: agents are keyed by account, grants by (grantor, recipient), and the indexes by
  key become maps in ascending key order.  Signed 64-bit values are integers; a proportion that does
  not fit is an error, as in the code.

  The traversals recurse along grants and loop over the grants of one agent.  Both draw on one
  amount of fuel and give \<open>No_return\<close> when it is used up.  An iterator over the grants is the key it
  stands at; a reference to an agent reads the current row.
\<close>

section \<open>Objects\<close>

record stake_agent_object =
  ag_proxy_level :: "8 word"
  ag_last_proxied_update :: "32 word"
  ag_balance :: int
  ag_proxied :: int
  ag_shares_sum :: int
  ag_own_share :: int
  ag_fee :: int
  ag_min_own_staked :: int
  ag_provided :: int
  ag_received :: int

definition get_total_funds :: "stake_agent_object \<Rightarrow> int" where
  "get_total_funds a = ag_balance a + ag_proxied a"

definition get_own_funds :: "stake_agent_object \<Rightarrow> int res" where
  "get_own_funds a =
     (let total_funds = get_total_funds a in
      bind_res (eos_assert (total_funds \<ge> 0) Chain_exception) (\<lambda>_.
      bind_res (eos_assert (ag_own_share a \<ge> 0) Chain_exception) (\<lambda>_.
      bind_res (eos_assert (ag_shares_sum a \<ge> 0) Chain_exception) (\<lambda>_.
      bind_res (eos_assert ((total_funds = 0) = (ag_shares_sum a = 0)) Chain_exception) (\<lambda>_.
        if total_funds \<noteq> 0 then safe_prop int64_t total_funds (ag_own_share a) (ag_shares_sum a) True
        else Inr 0)))))"

definition get_effective_stake :: "stake_agent_object \<Rightarrow> int res" where
  "get_effective_stake a =
     bind_res (get_own_funds a) (\<lambda>own_funds.
     bind_res (eos_assert (ag_provided a \<le> own_funds) Chain_exception) (\<lambda>_.
     bind_res (eos_assert (ag_received a \<ge> 0) Chain_exception) (\<lambda>_.
       Inr ((own_funds - ag_provided a) + ag_received a))))"

record stake_candidate_object =
  cand_latest_pick :: "32 word"
  cand_votes :: int
  cand_priority :: int
  cand_enabled :: bool

text \<open>
  The seconds of \<^verbatim>\<open>latest_pick\<close> are an unsigned 32-bit number, and so is their product with the
  32-bit precision: it wraps before it is added to the 128-bit sum.
\<close>

definition cand_set_votes :: "int \<Rightarrow> int \<Rightarrow> stake_candidate_object \<Rightarrow> stake_candidate_object res" where
  "cand_set_votes arg cur_supply c =
     bind_res (eos_assert (arg \<ge> 0) Transaction_exception) (\<lambda>_.
       if arg = 0 then Inr (c\<lparr>cand_votes := arg, cand_priority := 2 ^ 63 - 1\<rparr>)
       else
         let priority128 = min ((cur_supply * 1000000) sdiv arg) (2 ^ 63 - 1)
                           + uint (cand_latest_pick c * 1000000)
         in Inr (c\<lparr>cand_votes := arg, cand_priority := min priority128 (2 ^ 63 - 1)\<rparr>))"

record stake_grant_object =
  gr_pct :: int
  gr_share :: int
  gr_break_fee :: int
  gr_break_min_own_staked :: int

record stake_stat_object =
  st_total_staked :: int
  st_total_votes :: int
  st_last_reward :: "32 word"
  st_enabled :: bool

type_synonym grant_key = "64 word \<times> 64 word"

text \<open>
  \<open>autorcs\<close> is \<open>None\<close> when the system ABI has no table of automatic recalls; \<open>token_supply\<close> is the
  supply in the token's statistics, \<open>None\<close> without such a row.
\<close>

record stake_db =
  agents :: "(64 word \<times> stake_agent_object) list"
  grants :: "(grant_key \<times> stake_grant_object) list"
  candidates :: "(64 word \<times> stake_candidate_object) list"
  autorcs :: "(64 word \<times> bool \<times> bool) list option"
  stake_stat :: "stake_stat_object option"
  has_stake_param :: bool
  token_supply :: "int option"

type_synonym votes_changes = "(64 word \<times> int) list"

section \<open>Operations\<close>

definition autorc_get :: "stake_db \<Rightarrow> 64 word \<Rightarrow> bool \<times> bool" where
  "autorc_get db account =
     (case autorcs db of
        None \<Rightarrow> (True, True)
      | Some m \<Rightarrow>
          if fm_find m 0 = None then (True, True)
          else (case fm_find m account of Some fs \<Rightarrow> fs | None \<Rightarrow> (False, False)))"

definition get_agent :: "stake_db \<Rightarrow> 64 word \<Rightarrow> stake_agent_object res" where
  "get_agent db agent_name =
     (case fm_find (agents db) agent_name of Some a \<Rightarrow> Inr a | None \<Rightarrow> Inl Transaction_exception)"

definition modify_agent :: "64 word \<Rightarrow> (stake_agent_object \<Rightarrow> stake_agent_object) \<Rightarrow> stake_db \<Rightarrow> stake_db" where
  "modify_agent agent_name f db =
     (case fm_find (agents db) agent_name of
        Some a \<Rightarrow> db\<lparr>agents := fm_set agent_name (f a) (agents db)\<rparr> | None \<Rightarrow> db)"

definition lower_grant :: "grant_key \<Rightarrow> stake_db \<Rightarrow> grant_key option" where
  "lower_grant k db = map_option fst (List.find (\<lambda>(k', g). k' \<ge> k) (grants db))"

definition next_grant :: "grant_key \<Rightarrow> stake_db \<Rightarrow> grant_key option" where
  "next_grant k db = map_option fst (List.find (\<lambda>(k', g). k' > k) (grants db))"

definition vote_for :: "votes_changes \<Rightarrow> 64 word \<Rightarrow> int" where
  "vote_for v account = (case fm_find v account of Some x \<Rightarrow> x | None \<Rightarrow> 0)"

text \<open>The end of the traversal: the grant it stands at is reduced or erased, and the iterator moves on.\<close>

definition settle_grant :: "grant_key \<Rightarrow> int \<Rightarrow> bool \<Rightarrow> stake_db \<Rightarrow> (grant_key option \<times> stake_db) res" where
  "settle_grant k share forced_erase db =
     (case fm_find (grants db) k of
        None \<Rightarrow> Inl Undefined_behaviour
      | Some g \<Rightarrow>
          Inr (next_grant k db,
               if (gr_pct g \<noteq> 0 \<or> gr_share g > share) \<and> \<not> forced_erase
               then db\<lparr>grants := fm_set k (g\<lparr>gr_share := gr_share g - share\<rparr>) (grants db)\<rparr>
               else db\<lparr>grants := fm_erase k (grants db)\<rparr>))"

function (sequential) recall_proxied_traversal ::
    "nat \<Rightarrow> grant_key \<Rightarrow> int \<Rightarrow> bool \<Rightarrow> stake_db \<times> votes_changes
       \<Rightarrow> (int \<times> grant_key option \<times> stake_db \<times> votes_changes) res"
  and recall_grants ::
    "nat \<Rightarrow> 64 word \<Rightarrow> int \<Rightarrow> grant_key option \<Rightarrow> int \<Rightarrow> stake_db \<times> votes_changes
       \<Rightarrow> (int \<times> stake_db \<times> votes_changes) res" where
  "recall_proxied_traversal 0 k share forced_erase s = Inl No_return"
| "recall_proxied_traversal (Suc n) k share forced_erase s =
     bind_res (get_agent (fst s) (snd k)) (\<lambda>agent.
     bind_res (eos_assert (share \<ge> 0) Transaction_exception) (\<lambda>_.
     bind_res (eos_assert (share \<le> ag_shares_sum agent) Transaction_exception) (\<lambda>_.
     bind_res (safe_prop int64_t (ag_balance agent) share (ag_shares_sum agent) True) (\<lambda>balance_ret.
     bind_res (eos_assert (balance_ret \<le> ag_balance agent) Transaction_exception) (\<lambda>_.
     bind_res (recall_grants n (snd k) share (lower_grant (snd k, 0) (fst s)) 0 s) (\<lambda>(proxied_ret, db1, v1).
     bind_res (get_agent db1 (snd k)) (\<lambda>agent1.
     bind_res (eos_assert (proxied_ret \<le> ag_proxied agent1) Transaction_exception) (\<lambda>_.
     let db2 = modify_agent (snd k) (\<lambda>a. a\<lparr>ag_balance := ag_balance a - balance_ret,
                                          ag_proxied := ag_proxied a - proxied_ret,
                                          ag_shares_sum := ag_shares_sum a - share\<rparr>) db1;
         v2 = (if ag_proxy_level agent1 = 0 then fm_set (snd k) (vote_for v1 (snd k) - balance_ret) v1 else v1)
     in bind_res (settle_grant k share forced_erase db2) (\<lambda>(k', db3).
          Inr (balance_ret + proxied_ret, k', db3, v2))))))))))"
| "recall_grants 0 account share pos acc s = Inl No_return"
| "recall_grants (Suc n) account share pos acc s =
     (case pos of
        None \<Rightarrow> Inr (acc, s)
      | Some k \<Rightarrow>
          if fst k \<noteq> account then Inr (acc, s)
          else
            (case fm_find (grants (fst s)) k of
               None \<Rightarrow> Inl Undefined_behaviour
             | Some g \<Rightarrow>
                 bind_res (get_agent (fst s) account) (\<lambda>agent.
                 bind_res (safe_prop int64_t (gr_share g) share (ag_shares_sum agent) True) (\<lambda>cur_share.
                 bind_res (recall_proxied_traversal n k cur_share False s) (\<lambda>(ret, pos', s').
                   recall_grants n account share pos' (acc + ret) s')))))"
  by pat_completeness auto
termination
  by (relation "measure (\<lambda>x. case x of Inl (n, k, share, forced_erase, s) \<Rightarrow> n | Inr (n, account, share, pos, acc, s) \<Rightarrow> n)") auto

function (sequential) update_proxied_traversal ::
    "nat \<Rightarrow> int \<Rightarrow> 64 word \<Rightarrow> 32 word \<Rightarrow> bool \<Rightarrow> stake_db \<times> votes_changes \<Rightarrow> (stake_db \<times> votes_changes) res"
  and update_grants ::
    "nat \<Rightarrow> int \<Rightarrow> 64 word \<Rightarrow> 32 word \<Rightarrow> bool \<Rightarrow> grant_key option \<Rightarrow> int \<times> int \<Rightarrow> stake_db \<times> votes_changes
       \<Rightarrow> ((int \<times> int) \<times> stake_db \<times> votes_changes) res" where
  "update_proxied_traversal 0 now account last_reward force s = Inl No_return"
| "update_proxied_traversal (Suc n) now account last_reward force s =
     bind_res (get_agent (fst s) account) (\<lambda>agent.
       if last_reward \<ge> ag_last_proxied_update agent \<or> force then
         bind_res (update_grants n now account last_reward force (lower_grant (account, 0) (fst s)) (0, 0) s)
           (\<lambda>((new_proxied, recalled), db, v).
             Inr (modify_agent account (\<lambda>a. a\<lparr>ag_balance := ag_balance a + recalled,
                                              ag_proxied := new_proxied,
                                              ag_last_proxied_update := of_int now\<rparr>) db, v))
       else Inr s)"
| "update_grants 0 now account last_reward force pos acc s = Inl No_return"
| "update_grants (Suc n) now account last_reward force pos acc s =
     (case pos of
        None \<Rightarrow> Inr (acc, s)
      | Some k \<Rightarrow>
          if fst k \<noteq> account then Inr (acc, s)
          else
            bind_res (get_agent (fst s) (snd k)) (\<lambda>_.
            bind_res (update_proxied_traversal n now (snd k) last_reward force s) (\<lambda>s1.
            bind_res (get_agent (fst s1) account) (\<lambda>agent.
            bind_res (get_agent (fst s1) (snd k)) (\<lambda>proxy_agent.
              (case fm_find (grants (fst s1)) k of
                 None \<Rightarrow> Inl Undefined_behaviour
               | Some g \<Rightarrow>
                   let (break_fee_enabled, break_min_stake_enabled) = autorc_get (fst s1) account;
                       breaks_due_to_fee = (break_fee_enabled \<and> gr_break_fee g < ag_fee proxy_agent);
                       breaks_due_to_stake =
                         (break_min_stake_enabled \<and> gr_break_min_own_staked g > ag_min_own_staked proxy_agent)
                   in if ag_proxy_level proxy_agent < ag_proxy_level agent \<and> \<not> breaks_due_to_fee \<and>
                         \<not> breaks_due_to_stake
                      then
                        bind_res (if ag_shares_sum proxy_agent \<noteq> 0
                                  then safe_prop int64_t (get_total_funds proxy_agent) (gr_share g)
                                         (ag_shares_sum proxy_agent) True
                                  else Inr 0)
                          (\<lambda>x. update_grants n now account last_reward force (next_grant k (fst s1))
                                 (fst acc + x, snd acc) s1)
                      else
                        bind_res (recall_proxied_traversal n k (gr_share g) True s1) (\<lambda>(ret, pos', s2).
                          update_grants n now account last_reward force pos' (fst acc, snd acc + ret) s2)))))))"
  by pat_completeness auto
termination
  by (relation "measure (\<lambda>x. case x of Inl (n, now, account, last_reward, force, s) \<Rightarrow> n | Inr (n, now, account, last_reward, force, pos, acc, s) \<Rightarrow> n)") auto

definition set_votes :: "votes_changes \<Rightarrow> stake_db \<Rightarrow> stake_db res" where
  "set_votes v db =
     (case stake_stat db of
        None \<Rightarrow> Inl Undefined_behaviour
      | Some st \<Rightarrow>
          (case token_supply db of
             None \<Rightarrow> Inl Transaction_exception
           | Some supply \<Rightarrow>
               fold_res (\<lambda>(account, x) d.
                   case fm_find (candidates d) account of
                     None \<Rightarrow> Inl Transaction_exception
                   | Some c \<Rightarrow>
                       bind_res (cand_set_votes (cand_votes c + x) supply c) (\<lambda>c'.
                         Inr (d\<lparr>candidates := fm_set account c' (candidates d)\<rparr>)))
                 v (db\<lparr>stake_stat := Some (st\<lparr>st_total_votes := st_total_votes st + sum_list (map snd v)\<rparr>)\<rparr>)))"

definition update_proxied :: "nat \<Rightarrow> int \<Rightarrow> 64 word \<Rightarrow> bool \<Rightarrow> stake_db \<Rightarrow> stake_db res" where
  "update_proxied fuel now account force db =
     (case stake_stat db of
        None \<Rightarrow> Inl Transaction_exception
      | Some st \<Rightarrow>
          bind_res (update_proxied_traversal fuel now account (st_last_reward st) force (db, [])) (\<lambda>(db', v).
            set_votes v db'))"

text \<open>The loop of \<open>recall_proxied\<close> over the grants of the grantor, up to the recipient.\<close>

fun recall_search ::
  "nat \<Rightarrow> 64 word \<Rightarrow> 64 word \<Rightarrow> int \<Rightarrow> grant_key option \<Rightarrow> stake_db \<times> votes_changes
     \<Rightarrow> (int \<times> stake_db \<times> votes_changes) res" where
  "recall_search 0 grantor recipient pct pos s = Inl No_return"
| "recall_search (Suc n) grantor recipient pct pos s =
     (case pos of
        None \<Rightarrow> Inr (0, s)
      | Some k \<Rightarrow>
          if fst k \<noteq> grantor then Inr (0, s)
          else if snd k = recipient then
            (case fm_find (grants (fst s)) k of
               None \<Rightarrow> Inl Undefined_behaviour
             | Some g \<Rightarrow>
                 bind_res (safe_pct int64_t pct (gr_share g) True) (\<lambda>share.
                 bind_res (recall_proxied_traversal n k share False s) (\<lambda>(ret, pos', s'). Inr (ret, s'))))
          else recall_search n grantor recipient pct (next_grant k (fst s)) s)"

definition recall_proxied ::
  "nat \<Rightarrow> int \<Rightarrow> 64 word \<Rightarrow> 64 word \<Rightarrow> int \<Rightarrow> stake_db \<Rightarrow> stake_db res" where
  "recall_proxied fuel now grantor_name recipient_name pct db =
     bind_res (eos_assert (1 \<le> pct \<and> pct \<le> percent_100) Transaction_exception) (\<lambda>_.
     bind_res (eos_assert (has_stake_param db) Transaction_exception) (\<lambda>_.
     bind_res (eos_assert (stake_stat db \<noteq> None) Transaction_exception) (\<lambda>_.
     bind_res (get_agent db grantor_name) (\<lambda>_.
     bind_res (update_proxied_traversal fuel now grantor_name 0 True (db, [])) (\<lambda>(db1, v1).
     bind_res (recall_search fuel grantor_name recipient_name pct (lower_grant (grantor_name, 0) db1) (db1, v1))
       (\<lambda>(amount, db2, v2).
     bind_res (eos_assert (amount > 0) Transaction_exception) (\<lambda>_.
       set_votes v2 (modify_agent grantor_name (\<lambda>a. a\<lparr>ag_balance := ag_balance a + amount,
                                                       ag_proxied := ag_proxied a - amount\<rparr>) db2))))))))"


section \<open>Sums over agents\<close>

definition sum_fm :: "('v \<Rightarrow> int) \<Rightarrow> ('k \<times> 'v) list \<Rightarrow> int" where
  "sum_fm f m = (\<Sum>x\<leftarrow>m. f (snd x))"

lemma sum_fm_set:
  "fm_invar m \<Longrightarrow>
     sum_fm f (fm_set k v m) = sum_fm f m + f v - (case fm_find m k of Some w \<Rightarrow> f w | None \<Rightarrow> 0)"
proof (induction k v m rule: fm_set.induct)
  case (2 k v a w m)
  then show ?case
    using fm_find_less [OF 2(2), of k] by (auto simp: sum_fm_def fm_invar_Cons)
qed (simp add: sum_fm_def)

text \<open>
  What the stake of a token adds up to: all balances, and the balances of the agents of level 0,
  which vote with them.
\<close>

definition total_balance :: "stake_db \<Rightarrow> int" where
  "total_balance db = sum_fm ag_balance (agents db)"

definition direct_votes :: "stake_db \<Rightarrow> int" where
  "direct_votes db = sum_fm (\<lambda>a. if ag_proxy_level a = 0 then ag_balance a else 0) (agents db)"

definition level_of :: "stake_db \<Rightarrow> 64 word \<Rightarrow> (8 word) option" where
  "level_of db account = map_option ag_proxy_level (fm_find (agents db) account)"

definition stake_db_ok :: "stake_db \<times> votes_changes \<Rightarrow> bool" where
  "stake_db_ok s \<longleftrightarrow> fm_invar (agents (fst s)) \<and> fm_invar (grants (fst s)) \<and> fm_invar (snd s)"

definition grant_keys :: "stake_db \<Rightarrow> grant_key set" where
  "grant_keys db = fst ` set (grants db)"

text \<open>
  \<open>moves d s s'\<close>: from \<open>s\<close> to \<open>s'\<close> the balances lose \<open>d\<close> in total, the recorded changes of votes
  account for what the voting agents lost, and nothing but balances, shares and grants changes.
\<close>

definition moves :: "int \<Rightarrow> stake_db \<times> votes_changes \<Rightarrow> stake_db \<times> votes_changes \<Rightarrow> bool" where
  "moves d s s' \<longleftrightarrow>
     stake_db_ok s' \<and> level_of (fst s') = level_of (fst s) \<and>
     grant_keys (fst s') \<subseteq> grant_keys (fst s) \<and>
     total_balance (fst s') = total_balance (fst s) - d \<and>
     direct_votes (fst s') - sum_fm id (snd s') = direct_votes (fst s) - sum_fm id (snd s) \<and>
     candidates (fst s') = candidates (fst s) \<and> stake_stat (fst s') = stake_stat (fst s) \<and>
     token_supply (fst s') = token_supply (fst s) \<and> autorcs (fst s') = autorcs (fst s) \<and>
     has_stake_param (fst s') = has_stake_param (fst s)"

lemma moves_refl: "stake_db_ok s \<Longrightarrow> moves 0 s s"
  by (simp add: moves_def)

lemma moves_trans: "moves d s s1 \<Longrightarrow> moves e s1 s2 \<Longrightarrow> moves (d + e) s s2"
  unfolding moves_def by auto

lemma get_agent_Inr: "get_agent db account = Inr a \<longleftrightarrow> fm_find (agents db) account = Some a"
  by (simp add: get_agent_def split: option.splits)

lemma modify_agent_moves:
  assumes "stake_db_ok (db, v)" and "fm_find (agents db) account = Some a"
    and "ag_proxy_level (f a) = ag_proxy_level a"
    and "ag_balance (f a) = ag_balance a - d"
  shows "moves d (db, v) (modify_agent account f db,
           if ag_proxy_level a = 0 then fm_set account (vote_for v account - d) v else v)"
  using assms
  by (auto simp: moves_def modify_agent_def stake_db_ok_def fm_invar_set total_balance_def direct_votes_def
      sum_fm_set level_of_def vote_for_def fun_eq_iff grant_keys_def split: option.splits)

lemma settle_grant_keys:
  assumes "settle_grant k share forced db = Inr (k', db')"
  shows "grant_keys db' \<subseteq> grant_keys db"
proof -
  obtain g where g: "fm_find (grants db) k = Some g" using assms by (auto simp: settle_grant_def split: option.splits)
  then have "k \<in> grant_keys db" using fm_find_SomeD [OF g] by (force simp: grant_keys_def)
  then have "fst ` set (fm_set k h (grants db)) \<subseteq> grant_keys db" for h by (simp add: grant_keys_def)
  moreover have "fst ` set (fm_erase k (grants db)) \<subseteq> grant_keys db"
    using set_keys_fm_erase_subset [of k "grants db"] by (simp add: grant_keys_def)
  moreover from assms g have "grants db' = fm_set k (g\<lparr>gr_share := gr_share g - share\<rparr>) (grants db) \<or>
      grants db' = fm_erase k (grants db)"
    by (auto simp: settle_grant_def)
  ultimately show ?thesis unfolding grant_keys_def [of db'] by metis
qed

lemma settle_grant_moves:
  assumes "stake_db_ok (db, v)" and "settle_grant k share forced db = Inr (k', db')"
  shows "moves 0 (db, v) (db', v)"
  using assms settle_grant_keys [OF assms(2)]
  by (auto simp: moves_def settle_grant_def stake_db_ok_def fm_invar_set fm_invar_erase total_balance_def
      direct_votes_def level_of_def fun_eq_iff split: option.splits if_splits)

text \<open>One traversal of a grant takes its result out of the balances below it.\<close>

lemma recall_moves:
  "recall_proxied_traversal n k share forced s = Inr r \<Longrightarrow> stake_db_ok s \<Longrightarrow> moves (fst r) s (snd (snd r))"
  "recall_grants n account share pos acc s = Inr q \<Longrightarrow> stake_db_ok s \<Longrightarrow> moves (fst q - acc) s (snd q)"
proof (induction n k share forced s and n account share pos acc s arbitrary: r and q
    rule: recall_proxied_traversal_recall_grants.induct)
  case (2 n k share forced s)
  from 2(2) obtain agent bal pret db1 v1 agent1 k' db3 where
    ag: "get_agent (fst s) (snd k) = Inr agent" "0 \<le> share" "share \<le> ag_shares_sum agent"
      "safe_prop int64_t (ag_balance agent) share (ag_shares_sum agent) True = Inr bal" "bal \<le> ag_balance agent"
    and rg: "recall_grants n (snd k) share (lower_grant (snd k, 0) (fst s)) 0 s = Inr (pret, db1, v1)"
    and ag1: "get_agent db1 (snd k) = Inr agent1"
    and st: "settle_grant k share forced
          (modify_agent (snd k) (\<lambda>a. a\<lparr>ag_balance := ag_balance a - bal, ag_proxied := ag_proxied a - pret,
             ag_shares_sum := ag_shares_sum a - share\<rparr>) db1) = Inr (k', db3)"
    and r: "r = (bal + pret, k', db3,
          if ag_proxy_level agent1 = 0 then fm_set (snd k) (vote_for v1 (snd k) - bal) v1 else v1)"
    by (auto simp: bind_res_Inr eos_assert_Inr Let_def)
  from 2(1) [OF ag(1) _ _ ag(4) _ rg 2(3)] ag have m1: "moves pret s (db1, v1)" by (simp add: eos_assert_def)
  then have ok1: "stake_db_ok (db1, v1)" by (simp add: moves_def)
  let ?db2 = "modify_agent (snd k) (\<lambda>a. a\<lparr>ag_balance := ag_balance a - bal, ag_proxied := ag_proxied a - pret,
             ag_shares_sum := ag_shares_sum a - share\<rparr>) db1"
  let ?v2 = "if ag_proxy_level agent1 = 0 then fm_set (snd k) (vote_for v1 (snd k) - bal) v1 else v1"
  have m2: "moves bal (db1, v1) (?db2, ?v2)"
    by (rule modify_agent_moves [OF ok1 ag1 [unfolded get_agent_Inr]]) simp_all
  then have "stake_db_ok (?db2, ?v2)" by (simp add: moves_def)
  from settle_grant_moves [OF this st] have "moves 0 (?db2, ?v2) (db3, ?v2)" .
  from moves_trans [OF moves_trans [OF m1 m2] this] show ?case unfolding r by (simp add: add.commute)
next
  case (4 n account share pos acc s)
  show ?case
  proof (cases "\<exists>k. pos = Some k \<and> fst k = account")
    case True
    then obtain k where k: "pos = Some k" "fst k = account" by blast
    with 4(3) obtain g agent cs ret pos' s' where g: "fm_find (grants (fst s)) k = Some g"
      "get_agent (fst s) account = Inr agent" "safe_prop int64_t (gr_share g) share (ag_shares_sum agent) True = Inr cs"
      and rt: "recall_proxied_traversal n k cs False s = Inr (ret, pos', s')"
      and rest: "recall_grants n account share pos' (acc + ret) s' = Inr q"
      by (auto simp: bind_res_Inr split: option.splits)
    from 4(1) [OF k(1) _ g rt 4(4)] k have m1: "moves ret s s'" by simp
    then have "stake_db_ok s'" by (simp add: moves_def)
    from 4(2) [OF k(1) _ g rt _ _ rest this] k have "moves (fst q - (acc + ret)) s' (snd q)" by simp
    from moves_trans [OF m1 this] show ?thesis by simp
  next
    case False
    with 4(3) have "q = (acc, s)" by (auto split: option.splits)
    then show ?thesis using moves_refl [OF 4(4)] by simp
  qed
qed simp_all

text \<open>
  Grants start at agents that do not vote.  Then an update leaves the balances as a whole and the
  accounting of votes unchanged.
\<close>

definition grantors_ok :: "stake_db \<Rightarrow> bool" where
  "grantors_ok db \<longleftrightarrow> (\<forall>k \<in> grant_keys db. level_of db (fst k) \<noteq> Some 0)"

lemma grantors_ok_moves: "moves d s s' \<Longrightarrow> grantors_ok (fst s) \<Longrightarrow> grantors_ok (fst s')"
  by (auto simp: moves_def grantors_ok_def)

lemma find_fst_in: "map_option fst (List.find P xs) = Some k \<Longrightarrow> k \<in> fst ` set xs"
  by (induction xs) (auto split: if_splits)

lemma lower_grant_in: "lower_grant k db = Some k' \<Longrightarrow> k' \<in> grant_keys db"
  unfolding lower_grant_def grant_keys_def by (rule find_fst_in)

lemma credit_agent_moves:
  assumes "stake_db_ok (db, v)" and "fm_find (agents db) account = Some a"
    and "ag_proxy_level (f a) = ag_proxy_level a" and "ag_balance (f a) = ag_balance a + d"
    and "ag_proxy_level a = 0 \<Longrightarrow> d = 0"
  shows "moves (- d) (db, v) (modify_agent account f db, v)"
  using assms
  by (auto simp: moves_def modify_agent_def stake_db_ok_def fm_invar_set total_balance_def direct_votes_def
      sum_fm_set level_of_def fun_eq_iff grant_keys_def split: option.splits)

lemma update_moves:
  "update_proxied_traversal n now account last_reward force s = Inr s' \<Longrightarrow> stake_db_ok s \<Longrightarrow>
     grantors_ok (fst s) \<Longrightarrow> moves 0 s s'"
  "update_grants n now account last_reward force pos acc s = Inr q \<Longrightarrow> stake_db_ok s \<Longrightarrow>
     grantors_ok (fst s) \<Longrightarrow>
     moves (snd (fst q) - snd acc) s (snd q) \<and>
     (snd (fst q) = snd acc \<or> (\<exists>k. pos = Some k \<and> fst k = account))"
proof (induction n now account last_reward force s and n now account last_reward force pos acc s
    arbitrary: s' and q rule: update_proxied_traversal_update_grants.induct)
  case (2 n now account last_reward force s)
  obtain agent where ag: "get_agent (fst s) account = Inr agent" using 2(2) by (auto simp: bind_res_Inr)
  show ?case
  proof (cases "last_reward \<ge> ag_last_proxied_update agent \<or> force")
    case False
    with 2(2) ag show ?thesis using moves_refl [OF 2(3)] by (auto simp: bind_res_Inr)
  next
    case True
    with 2(2) ag obtain np rec db v where
      ug: "update_grants n now account last_reward force (lower_grant (account, 0) (fst s)) (0, 0) s = Inr ((np, rec), db, v)"
      and s': "s' = (modify_agent account (\<lambda>a. a\<lparr>ag_balance := ag_balance a + rec, ag_proxied := np,
                                              ag_last_proxied_update := of_int now\<rparr>) db, v)"
      by (auto simp: bind_res_Inr)
    from 2(1) [OF ag True ug 2(3,4)] have m1: "moves rec s (db, v)"
      and why: "rec = 0 \<or> (\<exists>k. lower_grant (account, 0) (fst s) = Some k \<and> fst k = account)" by simp_all
    have lv: "level_of db = level_of (fst s)" using m1 by (simp add: moves_def)
    have "level_of (fst s) account = Some (ag_proxy_level agent)" using ag by (simp add: level_of_def get_agent_Inr)
    then have "level_of db account = Some (ag_proxy_level agent)" by (simp add: lv)
    then obtain a where a: "fm_find (agents db) account = Some a" "ag_proxy_level a = ag_proxy_level agent"
      by (auto simp: level_of_def)
    have "rec = 0" if "ag_proxy_level a = 0"
    proof (rule ccontr)
      assume "rec \<noteq> 0"
      then obtain k where k: "lower_grant (account, 0) (fst s) = Some k" "fst k = account" using why by blast
      then have "level_of (fst s) account \<noteq> Some 0" using 2(4) lower_grant_in [OF k(1)] by (auto simp: grantors_ok_def)
      with a that show False unfolding lv [symmetric] by (simp add: level_of_def)
    qed
    moreover have "stake_db_ok (db, v)" using m1 by (simp add: moves_def)
    ultimately have "moves (- rec) (db, v) s'"
      unfolding s' using credit_agent_moves [OF _ a(1), of v "\<lambda>a. a\<lparr>ag_balance := ag_balance a + rec, ag_proxied := np,
                                              ag_last_proxied_update := of_int now\<rparr>" rec] by simp
    from moves_trans [OF m1 this] show ?thesis by simp
  qed
next
  case (4 n now account last_reward force pos acc s)
  show ?case
  proof (cases "\<exists>k. pos = Some k \<and> fst k = account")
    case False
    with 4(4) have "q = (acc, s)" by (auto split: option.splits)
    then show ?thesis using moves_refl [OF 4(5)] by simp
  next
    case True
    then obtain k where k: "pos = Some k" "fst k = account" by blast
    with 4(4) obtain pa0 s1 agent pa g where g: "get_agent (fst s) (snd k) = Inr pa0"
      "update_proxied_traversal n now (snd k) last_reward force s = Inr s1"
      "get_agent (fst s1) account = Inr agent" "get_agent (fst s1) (snd k) = Inr pa"
      "fm_find (grants (fst s1)) k = Some g"
      by (auto simp: bind_res_Inr split: option.splits)
    have m1: "moves 0 s s1" using 4(1) [OF k(1) _ g(1,2) 4(5,6)] k by simp
    then have ok1: "stake_db_ok s1" "grantors_ok (fst s1)" using grantors_ok_moves [OF m1 4(6)] by (simp_all add: moves_def)
    obtain bf bm where au: "autorc_get (fst s1) account = (bf, bm)" by force
    let ?fee = "bf \<and> gr_break_fee g < ag_fee pa"
    let ?stake = "bm \<and> gr_break_min_own_staked g > ag_min_own_staked pa"
    let ?keep = "ag_proxy_level pa < ag_proxy_level agent \<and> \<not> ?fee \<and> \<not> ?stake"
    show ?thesis
    proof (cases ?keep)
      case True
      with 4(4) k g au obtain x where
        x: "(if ag_shares_sum pa \<noteq> 0 then safe_prop int64_t (get_total_funds pa) (gr_share g) (ag_shares_sum pa) True
             else Inr 0) = Inr x"
        and rest: "update_grants n now account last_reward force (next_grant k (fst s1)) (fst acc + x, snd acc) s1 = Inr q"
        by (auto simp: bind_res_Inr)
      from 4(2) [OF k(1) _ g refl au [symmetric] refl refl True x rest ok1] k
      have "moves (snd (fst q) - snd acc) s1 (snd q)" by simp
      from moves_trans [OF m1 this] show ?thesis using k by auto
    next
      case False
      with 4(4) k g au obtain ret pos' s2 where
        rt: "recall_proxied_traversal n k (gr_share g) True s1 = Inr (ret, pos', s2)"
        and rest: "update_grants n now account last_reward force pos' (fst acc, snd acc + ret) s2 = Inr q"
        by (auto simp: bind_res_Inr)
      have m2: "moves ret s1 s2" using recall_moves(1) [OF rt ok1(1)] by simp
      then have ok2: "stake_db_ok s2" "grantors_ok (fst s2)"
        using grantors_ok_moves [OF m2 ok1(2)] by (simp_all add: moves_def)
      from 4(3) [OF k(1) _ g refl au [symmetric] refl refl False rt refl refl rest ok2] k
      have "moves (snd (fst q) - (snd acc + ret)) s2 (snd q)" by simp
      from moves_trans [OF moves_trans [OF m1 m2] this] show ?thesis using k by auto
    qed
  qed
qed simp_all

section \<open>The traversals return\<close>

text \<open>
  Grants lead to agents of lower level.  A traversal then is at most as deep as the level of its
  agent, and one loop passes every grant at most once.
\<close>

definition lvl :: "stake_db \<Rightarrow> 64 word \<Rightarrow> nat" where
  "lvl db account = (case level_of db account of Some l \<Rightarrow> unat l | None \<Rightarrow> 0)"

definition descending :: "stake_db \<Rightarrow> bool" where
  "descending db \<longleftrightarrow> (\<forall>k \<in> grant_keys db. lvl db (snd k) < lvl db (fst k))"

definition grants_left :: "stake_db \<Rightarrow> grant_key option \<Rightarrow> nat" where
  "grants_left db pos = (case pos of None \<Rightarrow> 0 | Some k \<Rightarrow> card {k' \<in> grant_keys db. k \<le> k'})"

lemma descending_moves:
  assumes "moves d s s'" and "descending (fst s)"
  shows "descending (fst s')" and "lvl (fst s') = lvl (fst s)" and "stake_db_ok s'"
  using assms by (auto simp: moves_def descending_def lvl_def fun_eq_iff)

lemma descending_grantors_ok: "descending db \<Longrightarrow> grantors_ok db"
  by (force simp: descending_def grantors_ok_def lvl_def)

lemma finite_grant_keys [simp]: "finite (grant_keys db)"
  by (simp add: grant_keys_def)

lemma grants_left_le: "grants_left db pos \<le> card (grant_keys db)"
  by (auto simp: grants_left_def intro: card_mono split: option.split)

lemma next_grant_greater: "next_grant k db = Some k' \<Longrightarrow> k < k'"
  by (auto simp: next_grant_def find_Some_iff)

lemma grants_left_next:
  assumes "grant_keys db' \<subseteq> grant_keys db" and "k \<in> grant_keys db" and "pos = next_grant k db0"
  shows "grants_left db' pos < grants_left db (Some k)"
proof (cases pos)
  case None
  have "k \<in> {x \<in> grant_keys db. k \<le> x}" using assms(2) by simp
  then have "{x \<in> grant_keys db. k \<le> x} \<noteq> {}" by blast
  then have "0 < card {x \<in> grant_keys db. k \<le> x}" unfolding card_gt_0_iff by simp
  then show ?thesis by (simp add: grants_left_def None)
next
  case (Some k')
  then have "k < k'" using assms(3) next_grant_greater by metis
  then have "{x \<in> grant_keys db'. k' \<le> x} \<subseteq> {x \<in> grant_keys db. k \<le> x}"
    using assms(1) by (blast intro: order.trans less_imp_le)
  moreover have "k \<notin> {x \<in> grant_keys db'. k' \<le> x}" and "k \<in> {x \<in> grant_keys db. k \<le> x}"
    using \<open>k < k'\<close> assms(2) by auto
  ultimately have "{x \<in> grant_keys db'. k' \<le> x} \<subset> {x \<in> grant_keys db. k \<le> x}" by blast
  then show ?thesis by (simp add: grants_left_def Some psubset_card_mono)
qed

lemma safe_prop_returns [simp]: "safe_prop t a b c st \<noteq> Inl No_return"
  by (simp add: safe_prop_def downgrade_cast_def Let_def eos_assert_def)

lemma get_agent_returns [simp]: "get_agent db a \<noteq> Inl No_return"
  by (simp add: get_agent_def split: option.split)

lemma settle_grant_returns [simp]: "settle_grant k share forced db \<noteq> Inl No_return"
  by (simp add: settle_grant_def split: option.split)

lemma modify_agent_keys [simp]: "grant_keys (modify_agent a f db) = grant_keys db"
  by (simp add: modify_agent_def grant_keys_def split: option.split)

lemma recall_advances:
  assumes "recall_proxied_traversal n k share forced s = Inr (ret, pos, s')" and "stake_db_ok s"
  shows "grants_left (fst s') pos < grants_left (fst s) (Some k)"
proof (cases n)
  case (Suc m)
  from assms(1) [unfolded Suc] obtain pret db1 v1 f where
    rg: "recall_grants m (snd k) share (lower_grant (snd k, 0) (fst s)) 0 s = Inr (pret, db1, v1)"
    and st: "settle_grant k share forced (modify_agent (snd k) f db1) = Inr (pos, fst s')"
    by (auto simp: bind_res_Inr eos_assert_Inr Let_def)
  let ?db2 = "modify_agent (snd k) f db1"
  from recall_moves(2) [OF rg assms(2)] have s1: "grant_keys db1 \<subseteq> grant_keys (fst s)" by (simp add: moves_def)
  from st obtain g where g: "fm_find (grants ?db2) k = Some g" and pos: "pos = next_grant k ?db2"
    by (auto simp: settle_grant_def split: option.splits)
  have "k \<in> grant_keys ?db2" using fm_find_SomeD [OF g] by (force simp: grant_keys_def)
  then show ?thesis
    using grants_left_next [of "fst s'" "fst s" k pos, OF _ _ pos] settle_grant_keys [OF st] s1 by auto
qed (use assms in simp)

text \<open>The fuel that a traversal at an agent of level \<open>l\<close> needs when there are at most \<open>G\<close> grants.\<close>

lemma recall_returns:
  "stake_db_ok s \<Longrightarrow> descending (fst s) \<Longrightarrow> card (grant_keys (fst s)) \<le> G \<Longrightarrow>
     (G + 2) * (lvl (fst s) (snd k) + 1) \<le> n \<Longrightarrow>
     recall_proxied_traversal n k share forced s \<noteq> Inl No_return"
  "stake_db_ok s \<Longrightarrow> descending (fst s) \<Longrightarrow> card (grant_keys (fst s)) \<le> G \<Longrightarrow>
     grants_left (fst s) pos + 1 + (G + 2) * lvl (fst s) account \<le> n \<Longrightarrow>
     recall_grants n account share pos acc s \<noteq> Inl No_return"
proof (induction n k share forced s and n account share pos acc s
    rule: recall_proxied_traversal_recall_grants.induct)
  case (2 n k share forced s)
  have "grants_left (fst s) (lower_grant (snd k, 0) (fst s)) \<le> G"
    using grants_left_le [of "fst s"] 2(4) le_trans by blast
  then have "recall_grants n (snd k) share (lower_grant (snd k, 0) (fst s)) 0 s \<noteq> Inl No_return"
    if "get_agent (fst s) (snd k) = Inr agent" "eos_assert (share \<ge> 0) Transaction_exception = Inr x"
      "eos_assert (share \<le> ag_shares_sum agent) Transaction_exception = Inr y"
      "safe_prop int64_t (ag_balance agent) share (ag_shares_sum agent) True = Inr bal"
      "eos_assert (bal \<le> ag_balance agent) Transaction_exception = Inr z" for agent x y bal z
    using 2(1) [OF that 2(2,3,4)] 2(5) by simp
  then show ?case by (auto simp: bind_res_Inl Let_def eos_assert_def split: if_splits prod.splits)
next
  case (4 n account share pos acc s)
  show ?case
  proof (cases "\<exists>k g. pos = Some k \<and> fst k = account \<and> fm_find (grants (fst s)) k = Some g")
    case False
    then show ?thesis by (auto split: option.split)
  next
    case True
    then obtain k g where k: "pos = Some k" "fst k = account" and g: "fm_find (grants (fst s)) k = Some g" by blast
    have kin: "k \<in> grant_keys (fst s)" using fm_find_SomeD [OF g] by (force simp: grant_keys_def)
    then have "lvl (fst s) (snd k) + 1 \<le> lvl (fst s) account" using 4(4) k by (auto simp: descending_def)
    then have "(G + 2) * (lvl (fst s) (snd k) + 1) \<le> (G + 2) * lvl (fst s) account" by (rule mult_le_mono2)
    then have fl: "(G + 2) * (lvl (fst s) (snd k) + 1) \<le> n" using 4(6) by linarith
    show ?thesis
    proof
      assume "recall_grants (Suc n) account share pos acc s = Inl No_return"
      with k g obtain agent cs where ag: "get_agent (fst s) account = Inr agent"
        and cs: "safe_prop int64_t (gr_share g) share (ag_shares_sum agent) True = Inr cs"
        and bad: "bind_res (recall_proxied_traversal n k cs False s) (\<lambda>(ret, pos', s').
                   recall_grants n account share pos' (acc + ret) s') = Inl No_return"
        by (auto simp: bind_res_Inl)
      from 4(1) [OF k(1) _ g ag cs 4(3,4,5) fl] k
      obtain ret pos' s' where rt: "recall_proxied_traversal n k cs False s = Inr (ret, pos', s')"
        and rest: "recall_grants n account share pos' (acc + ret) s' = Inl No_return"
        using bad by (auto simp: bind_res_Inl)
      have mv: "moves ret s s'" using recall_moves(1) [OF rt 4(3)] by simp
      note ds = descending_moves [OF mv 4(4)]
      have "card (grant_keys (fst s')) \<le> card (grant_keys (fst s))" using mv by (simp add: moves_def card_mono)
      then have G: "card (grant_keys (fst s')) \<le> G" using 4(5) by simp
      have "grants_left (fst s') pos' + 1 + (G + 2) * lvl (fst s') account \<le> n"
        using recall_advances [OF rt 4(3)] 4(6) k ds(2) by simp
      from 4(2) [OF k(1) _ g ag cs rt refl refl ds(3,1) G this] k rest show False by simp
    qed
  qed
qed simp_all

lemma grant_keys_iff: "k \<in> grant_keys db \<longleftrightarrow> fm_find (grants db) k \<noteq> None"
  using fm_find_None_iff [of "grants db" k] by (simp add: grant_keys_def)

lemma next_grant_in: "next_grant k db = Some k' \<Longrightarrow> k' \<in> grant_keys db"
  unfolding next_grant_def grant_keys_def by (rule find_fst_in)

lemma settle_grant_pos:
  assumes "settle_grant k share forced db = Inr (Some k', db')" and inv: "fm_invar (grants db)"
  shows "k' \<in> grant_keys db'"
proof -
  from assms(1) have nx: "next_grant k db = Some k'" by (auto simp: settle_grant_def split: option.splits)
  from assms(1) next_grant_greater [OF nx] next_grant_in [OF nx] show ?thesis
    by (auto simp: settle_grant_def grant_keys_iff fm_find_erase [OF inv] split: option.splits if_splits)
qed

lemma recall_pos_in:
  assumes "recall_proxied_traversal n k share forced s = Inr (ret, Some k', s')" and "stake_db_ok s"
  shows "k' \<in> grant_keys (fst s')"
proof (cases n)
  case (Suc m)
  from assms(1) [unfolded Suc] obtain pret db1 v1 f where
    rg: "recall_grants m (snd k) share (lower_grant (snd k, 0) (fst s)) 0 s = Inr (pret, db1, v1)"
    and st: "settle_grant k share forced (modify_agent (snd k) f db1) = Inr (Some k', fst s')"
    by (auto simp: bind_res_Inr eos_assert_Inr Let_def)
  let ?db2 = "modify_agent (snd k) f db1"
  from recall_moves(2) [OF rg assms(2)] have "fm_invar (grants db1)" by (simp add: moves_def stake_db_ok_def)
  then have "fm_invar (grants ?db2)" by (simp add: modify_agent_def split: option.split)
  from settle_grant_pos [OF st this] show ?thesis .
qed (use assms in simp)

lemma update_returns:
  "stake_db_ok s \<Longrightarrow> descending (fst s) \<Longrightarrow> card (grant_keys (fst s)) \<le> G \<Longrightarrow>
     (G + 2) * (lvl (fst s) account + 1) \<le> n \<Longrightarrow>
     update_proxied_traversal n now account last_reward force s \<noteq> Inl No_return"
  "stake_db_ok s \<Longrightarrow> descending (fst s) \<Longrightarrow> card (grant_keys (fst s)) \<le> G \<Longrightarrow>
     (\<forall>k. pos = Some k \<longrightarrow> k \<in> grant_keys (fst s)) \<Longrightarrow>
     grants_left (fst s) pos + 1 + (G + 2) * lvl (fst s) account \<le> n \<Longrightarrow>
     update_grants n now account last_reward force pos acc s \<noteq> Inl No_return"
proof (induction n now account last_reward force s and n now account last_reward force pos acc s
    rule: update_proxied_traversal_update_grants.induct)
  case (2 n now account last_reward force s)
  let ?pos = "lower_grant (account, 0) (fst s)"
  have pin: "\<forall>k. ?pos = Some k \<longrightarrow> k \<in> grant_keys (fst s)" using lower_grant_in by blast
  have "grants_left (fst s) ?pos \<le> G" using grants_left_le [of "fst s"] 2(4) le_trans by blast
  then have "update_grants n now account last_reward force ?pos (0, 0) s \<noteq> Inl No_return"
    if "get_agent (fst s) account = Inr agent" "last_reward \<ge> ag_last_proxied_update agent \<or> force" for agent
    using 2(1) [OF that 2(2,3,4) pin] 2(5) by simp
  then show ?case by (auto simp: bind_res_Inl split: prod.splits)
next
  case (4 n now account last_reward force pos acc s)
  show ?case
  proof (cases "\<exists>k. pos = Some k \<and> fst k = account")
    case False
    then show ?thesis by (auto split: option.split)
  next
    case True
    then obtain k where k: "pos = Some k" "fst k = account" by blast
    then have "lvl (fst s) (snd k) + 1 \<le> lvl (fst s) account" using 4(5,7) by (auto simp: descending_def)
    then have "(G + 2) * (lvl (fst s) (snd k) + 1) \<le> (G + 2) * lvl (fst s) account" by (rule mult_le_mono2)
    then have fl: "(G + 2) * (lvl (fst s) (snd k) + 1) \<le> n" using 4(8) by linarith
    show ?thesis
    proof
      assume bad: "update_grants (Suc n) now account last_reward force pos acc s = Inl No_return"
      then obtain a0 where a0: "get_agent (fst s) (snd k) = Inr a0" using k by (auto simp: bind_res_Inl)
      from 4(1) [OF k(1) _ a0 4(4,5,6) fl] k bad a0
      obtain s1 agent pa g where g: "update_proxied_traversal n now (snd k) last_reward force s = Inr s1"
        "get_agent (fst s1) account = Inr agent" "get_agent (fst s1) (snd k) = Inr pa"
        "fm_find (grants (fst s1)) k = Some g"
        by (auto simp: bind_res_Inl split: option.splits)
      have m1: "moves 0 s s1" by (rule update_moves(1) [OF g(1) 4(4) descending_grantors_ok [OF 4(5)]])
      note ds = descending_moves [OF m1 4(5)]
      have ks: "grant_keys (fst s1) \<subseteq> grant_keys (fst s)" using m1 by (simp add: moves_def)
      have G1: "card (grant_keys (fst s1)) \<le> G" using card_mono [OF _ ks] 4(6) by simp
      have kin: "k \<in> grant_keys (fst s1)" using g(4) by (simp add: grant_keys_iff)
      have le: "grants_left (fst s1) (Some k) \<le> grants_left (fst s) (Some k)"
        using ks by (auto simp: grants_left_def intro!: card_mono)
      have lt: "grants_left (fst s2) pos' + 1 + (G + 2) * lvl (fst s1) account \<le> n"
        if "grants_left (fst s2) pos' < grants_left (fst s1) (Some k)" for s2 :: "stake_db \<times> votes_changes" and pos'
        using that le 4(8) k ds(2) by simp
      obtain bf bm where au: "autorc_get (fst s1) account = (bf, bm)" by force
      let ?keep = "ag_proxy_level pa < ag_proxy_level agent \<and> \<not> (bf \<and> gr_break_fee g < ag_fee pa) \<and>
        \<not> (bm \<and> gr_break_min_own_staked g > ag_min_own_staked pa)"
      show False
      proof (cases ?keep)
        case True
        with bad k a0 g au obtain x where
          x: "(if ag_shares_sum pa \<noteq> 0 then safe_prop int64_t (get_total_funds pa) (gr_share g) (ag_shares_sum pa) True
               else Inr 0) = Inr x"
          and rest: "update_grants n now account last_reward force (next_grant k (fst s1)) (fst acc + x, snd acc) s1
             = Inl No_return"
          by (auto simp: bind_res_Inl split: if_splits)
        have "\<forall>k'. next_grant k (fst s1) = Some k' \<longrightarrow> k' \<in> grant_keys (fst s1)" using next_grant_in by blast
        from 4(2) [OF k(1) _ a0 g refl au [symmetric] refl refl True x ds(3,1) G1 this
            lt [OF grants_left_next [OF order.refl kin refl]]] k rest show False by simp
      next
        case False
        have "recall_proxied_traversal n k (gr_share g) True s1 \<noteq> Inl No_return"
          by (rule recall_returns(1) [OF ds(3,1) G1]) (use fl ds(2) in simp)
        with False bad k a0 g au obtain ret pos' s2 where
          rt: "recall_proxied_traversal n k (gr_share g) True s1 = Inr (ret, pos', s2)"
          and rest: "update_grants n now account last_reward force pos' (fst acc, snd acc + ret) s2 = Inl No_return"
          by (auto simp: bind_res_Inl)
        have m2: "moves ret s1 s2" using recall_moves(1) [OF rt ds(3)] by simp
        note ds2 = descending_moves [OF m2 ds(1)]
        have "grant_keys (fst s2) \<subseteq> grant_keys (fst s1)" using m2 by (simp add: moves_def)
        from card_mono [OF _ this] have G2: "card (grant_keys (fst s2)) \<le> G" using G1 by simp
        have pin: "\<forall>k'. pos' = Some k' \<longrightarrow> k' \<in> grant_keys (fst s2)"
          using recall_pos_in [OF _ ds(3)] rt by blast
        from 4(3) [OF k(1) _ a0 g refl au [symmetric] refl refl False rt refl refl ds2(3,1) G2 pin]
          lt [OF recall_advances [OF rt ds(3)]] ds2(2) k rest show False by simp
      qed
    qed
  qed
qed simp_all

section \<open>The stake of a token\<close>

text \<open>
  What the system contract sets up and the operations keep: the tables are ordered, grants lead to
  lower levels, and the votes of the candidates and the recorded total are the balances of the
  agents that vote.
\<close>

definition stake_ok :: "stake_db \<Rightarrow> bool" where
  "stake_ok db \<longleftrightarrow>
     fm_invar (agents db) \<and> fm_invar (grants db) \<and> fm_invar (candidates db) \<and> descending db \<and>
     sum_fm cand_votes (candidates db) = direct_votes db \<and>
     (case stake_stat db of Some st \<Rightarrow> st_total_votes st = direct_votes db | None \<Rightarrow> True)"

lemma set_votes_fold:
  assumes "fold_res (\<lambda>(account, x) d.
       case fm_find (candidates d) account of
         None \<Rightarrow> Inl Transaction_exception
       | Some c \<Rightarrow> bind_res (cand_set_votes (cand_votes c + x) supply c) (\<lambda>c'.
                     Inr (d\<lparr>candidates := fm_set account c' (candidates d)\<rparr>))) v d = Inr d'"
    and "fm_invar (candidates d)"
  shows "fm_invar (candidates d') \<and> sum_fm cand_votes (candidates d') = sum_fm cand_votes (candidates d) + sum_fm id v \<and>
         (\<exists>cs. d' = d\<lparr>candidates := cs\<rparr>)"
  using assms
proof (induction v arbitrary: d)
  case Nil
  then show ?case by (auto simp: sum_fm_def intro: exI [of _ "candidates d'"])
next
  case (Cons p v)
  obtain account x where p: "p = (account, x)" by force
  from Cons.prems(1) p obtain c c' where c: "fm_find (candidates d) account = Some c"
    and c': "cand_set_votes (cand_votes c + x) supply c = Inr c'"
    by (auto simp: bind_res_Inr split: option.splits)
  let ?d = "d\<lparr>candidates := fm_set account c' (candidates d)\<rparr>"
  from c' have cv: "cand_votes c' = cand_votes c + x"
    by (auto simp: cand_set_votes_def Let_def bind_res_Inr eos_assert_Inr split: if_splits)
  have inv: "fm_invar (candidates ?d)" using Cons.prems(2) by (simp add: fm_invar_set)
  have ih: "fm_invar (candidates d') \<and> sum_fm cand_votes (candidates d') = sum_fm cand_votes (candidates ?d) + sum_fm id v \<and>
         (\<exists>cs. d' = ?d\<lparr>candidates := cs\<rparr>)"
    by (rule Cons.IH [OF _ inv]) (use Cons.prems(1) p c c' in simp)
  have "sum_fm cand_votes (candidates ?d) = sum_fm cand_votes (candidates d) + x"
    using sum_fm_set [OF Cons.prems(2), of cand_votes account c'] c cv by simp
  with ih show ?case by (auto simp: p sum_fm_def)
qed

lemma set_votes_adds:
  assumes "set_votes v db = Inr db'" and "fm_invar (candidates db)"
  shows "fm_invar (candidates db')" and "sum_fm cand_votes (candidates db') = sum_fm cand_votes (candidates db) + sum_fm id v"
    and "agents db' = agents db" and "grants db' = grants db" and "has_stake_param db' = has_stake_param db"
    and "\<exists>st. stake_stat db = Some st \<and>
           stake_stat db' = Some (st\<lparr>st_total_votes := st_total_votes st + sum_fm id v\<rparr>)"
proof -
  from assms(1) obtain st sup where st: "stake_stat db = Some st" "token_supply db = Some sup"
    and f: "fold_res (\<lambda>(account, x) d.
       case fm_find (candidates d) account of
         None \<Rightarrow> Inl Transaction_exception
       | Some c \<Rightarrow> bind_res (cand_set_votes (cand_votes c + x) sup c) (\<lambda>c'.
                     Inr (d\<lparr>candidates := fm_set account c' (candidates d)\<rparr>))) v
       (db\<lparr>stake_stat := Some (st\<lparr>st_total_votes := st_total_votes st + sum_list (map snd v)\<rparr>)\<rparr>) = Inr db'"
    by (auto simp: set_votes_def split: option.splits)
  have sm: "sum_list (map snd v) = sum_fm id v" by (simp add: sum_fm_def)
  note r = set_votes_fold [OF f]
  show "fm_invar (candidates db')" and "sum_fm cand_votes (candidates db') = sum_fm cand_votes (candidates db) + sum_fm id v"
    and "agents db' = agents db" and "grants db' = grants db" and "has_stake_param db' = has_stake_param db"
    and "\<exists>st. stake_stat db = Some st \<and>
           stake_stat db' = Some (st\<lparr>st_total_votes := st_total_votes st + sum_fm id v\<rparr>)"
    using r assms(2) st sm by auto
qed

lemma set_votes_settles:
  assumes "moves 0 (db, []) (db1, v)" and "set_votes v db1 = Inr db'" and "stake_ok db"
  shows "stake_ok db'" and "total_balance db' = total_balance db" and "has_stake_param db' = has_stake_param db"
    and "\<exists>st x. stake_stat db = Some st \<and> stake_stat db' = Some (st\<lparr>st_total_votes := x\<rparr>)"
proof -
  have "fm_invar (candidates db1)" using assms(1,3) by (simp add: moves_def stake_ok_def)
  note s = set_votes_adds [OF assms(2) this]
  have lv: "level_of db' = level_of db1" "grant_keys db' = grant_keys db1" "direct_votes db' = direct_votes db1"
    "total_balance db' = total_balance db1"
    using s(3,4) by (simp_all add: level_of_def fun_eq_iff grant_keys_def direct_votes_def total_balance_def)
  have "descending db1" using descending_moves(1) [OF assms(1)] assms(3) by (simp add: stake_ok_def)
  then have "descending db'" using lv by (simp add: descending_def lvl_def)
  then show "stake_ok db'"
    using assms(1,3) s lv by (auto simp: stake_ok_def moves_def stake_db_ok_def sum_fm_def)
  show "total_balance db' = total_balance db" using assms(1) lv by (simp add: moves_def)
  show "has_stake_param db' = has_stake_param db" using assms(1) s(5) by (simp add: moves_def)
  show "\<exists>st x. stake_stat db = Some st \<and> stake_stat db' = Some (st\<lparr>st_total_votes := x\<rparr>)"
    using assms(1) s(6) by (auto simp: moves_def)
qed

lemma fold_res_returns:
  "(\<And>x s. f x s \<noteq> Inl No_return) \<Longrightarrow> fold_res f xs s \<noteq> Inl No_return"
  by (induction xs arbitrary: s) (auto simp: bind_res_Inl)

lemma set_votes_returns: "set_votes v db \<noteq> Inl No_return"
  by (auto simp: set_votes_def cand_set_votes_def Let_def bind_res_Inl eos_assert_Inl
      split: option.splits if_splits intro!: fold_res_returns)

lemma stake_ok_start: "stake_ok db \<Longrightarrow> stake_db_ok (db, [])"
  by (simp add: stake_ok_def stake_db_ok_def)

lemma recall_search_moves:
  assumes "recall_search n grantor recipient pct pos s = Inr (amount, s')" and "stake_db_ok s"
  shows "moves amount s s' \<and> (amount \<noteq> 0 \<longrightarrow> (\<exists>k \<in> grant_keys (fst s). fst k = grantor))"
  using assms
proof (induction n grantor recipient pct pos s rule: recall_search.induct)
  case (2 n grantor recipient pct pos s)
  show ?case
  proof (cases "\<exists>k. pos = Some k \<and> fst k = grantor \<and> snd k = recipient")
    case True
    then obtain k where k: "pos = Some k" "fst k = grantor" "snd k = recipient" by blast
    with 2(2) obtain g share pos' where g: "fm_find (grants (fst s)) k = Some g"
      and rt: "recall_proxied_traversal n k share False s = Inr (amount, pos', s')"
      by (auto simp: bind_res_Inr split: option.splits)
    show ?thesis using recall_moves(1) [OF rt 2(3)] k g by (auto simp: grant_keys_iff)
  next
    case False
    with 2 moves_refl [OF 2(3)] show ?thesis by (auto split: option.splits if_splits)
  qed
qed simp

lemma lvl_less: "lvl db account < 256"
  using unsigned_less [of "the (level_of db account)", where 'a = nat] by (auto simp: lvl_def split: option.split)

lemma recall_search_returns:
  assumes "stake_db_ok s" and "descending (fst s)" and "card (grant_keys (fst s)) \<le> G"
    and "\<forall>k. pos = Some k \<longrightarrow> k \<in> grant_keys (fst s)"
    and "grants_left (fst s) pos + (G + 2) * 256 + 1 \<le> n"
  shows "recall_search n grantor recipient pct pos s \<noteq> Inl No_return"
  using assms(4,5)
proof (induction n arbitrary: pos)
  case (Suc n)
  have "(G + 2) * (lvl (fst s) (snd k) + 1) \<le> (G + 2) * 256" for k
    by (rule mult_le_mono2) (use lvl_less [of "fst s" "snd k"] in simp)
  moreover have "(G + 2) * 256 \<le> n" using Suc.prems(2) by simp
  ultimately have "(G + 2) * (lvl (fst s) (snd k) + 1) \<le> n" for k by (rule le_trans)
  then have rt: "recall_proxied_traversal n k share False s \<noteq> Inl No_return" for k share
    by (rule recall_returns(1) [OF assms(1,2,3)])
  have "recall_search n grantor recipient pct (next_grant k (fst s)) s \<noteq> Inl No_return" if "pos = Some k" for k
  proof (rule Suc.IH)
    show "\<forall>k'. next_grant k (fst s) = Some k' \<longrightarrow> k' \<in> grant_keys (fst s)" using next_grant_in by blast
    show "grants_left (fst s) (next_grant k (fst s)) + (G + 2) * 256 + 1 \<le> n"
      using grants_left_next [OF order.refl _ refl, of k "fst s" "fst s"] Suc.prems that by fastforce
  qed
  then show ?case
    using rt by (auto simp: bind_res_Inl safe_pct_def split: option.split prod.splits)
qed simp

lemma grantor_balance:
  assumes "moves amount (db, []) (db2, v)" and "stake_ok db" and "fm_find (agents db) grantor \<noteq> None"
    and "amount \<noteq> 0 \<longrightarrow> (\<exists>k \<in> grant_keys db. fst k = grantor)"
  shows "moves 0 (db, []) (modify_agent grantor (\<lambda>a. a\<lparr>ag_balance := ag_balance a + amount,
                                                       ag_proxied := ag_proxied a - amount\<rparr>) db2, v)"
proof -
  have lv: "level_of db2 = level_of db" and ok: "stake_db_ok (db2, v)" using assms(1) by (simp_all add: moves_def)
  then obtain a where a: "fm_find (agents db2) grantor = Some a"
    using assms(3) by (metis level_of_def not_None_eq option.map_disc_iff)
  have "grantors_ok db" using assms(2) by (simp add: stake_ok_def descending_grantors_ok)
  moreover have "level_of db grantor = Some (ag_proxy_level a)" using a unfolding lv [symmetric] by (simp add: level_of_def)
  ultimately have "amount = 0" if "ag_proxy_level a = 0" using that assms(4) by (auto simp: grantors_ok_def)
  then have "moves (- amount) (db2, v) (modify_agent grantor (\<lambda>a. a\<lparr>ag_balance := ag_balance a + amount,
                                                       ag_proxied := ag_proxied a - amount\<rparr>) db2, v)"
    by (intro credit_agent_moves [OF ok a]) simp_all
  from moves_trans [OF assms(1) this] show ?thesis by simp
qed

text \<open>An agent of level 1 that granted 100 to a voting agent whose fee is above the agreed one.\<close>

definition ex_stake_agent :: "8 word \<Rightarrow> int \<Rightarrow> int \<Rightarrow> int \<Rightarrow> int \<Rightarrow> int \<Rightarrow> stake_agent_object" where
  "ex_stake_agent l balance proxied shares own fee =
     \<lparr>ag_proxy_level = l, ag_last_proxied_update = 0, ag_balance = balance, ag_proxied = proxied,
      ag_shares_sum = shares, ag_own_share = own, ag_fee = fee, ag_min_own_staked = 0, ag_provided = 0, ag_received = 0\<rparr>"

definition ex_stake_db :: "int \<Rightarrow> stake_db" where
  "ex_stake_db fee =
     \<lparr>agents = [(1, ex_stake_agent 0 150 0 150 50 fee), (2, ex_stake_agent 1 20 100 120 120 0)],
      grants = [((2, 1), \<lparr>gr_pct = 0, gr_share = 100, gr_break_fee = 1000, gr_break_min_own_staked = 0\<rparr>)],
      candidates = [(1, \<lparr>cand_latest_pick = 0, cand_votes = 150, cand_priority = 0, cand_enabled = True\<rparr>)],
      autorcs = None,
      stake_stat = Some \<lparr>st_total_staked = 170, st_total_votes = 150, st_last_reward = 0, st_enabled = True\<rparr>,
      has_stake_param = True, token_supply = Some 1000\<rparr>"

lemma stake_ok_ex: "stake_ok (ex_stake_db fee)"
  by (simp add: stake_ok_def ex_stake_db_def ex_stake_agent_def fm_invar_Cons descending_def grant_keys_def lvl_def level_of_def
      sum_fm_def direct_votes_def)

lemma ex_update:
  "map_sum id (\<lambda>db. (map (ag_balance \<circ> snd) (agents db), map (cand_votes \<circ> snd) (candidates db), grants db))
     (update_proxied 10 7 2 True (ex_stake_db 2000)) = Inr ([50, 120], [50], [])"
  by code_simp

lemma ex_recall:
  "map_sum id (\<lambda>db. (map (ag_balance \<circ> snd) (agents db), map (cand_votes \<circ> snd) (candidates db)))
     (recall_proxied 10 7 2 1 5000 (ex_stake_db 0)) = Inr ([100, 70], [100])"
  by code_simp

lemma update_proxied_keeps:
  assumes "stake_ok db" and "update_proxied fuel now account force db = Inr db'"
  shows "stake_ok db'" and "total_balance db' = total_balance db" and "has_stake_param db' = has_stake_param db"
    and "\<exists>st x. stake_stat db = Some st \<and> stake_stat db' = Some (st\<lparr>st_total_votes := x\<rparr>)"
proof -
  obtain st where st: "stake_stat db = Some st" using assms(2) by (auto simp: update_proxied_def split: option.splits)
  obtain db1 v where ut: "update_proxied_traversal fuel now account (st_last_reward st) force (db, []) = Inr (db1, v)"
    and sv: "set_votes v db1 = Inr db'"
    using assms(2) by (auto simp: update_proxied_def st bind_res_Inr)
  have "grantors_ok db" using assms(1) by (simp add: stake_ok_def descending_grantors_ok)
  then have "moves 0 (db, []) (db1, v)" using update_moves(1) [OF ut stake_ok_start [OF assms(1)]] by simp
  note r = set_votes_settles [OF this sv assms(1)]
  show "stake_ok db'" and "total_balance db' = total_balance db" and "has_stake_param db' = has_stake_param db"
    and "\<exists>st x. stake_stat db = Some st \<and> stake_stat db' = Some (st\<lparr>st_total_votes := x\<rparr>)" by (rule r)+
qed

text \<open>
  C17. Updating an account's proxied funds, with every automatic recall it triggers, only moves
  stake: the balances of all agents keep their sum, and the votes of the candidates and the recorded
  total stay equal to the balances of the agents that vote.
\<close>

theorem update_proxied_conserves:
  assumes "stake_ok db" and "update_proxied fuel now account force db = Inr db'"
  shows "stake_ok db' \<and> total_balance db' = total_balance db"
  using update_proxied_keeps [OF assms] by simp

theorem update_proxied_conserves_witness:
  "\<exists>db'. update_proxied 10 7 2 True (ex_stake_db 2000) = Inr db' \<and> stake_ok db' \<and>
     total_balance db' = total_balance (ex_stake_db 2000)"
proof -
  obtain db' where "update_proxied 10 7 2 True (ex_stake_db 2000) = Inr db'"
    using ex_update by (cases "update_proxied 10 7 2 True (ex_stake_db 2000)") auto
  from update_proxied_conserves [OF stake_ok_ex this] this show ?thesis by blast
qed

text \<open>
  C19. A recall of a share of a grant moves the amount back to the grantor: balances keep their sum
  and the votes stay those of the agents that vote.
\<close>

theorem recall_proxied_conserves:
  assumes "stake_ok db" and "recall_proxied fuel now grantor recipient pct db = Inr db'"
  shows "stake_ok db' \<and> total_balance db' = total_balance db"
proof -
  obtain ga db1 v1 amount db2 v2 where ga: "get_agent db grantor = Inr ga"
    and ut: "update_proxied_traversal fuel now grantor 0 True (db, []) = Inr (db1, v1)"
    and rs: "recall_search fuel grantor recipient pct (lower_grant (grantor, 0) db1) (db1, v1) = Inr (amount, db2, v2)"
    and sv: "set_votes v2 (modify_agent grantor (\<lambda>a. a\<lparr>ag_balance := ag_balance a + amount,
                                                       ag_proxied := ag_proxied a - amount\<rparr>) db2) = Inr db'"
    using assms(2) by (auto simp: recall_proxied_def bind_res_Inr)
  have "grantors_ok db" using assms(1) by (simp add: stake_ok_def descending_grantors_ok)
  then have m1: "moves 0 (db, []) (db1, v1)" using update_moves(1) [OF ut stake_ok_start [OF assms(1)]] by simp
  then have "stake_db_ok (db1, v1)" and ks: "grant_keys db1 \<subseteq> grant_keys db" by (simp_all add: moves_def)
  note m2 = recall_search_moves [OF rs this(1)]
  have "moves amount (db, []) (db2, v2)" using moves_trans [OF m1] m2 by force
  moreover have "amount \<noteq> 0 \<longrightarrow> (\<exists>k \<in> grant_keys db. fst k = grantor)" using m2 ks by auto
  ultimately have "moves 0 (db, []) (modify_agent grantor (\<lambda>a. a\<lparr>ag_balance := ag_balance a + amount,
                                                       ag_proxied := ag_proxied a - amount\<rparr>) db2, v2)"
    using ga by (intro grantor_balance [OF _ assms(1)]) (simp_all add: get_agent_Inr)
  from set_votes_settles [OF this sv assms(1)] show ?thesis by simp
qed

theorem recall_proxied_conserves_witness:
  "\<exists>db'. recall_proxied 10 7 2 1 5000 (ex_stake_db 0) = Inr db' \<and> stake_ok db' \<and>
     total_balance db' = total_balance (ex_stake_db 0)"
proof -
  obtain db' where "recall_proxied 10 7 2 1 5000 (ex_stake_db 0) = Inr db'"
    using ex_recall by (cases "recall_proxied 10 7 2 1 5000 (ex_stake_db 0)") auto
  from recall_proxied_conserves [OF stake_ok_ex this] this show ?thesis by blast
qed



text \<open>
  C40. Of two candidates with the same votes, the one picked later should come later, but the time
  term wraps around every 4295 seconds: for every supply and number of votes for which the sum stays in
  64 bits there are picks one second apart whose priorities are in the wrong order.
\<close>

theorem priority_not_monotone:
  assumes "0 < arg" and "0 \<le> cur_supply" and "cur_supply * 1000000 div arg < 2 ^ 62"
  shows "\<exists>t c' d'. cand_set_votes arg cur_supply (c\<lparr>cand_latest_pick := t\<rparr>) = Inr c' \<and>
           cand_set_votes arg cur_supply (c\<lparr>cand_latest_pick := t + 1\<rparr>) = Inr d' \<and>
           t < t + 1 \<and> cand_priority d' < cand_priority c'"
  using assms
  by (intro exI [of _ 4294]) (simp add: cand_set_votes_def sdiv_nonneg Let_def eos_assert_def)

theorem priority_not_monotone_witness:
  "\<exists>t c' d'. cand_set_votes 10 1000 (\<lparr>cand_latest_pick = 0, cand_votes = 0, cand_priority = 0, cand_enabled = True\<rparr>\<lparr>cand_latest_pick := t\<rparr>) = Inr c' \<and>
     cand_set_votes 10 1000 (\<lparr>cand_latest_pick = 0, cand_votes = 0, cand_priority = 0, cand_enabled = True\<rparr>\<lparr>cand_latest_pick := t + 1\<rparr>) = Inr d' \<and>
     t < t + 1 \<and> cand_priority d' < cand_priority c'"
  by (rule priority_not_monotone) simp_all

end
