(* ===== verification/Accounts.thy ===== *)
theory Accounts
  imports ChainTable ProducerSchedule
begin

text \<open>
  \<^verbatim>\<open>libraries/chain/include/eosio/chain/account_object.hpp\<close>: the row of an account and the
  row of its sequence numbers.  Both tables are keyed by the value of the account name, which is
  therefore not a field here.  Digests are the type variable \<open>'d\<close>; code and ABI are byte strings.
  The parsed form of the ABI that the object caches is not modelled.
\<close>

record 'd account_object =
  vm_type :: "8 word"
  vm_version :: "8 word"
  privileged :: bool
  last_code_update :: int
  code_version :: 'd
  abi_version :: 'd
  creation_date :: slot
  acc_code :: "8 word list"
  acc_abi :: "8 word list"

record account_sequence_object =
  recv_sequence :: "64 word"
  auth_sequence :: "64 word"
  code_sequence :: "64 word"
  abi_sequence :: "64 word"

text \<open>The row that \<^verbatim>\<open>chaindb.emplace\<close> starts from; \<open>d0\<close> is the default constructed digest.\<close>

definition new_account :: "'d \<Rightarrow> 'd account_object" where
  "new_account d0 =
     \<lparr>vm_type = 0, vm_version = 0, privileged = False, last_code_update = 0, code_version = d0, abi_version = d0,
      creation_date = 0, acc_code = [], acc_abi = []\<rparr>"

definition new_account_sequence :: account_sequence_object where
  "new_account_sequence = \<lparr>recv_sequence = 0, auth_sequence = 0, code_sequence = 0, abi_sequence = 0\<rparr>"

end
