(* ===== verification/ResourceLimits.thy ===== *)
theory ResourceLimits
  imports Accounts Stake
begin

text \<open>
  \<^verbatim>\<open>libraries/chain/resource_limits.cpp\<close>, \<^verbatim>\<open>resource_limits.hpp\<close>,
  \<^verbatim>\<open>resource_limits_private.hpp\<close> and \<^verbatim>\<open>chain_config.cpp\<close>: usage averages of accounts and
  blocks, elastic limits, prices and the bill of an account against its stake.

  Integers are in the range of their C++ type; a conversion or an unsigned operation that may wrap is
  written out (\<open>to_uint64\<close>, \<open>to_int64\<close>, \<open>to_int32\<close>).  A vector has one entry per resource, in the order
  CPU, NET, RAM, STORAGE.  The configuration and the state are single rows.  A time point is its count
  of microseconds, and its seconds are the whole seconds of it.
\<close>

section \<open>Integers and vectors\<close>

definition to_uint64 :: "int \<Rightarrow> int" where "to_uint64 x = x mod 2 ^ 64"

definition to_int64 :: "int \<Rightarrow> int" where "to_int64 x = (x + 2 ^ 63) mod 2 ^ 64 - 2 ^ 63"

definition to_int32 :: "int \<Rightarrow> int" where "to_int32 x = (x + 2 ^ 31) mod 2 ^ 32 - 2 ^ 31"

definition vec_at :: "'a list \<Rightarrow> nat \<Rightarrow> 'a res" where
  "vec_at xs i = (if i < length xs then Inr (xs ! i) else Inl Undefined_behaviour)"

definition resources_num :: nat where "resources_num = 4"
abbreviation (input) CPU :: nat where "CPU \<equiv> 0"
abbreviation (input) NET :: nat where "NET \<equiv> 1"
abbreviation (input) RAM :: nat where "RAM \<equiv> 2"
abbreviation (input) STORAGE :: nat where "STORAGE \<equiv> 3"

section \<open>Moving averages\<close>

definition rate_limiting_precision :: int where "rate_limiting_precision = 1000000"

definition max_raw_value :: int where "max_raw_value = (2 ^ 64 - 1) div rate_limiting_precision"

record ema =
  last_ordinal :: int
  value_ex :: int
  consumed :: int

definition new_ema :: ema where "new_ema = \<lparr>last_ordinal = 0, value_ex = 0, consumed = 0\<rparr>"

definition average :: "ema \<Rightarrow> int" where
  "average a = value_ex a div rate_limiting_precision + (if value_ex a mod rate_limiting_precision > 0 then 1 else 0)"

text \<open>The decay of the average when a new period begins.\<close>

definition ema_decay :: "int \<Rightarrow> int \<Rightarrow> ema \<Rightarrow> ema res" where
  "ema_decay ordinal window_size a =
     (if ordinal \<noteq> 0 \<and> last_ordinal a \<noteq> ordinal then
        bind_res (eos_assert (ordinal > last_ordinal a) Resource_limit_exception) (\<lambda>_.
        bind_res
          (if last_ordinal a + window_size > ordinal
           then safe_prop uint64_t (value_ex a) (window_size - (ordinal - last_ordinal a)) window_size True
           else Inr 0)
          (\<lambda>v. let a1 = a\<lparr>value_ex := v, last_ordinal := ordinal\<rparr> in Inr (a1\<lparr>consumed := average a1\<rparr>)))
      else Inr a)"

definition ema_add :: "int \<Rightarrow> int \<Rightarrow> int \<Rightarrow> ema \<Rightarrow> ema res" where
  "ema_add units_signed ordinal window_size a =
     (if units_signed = - (2 ^ 63) then Inl Undefined_behaviour
      else
        let units = \<bar>units_signed\<bar>; neg = (units_signed < 0) in
        bind_res (eos_assert (neg \<or> units \<le> max_raw_value) Rate_limiting_state_inconsistent) (\<lambda>_.
        bind_res (eos_assert (neg \<or> (2 ^ 64 - 1) - consumed a \<ge> units) Rate_limiting_state_inconsistent) (\<lambda>_.
        bind_res (integer_divide_ceil (units * rate_limiting_precision) window_size) (\<lambda>q.
        bind_res (downgrade_cast uint64_t uint128_t q True) (\<lambda>contrib.
        bind_res (eos_assert (neg \<or> (2 ^ 64 - 1) - value_ex a \<ge> contrib) Rate_limiting_state_inconsistent) (\<lambda>_.
        bind_res (ema_decay ordinal window_size a) (\<lambda>a1.
          Inr (if neg
               then a1\<lparr>consumed := consumed a1 - min (consumed a1) units,
                       value_ex := value_ex a1 - min (value_ex a1) contrib\<rparr>
               else a1\<lparr>consumed := to_uint64 (consumed a1 + units),
                       value_ex := to_uint64 (value_ex a1 + contrib)\<rparr>))))))))"

section \<open>Configuration\<close>

record ratio =
  numerator :: int
  denominator :: int

definition constant_rate :: ratio where
  "constant_rate = \<lparr>numerator = percent_100, denominator = percent_100\<rparr>"

record elastic_limit_parameters =
  el_target :: int
  el_min :: int
  el_max :: int
  el_periods :: int
  decrease_rate :: ratio
  increase_rate :: ratio

definition new_elastic_limit_parameters :: elastic_limit_parameters where
  "new_elastic_limit_parameters =
     \<lparr>el_target = 0, el_min = 0, el_max = 0, el_periods = 0, decrease_rate = constant_rate, increase_rate = constant_rate\<rparr>"

definition elastic_set ::
  "int \<Rightarrow> int \<Rightarrow> int \<Rightarrow> int \<Rightarrow> int \<Rightarrow> int \<Rightarrow> elastic_limit_parameters \<Rightarrow> elastic_limit_parameters res" where
  "elastic_set tgt mn mx average_window_ms decrease_pct increase_pct p =
     bind_res (eos_assert (decrease_pct < percent_100) Resource_limit_exception) (\<lambda>_.
     let periods = average_window_ms div block_interval_ms in
     bind_res (eos_assert (periods > 0) Resource_limit_exception) (\<lambda>_.
       Inr (p\<lparr>el_target := tgt, el_min := mn, el_max := mx, el_periods := periods,
              decrease_rate := (decrease_rate p)\<lparr>numerator := percent_100 - decrease_pct\<rparr>,
              increase_rate := (increase_rate p)\<lparr>numerator := percent_100 + increase_pct\<rparr>\<rparr>)))"

record chain_config =
  base_per_transaction_net_usage :: int
  context_free_discount_net_usage_num :: int
  context_free_discount_net_usage_den :: int
  min_transaction_cpu_usage :: int
  min_transaction_ram_usage :: int
  max_transaction_lifetime :: int
  deferred_trx_expiration_window :: int
  max_transaction_delay :: int
  max_inline_action_size :: int
  max_inline_action_depth :: int
  max_authority_depth :: int
  ram_size :: int
  reserved_ram_size :: int
  max_block_usage :: "int list"
  max_transaction_usage :: "int list"
  target_virtual_limits :: "int list"
  min_virtual_limits :: "int list"
  max_virtual_limits :: "int list"
  usage_windows :: "int list"
  virtual_limit_decrease_pct :: "int list"
  virtual_limit_increase_pct :: "int list"
  account_usage_windows :: "int list"

definition chain_config_validate :: "chain_config \<Rightarrow> unit res" where
  "chain_config_validate c =
     bind_res (fold_res (\<lambda>i _.
         bind_res (vec_at (min_virtual_limits c) i) (\<lambda>mn. bind_res (vec_at (max_virtual_limits c) i) (\<lambda>mx.
         bind_res (eos_assert (mn \<le> mx) Action_validate_exception) (\<lambda>_.
         bind_res (vec_at (max_transaction_usage c) i) (\<lambda>mt. bind_res (vec_at (max_block_usage c) i) (\<lambda>mb.
           eos_assert (mt < mb) Action_validate_exception))))))
       [0..<resources_num] ()) (\<lambda>_.
     bind_res (eos_assert (ram_size c \<ge> 2 ^ 30) Action_validate_exception) (\<lambda>_.
     bind_res (eos_assert (to_uint64 (reserved_ram_size c * 2) \<le> ram_size c) Action_validate_exception) (\<lambda>_.
     bind_res (eos_assert (context_free_discount_net_usage_den c > 0) Action_validate_exception) (\<lambda>_.
     bind_res (eos_assert (context_free_discount_net_usage_num c \<le> context_free_discount_net_usage_den c)
                 Action_validate_exception) (\<lambda>_.
     bind_res (vec_at (max_transaction_usage c) CPU) (\<lambda>mt. bind_res (vec_at (max_block_usage c) CPU) (\<lambda>mb.
     bind_res (eos_assert (min_transaction_cpu_usage c \<le> mt) Action_validate_exception) (\<lambda>_.
     bind_res (eos_assert (mt < to_uint64 (mb - min_transaction_cpu_usage c)) Action_validate_exception) (\<lambda>_.
     bind_res (vec_at (max_transaction_usage c) RAM) (\<lambda>rt. bind_res (vec_at (max_block_usage c) RAM) (\<lambda>rb.
     bind_res (eos_assert (min_transaction_ram_usage c \<le> rt) Action_validate_exception) (\<lambda>_.
     bind_res (eos_assert (rt < to_uint64 (rb - min_transaction_ram_usage c)) Action_validate_exception) (\<lambda>_.
       eos_assert (1 \<le> max_authority_depth c) Action_validate_exception)))))))))))))"

record resource_limits_config_object =
  limit_parameters :: "elastic_limit_parameters list"
  account_usage_average_windows :: "int list"

record resource_limits_state_object =
  block_usage_accumulators :: "ema list"
  pending_usage :: "int list"
  virtual_limits :: "int list"

record 'd resource_db =
  resource_usage :: "ema list chain_table"
  rl_config :: resource_limits_config_object
  rl_state :: resource_limits_state_object
  accounts :: "'d account_object chain_table"
  stakes :: stake_db
  configuration :: chain_config
  validate_storage_price :: bool

section \<open>The block\<close>

definition update_elastic_limit :: "int \<Rightarrow> int \<Rightarrow> elastic_limit_parameters \<Rightarrow> int res" where
  "update_elastic_limit current_limit average_usage params =
     bind_res
       (if average_usage > el_target params
        then safe_prop uint64_t current_limit (numerator (decrease_rate params)) (denominator (decrease_rate params)) False
        else safe_prop uint64_t current_limit (numerator (increase_rate params)) (denominator (increase_rate params)) False)
       (\<lambda>result. Inr (min (max result (el_min params)) (el_max params)))"

definition update_virtual_limit ::
  "resource_limits_config_object \<Rightarrow> nat \<Rightarrow> resource_limits_state_object \<Rightarrow> resource_limits_state_object res" where
  "update_virtual_limit cfg i st =
     bind_res (vec_at (virtual_limits st) i) (\<lambda>cur.
     bind_res (vec_at (block_usage_accumulators st) i) (\<lambda>acc.
     bind_res (vec_at (limit_parameters cfg) i) (\<lambda>p.
     bind_res (update_elastic_limit cur (average acc) p) (\<lambda>v.
       Inr (st\<lparr>virtual_limits := (virtual_limits st)[i := v]\<rparr>)))))"

definition large_number_no_overflow :: int where
  "large_number_no_overflow = (2 ^ 63 - 1) div 2"

definition clamp_usage :: "int \<Rightarrow> int" where
  "clamp_usage x = max (min x large_number_no_overflow) (- large_number_no_overflow)"

definition add_pending_delta ::
  "int \<Rightarrow> chain_config \<Rightarrow> nat \<Rightarrow> resource_limits_state_object \<Rightarrow> resource_limits_state_object res" where
  "add_pending_delta delta chain_cfg i st =
     bind_res (vec_at (pending_usage st) i) (\<lambda>p.
     bind_res (vec_at (max_block_usage chain_cfg) i) (\<lambda>m.
     let pending = clamp_usage (p + clamp_usage delta) in
     bind_res (eos_assert (pending \<le> to_int64 m) Block_resource_exhausted) (\<lambda>_.
       Inr (st\<lparr>pending_usage := (pending_usage st)[i := pending]\<rparr>))))"

definition process_block_usage :: "int \<Rightarrow> 'd resource_db \<Rightarrow> 'd resource_db res" where
  "process_block_usage time_slot db =
     bind_res (fold_res (\<lambda>i st.
         bind_res (vec_at (block_usage_accumulators st) i) (\<lambda>acc.
         bind_res (vec_at (pending_usage st) i) (\<lambda>p.
         bind_res (vec_at (limit_parameters (rl_config db)) i) (\<lambda>lp.
         bind_res (ema_add p time_slot (el_periods lp) acc) (\<lambda>acc'.
         bind_res (update_virtual_limit (rl_config db) i
                     (st\<lparr>block_usage_accumulators := (block_usage_accumulators st)[i := acc']\<rparr>)) (\<lambda>st'.
           Inr (st'\<lparr>pending_usage := (pending_usage st')[i := 0]\<rparr>)))))))
       [0..<resources_num] (rl_state db)) (\<lambda>st. Inr (db\<lparr>rl_state := st\<rparr>))"

definition get_virtual_block_limit :: "nat \<Rightarrow> 'd resource_db \<Rightarrow> int res" where
  "get_virtual_block_limit i db = vec_at (virtual_limits (rl_state db)) i"

definition get_block_limit :: "nat \<Rightarrow> chain_config \<Rightarrow> 'd resource_db \<Rightarrow> int res" where
  "get_block_limit i chain_cfg db =
     bind_res (vec_at (pending_usage (rl_state db)) i) (\<lambda>p.
     bind_res (vec_at (max_block_usage chain_cfg) i) (\<lambda>m.
     let usage = max p 0 in
     bind_res (eos_assert (m \<ge> usage) Resource_limit_exception) (\<lambda>_. Inr (m - usage))))"

section \<open>Set up\<close>

definition set_limit_params :: "chain_config \<Rightarrow> resource_limits_config_object \<Rightarrow> resource_limits_config_object res" where
  "set_limit_params c cfg =
     fold_res (\<lambda>i cfg.
         bind_res (vec_at (limit_parameters cfg) i) (\<lambda>p.
         bind_res (vec_at (target_virtual_limits c) i) (\<lambda>tgt. bind_res (vec_at (min_virtual_limits c) i) (\<lambda>mn.
         bind_res (vec_at (max_virtual_limits c) i) (\<lambda>mx. bind_res (vec_at (usage_windows c) i) (\<lambda>w.
         bind_res (vec_at (virtual_limit_decrease_pct c) i) (\<lambda>dec.
         bind_res (vec_at (virtual_limit_increase_pct c) i) (\<lambda>inc.
         bind_res (elastic_set tgt mn mx w dec inc p) (\<lambda>p'.
         bind_res (vec_at (account_usage_windows c) i) (\<lambda>aw.
           Inr (cfg\<lparr>limit_parameters := (limit_parameters cfg)[i := p'],
                    account_usage_average_windows :=
                      (account_usage_average_windows cfg)[i := aw div block_interval_ms]\<rparr>)))))))))))
       [0..<resources_num] cfg"

text \<open>The defaults of \<^verbatim>\<open>config.hpp\<close> and the configuration of \<^verbatim>\<open>genesis_state\<close>.\<close>

abbreviation (input) KB :: int where "KB \<equiv> 1024"
abbreviation (input) MB :: int where "MB \<equiv> 1048576"
abbreviation (input) GB :: int where "GB \<equiv> 1073741824"

definition blocks_per_year :: int where "blocks_per_year = 365 * 24 * 60 * 60 * 1000 div block_interval_ms"

definition default_target_virtual_limits :: "int list" where
  "default_target_virtual_limits = [140000, 512 * KB, 64 * MB, 32 * GB div blocks_per_year]"

definition default_min_virtual_limits :: "int list" where
  "default_min_virtual_limits = [1400000, 1 * MB, 32 * MB, 16 * GB div blocks_per_year]"

definition default_max_virtual_limits :: "int list" where
  "default_max_virtual_limits = [1400000000, 1000 * MB, 1000 * 32 * MB, 100 * 32 * GB div blocks_per_year]"

definition default_usage_windows :: "int list" where
  "default_usage_windows = [60000, 60000, 60000, 86400000]"

definition default_account_usage_windows :: "int list" where
  "default_account_usage_windows = [3600000, 3600000, 3600000, 2592000000]"

definition initial_configuration :: chain_config where
  "initial_configuration =
     \<lparr>base_per_transaction_net_usage = 12, context_free_discount_net_usage_num = 20,
      context_free_discount_net_usage_den = 100, min_transaction_cpu_usage = 100, min_transaction_ram_usage = 1 * KB,
      max_transaction_lifetime = 60 * 60, deferred_trx_expiration_window = 10 * 60,
      max_transaction_delay = 45 * 24 * 3600, max_inline_action_size = 32 * KB, max_inline_action_depth = 4,
      max_authority_depth = 6, ram_size = 8 * GB, reserved_ram_size = 512 * MB,
      max_block_usage = [1400000, 1 * MB, 128 * MB, 4 * MB],
      max_transaction_usage = [800000, 512 * KB, 64 * MB, 4 * MB - 1],
      target_virtual_limits = default_target_virtual_limits, min_virtual_limits = default_min_virtual_limits,
      max_virtual_limits = default_max_virtual_limits, usage_windows = default_usage_windows,
      virtual_limit_decrease_pct = [100, 100, 100, 100], virtual_limit_increase_pct = [10, 10, 10, 10],
      account_usage_windows = default_account_usage_windows\<rparr>"

text \<open>
  \<^verbatim>\<open>initialize_database\<close> reads the same defaults: its loop over the configuration is that of
  \<open>set_limit_params\<close>, and the limits start at their maximum.
\<close>

definition initialize_database ::
  "(resource_limits_config_object \<times> resource_limits_state_object) res" where
  "initialize_database =
     bind_res (set_limit_params initial_configuration \<lparr>limit_parameters = replicate resources_num new_elastic_limit_parameters,
                                   account_usage_average_windows = replicate resources_num 0\<rparr>) (\<lambda>cfg.
       Inr (cfg, \<lparr>block_usage_accumulators = replicate resources_num new_ema,
                  pending_usage = replicate resources_num 0,
                  virtual_limits = map el_max (limit_parameters cfg)\<rparr>))"

definition initialize_account :: "64 word \<Rightarrow> 'd resource_db \<Rightarrow> 'd resource_db res" where
  "initialize_account account db =
     bind_res (tbl_emplace_at account (replicate resources_num new_ema) (resource_usage db)) (\<lambda>t.
       Inr (db\<lparr>resource_usage := t\<rparr>))"

section \<open>The bill of an account\<close>

definition get_account_usage :: "64 word \<Rightarrow> 'd resource_db \<Rightarrow> int list res" where
  "get_account_usage account db =
     bind_res (tbl_get (resource_usage db) account) (\<lambda>accs.
       fold_res (\<lambda>i ret.
           bind_res (vec_at accs i) (\<lambda>acc.
           bind_res (vec_at (account_usage_average_windows (rl_config db)) i) (\<lambda>w.
           bind_res (integer_divide_ceil (value_ex acc * w) rate_limiting_precision) (\<lambda>q.
           bind_res (downgrade_cast uint64_t uint128_t q True) (\<lambda>v. Inr (ret[i := v])))))
         ) [0..<resources_num] (replicate resources_num 0))"

text \<open>The stake of the core token when it counts: configured, enabled and not empty.\<close>

definition staking :: "'d resource_db \<Rightarrow> stake_stat_object option" where
  "staking db =
     (if has_stake_param (stakes db) then
        (case stake_stat (stakes db) of
           Some st \<Rightarrow> if st_enabled st \<and> st_total_staked st \<noteq> 0 then Some st else None
         | None \<Rightarrow> None)
      else None)"

definition min_resource_usage_pct :: int where "min_resource_usage_pct = percent_1 div 10"

definition used_pcts :: "'d resource_db \<Rightarrow> int list res" where
  "used_pcts db =
     fold_res (\<lambda>i used.
         bind_res (vec_at (block_usage_accumulators (rl_state db)) i) (\<lambda>acc.
         bind_res (vec_at (limit_parameters (rl_config db)) i) (\<lambda>lp.
         bind_res (safe_share_to_pct uint64_t (average acc) (el_target lp) True) (\<lambda>pct.
           Inr (used[i := max pct min_resource_usage_pct])))))
       [0..<resources_num] (replicate resources_num 0)"

text \<open>\<^verbatim>\<open>std::accumulate\<close> with the initial value \<^verbatim>\<open>0\<close> adds up in an \<^verbatim>\<open>int\<close>.\<close>

definition accumulate_int :: "int list \<Rightarrow> int" where
  "accumulate_int xs = foldl (\<lambda>acc x. to_int32 (acc + x)) 0 xs"

definition get_pricelist :: "'d resource_db \<Rightarrow> ratio list res" where
  "get_pricelist db =
     bind_res (used_pcts db) (\<lambda>used_pct.
     let used_pct_sum = to_uint64 (accumulate_int used_pct) in
     (case staking db of
        None \<Rightarrow> Inr (replicate resources_num \<lparr>numerator = 0, denominator = 1\<rparr>)
      | Some st \<Rightarrow>
          bind_res (eos_assert (st_total_staked st > 0) Resource_limit_exception) (\<lambda>_.
            fold_res (\<lambda>i ret.
                bind_res (vec_at (virtual_limits (rl_state db)) i) (\<lambda>vl.
                bind_res (vec_at (account_usage_average_windows (rl_config db)) i) (\<lambda>w.
                bind_res (vec_at used_pct i) (\<lambda>up.
                bind_res (safe_prop_ceil uint64_t (st_total_staked st) up used_pct_sum True) (\<lambda>n.
                  Inr (ret[i := \<lparr>numerator = n, denominator = min (vl * w) (2 ^ 64 - 1)\<rparr>])))))
              ) [0..<resources_num] (replicate resources_num \<lparr>numerator = 0, denominator = 1\<rparr>))))"

definition get_used_resources_cost :: "64 word \<Rightarrow> ratio list \<Rightarrow> int \<Rightarrow> 'd resource_db \<Rightarrow> int res" where
  "get_used_resources_cost account prices max_cost db =
     bind_res (get_account_usage account db) (\<lambda>res_usage.
     bind_res (fold_res (\<lambda>i cost.
         bind_res (vec_at res_usage i) (\<lambda>u.
         bind_res (vec_at prices i) (\<lambda>p.
         bind_res (safe_prop_ceil uint64_t u (numerator p) (denominator p) True) (\<lambda>add.
           Inr (if (2 ^ 64 - 1) - cost > add then cost + add else 2 ^ 64 - 1)))))
       [0..<resources_num] 0) (\<lambda>cost.
     bind_res (eos_assert (max_cost \<ge> cost) Account_resources_exceeded) (\<lambda>_. Inr cost)))"

text \<open>\<open>fuel\<close> is that of the traversal of the proxied stakes.\<close>

definition get_account_stake_ratio ::
  "nat \<Rightarrow> int \<Rightarrow> 64 word \<Rightarrow> bool \<Rightarrow> 'd resource_db \<Rightarrow> (ratio \<times> 'd resource_db) res" where
  "get_account_stake_ratio fuel pending_block_time account update_state db =
     bind_res (tbl_get (accounts db) account) (\<lambda>acc.
     (case (if privileged acc then None else staking db) of
        None \<Rightarrow> Inr (\<lparr>numerator = 0, denominator = 0\<rparr>, db)
      | Some st \<Rightarrow>
          bind_res (eos_assert (st_total_staked st > 0) Resource_limit_exception) (\<lambda>_.
          (case fm_find (agents (stakes db)) account of
             None \<Rightarrow> Inr (\<lparr>numerator = 0, denominator = st_total_staked st\<rparr>, db)
           | Some _ \<Rightarrow>
               bind_res (if update_state
                         then update_proxied fuel (pending_block_time div 1000000) account False (stakes db)
                         else Inr (stakes db)) (\<lambda>s.
               (case fm_find (agents s) account of
                  None \<Rightarrow> Inl Undefined_behaviour
                | Some agent \<Rightarrow>
                    bind_res (get_effective_stake agent) (\<lambda>staked.
                      Inr (\<lparr>numerator = to_uint64 staked, denominator = st_total_staked st\<rparr>, db\<lparr>stakes := s\<rparr>))))))))"

definition get_account_balance ::
  "nat \<Rightarrow> int \<Rightarrow> 64 word \<Rightarrow> ratio list \<Rightarrow> bool \<Rightarrow> 'd resource_db \<Rightarrow> (int \<times> 'd resource_db) res" where
  "get_account_balance fuel pending_block_time account prices update_state db =
     bind_res (get_account_stake_ratio fuel pending_block_time account update_state db) (\<lambda>(r, db').
       let staked = numerator r in
       if denominator r = 0 then Inr (2 ^ 64 - 1, db')
       else
         bind_res (get_used_resources_cost account prices (if update_state then staked else 2 ^ 64 - 1) db') (\<lambda>cost.
           Inr (if staked > cost then staked - cost else 0, db')))"

definition get_resource_usage_by_account_cost_ratio :: "64 word \<Rightarrow> nat \<Rightarrow> 'd resource_db \<Rightarrow> ratio res" where
  "get_resource_usage_by_account_cost_ratio account res db =
     bind_res (get_account_usage account db) (\<lambda>usage.
     bind_res (get_pricelist db) (\<lambda>price_list.
     bind_res (vec_at price_list res) (\<lambda>price.
     bind_res (vec_at usage res) (\<lambda>requested.
     bind_res (fold_res (\<lambda>i total.
         bind_res (vec_at usage i) (\<lambda>u. bind_res (vec_at price_list i) (\<lambda>p.
         bind_res (safe_prop_ceil uint64_t u (numerator p) (denominator p) True) (\<lambda>c. Inr (to_uint64 (total + c))))))
       [0..<resources_num] 0) (\<lambda>total.
     bind_res (safe_prop_ceil uint64_t requested (numerator price) (denominator price) True) (\<lambda>c.
       Inr \<lparr>numerator = c, denominator = total\<rparr>))))))"

text \<open>What \<^verbatim>\<open>finalize_block\<close> of \<^verbatim>\<open>controller.cpp\<close> does with the limits.\<close>

definition finalize_limits :: "int \<Rightarrow> 'd resource_db \<Rightarrow> 'd resource_db res" where
  "finalize_limits slot db =
     bind_res (set_limit_params (configuration db) (rl_config db)) (\<lambda>cfg.
       process_block_usage slot (db\<lparr>rl_config := cfg\<rparr>))"

section \<open>Usage\<close>

definition add_account_usage :: "64 word \<Rightarrow> nat \<Rightarrow> int \<Rightarrow> int \<Rightarrow> 'd resource_db \<Rightarrow> 'd resource_db res" where
  "add_account_usage account i units time_slot db =
     bind_res (tbl_get (resource_usage db) account) (\<lambda>accs.
     bind_res (vec_at accs i) (\<lambda>acc.
     bind_res (vec_at (account_usage_average_windows (rl_config db)) i) (\<lambda>w.
     bind_res (ema_add units time_slot w acc) (\<lambda>acc'.
       Inr (db\<lparr>resource_usage := tbl_modify account (\<lambda>_. accs[i := acc']) (resource_usage db)\<rparr>)))))"

definition add_block_usage :: "int \<Rightarrow> nat \<Rightarrow> 'd resource_db \<Rightarrow> 'd resource_db res" where
  "add_block_usage delta i db =
     bind_res (add_pending_delta delta (configuration db) i (rl_state db)) (\<lambda>st. Inr (db\<lparr>rl_state := st\<rparr>))"

definition update_account_usage :: "64 word list \<Rightarrow> int \<Rightarrow> 'd resource_db \<Rightarrow> 'd resource_db res" where
  "update_account_usage accs time_slot db =
     fold_res (\<lambda>a. fold_res (\<lambda>i. add_account_usage a i 0 time_slot) [0..<resources_num]) accs db"

text \<open>The loop body over the accounts of a transaction.\<close>

definition bill_account ::
  "nat \<Rightarrow> ratio list \<Rightarrow> int \<Rightarrow> int \<Rightarrow> int \<Rightarrow> int \<Rightarrow> bool \<Rightarrow> 64 word \<Rightarrow> 'd resource_db \<Rightarrow> 'd resource_db res" where
  "bill_account fuel prices cpu_usage net_usage ram_usage pending_block_time validate a db =
     (let time_slot = uint (set_time_point pending_block_time) in
      bind_res (add_account_usage a CPU (to_int64 cpu_usage) time_slot db) (\<lambda>db.
      bind_res (add_account_usage a NET (to_int64 net_usage) time_slot db) (\<lambda>db.
      bind_res (add_account_usage a RAM (to_int64 ram_usage) time_slot db) (\<lambda>db.
        if validate then
          bind_res (get_account_balance fuel pending_block_time a prices True db) (\<lambda>(_, db). Inr db)
        else Inr db))))"

definition add_transaction_usage ::
  "nat \<Rightarrow> 64 word list \<Rightarrow> ratio list \<Rightarrow> int \<Rightarrow> int \<Rightarrow> int \<Rightarrow> int \<Rightarrow> bool \<Rightarrow> 'd resource_db \<Rightarrow> 'd resource_db res" where
  "add_transaction_usage fuel accs prices cpu_usage net_usage ram_usage pending_block_time validate db =
     bind_res (fold_res (bill_account fuel prices cpu_usage net_usage ram_usage pending_block_time validate) accs db) (\<lambda>db.
     bind_res (add_block_usage (to_int64 cpu_usage) CPU db) (\<lambda>db.
     bind_res (add_block_usage (to_int64 net_usage) NET db) (\<lambda>db.
       add_block_usage (to_int64 ram_usage) RAM db)))"

definition add_storage_usages ::
  "nat \<Rightarrow> (64 word \<times> int) list \<Rightarrow> ratio list \<Rightarrow> int \<Rightarrow> bool \<Rightarrow> 'd resource_db \<Rightarrow> 'd resource_db res" where
  "add_storage_usages fuel deltas prices pending_block_time validate db =
     (if deltas = [] \<or> staking db = None then Inr db
      else
        let time_slot = uint (set_time_point pending_block_time) in
        bind_res (fold_res (\<lambda>(a, d) (delta, db).
            if d = 0 then Inr (delta, db)
            else
              bind_res (add_account_usage a STORAGE d time_slot db) (\<lambda>db.
              bind_res (if validate \<and> (d > 0 \<or> validate_storage_price db)
                        then bind_res (get_account_balance fuel pending_block_time a prices True db) (\<lambda>(_, db). Inr db)
                        else Inr db) (\<lambda>db. Inr (delta + d, db))))
          deltas (0, db)) (\<lambda>(delta, db).
        if delta = 0 then Inr db else add_block_usage delta STORAGE db))"

definition add_storage_usage :: "64 word \<Rightarrow> int \<Rightarrow> int \<Rightarrow> 'd resource_db \<Rightarrow> 'd resource_db res" where
  "add_storage_usage account delta time_slot db =
     (if delta = 0 then Inr db
      else
        bind_res (tbl_get (accounts db) account) (\<lambda>acc.
          if privileged acc \<or> staking db = None then Inr db
          else
            bind_res (add_block_usage delta STORAGE db) (\<lambda>db.
              add_account_usage account STORAGE delta time_slot db)))"

section \<open>Moving averages are exact\<close>

definition ema_ok :: "ema \<Rightarrow> bool" where
  "ema_ok a \<longleftrightarrow> 0 \<le> last_ordinal a \<and> last_ordinal a < 2 ^ 32 \<and> 0 \<le> value_ex a \<and> value_ex a < 2 ^ 64 \<and>
     0 \<le> consumed a \<and> consumed a < 2 ^ 64"

text \<open>
  The average without machine integers: what is left of the old value after the periods that passed,
  plus the signed share of the new units, and nothing below zero.
\<close>

definition ema_left :: "int \<Rightarrow> int \<Rightarrow> ema \<Rightarrow> int" where
  "ema_left ordinal w a =
     (if ordinal = 0 \<or> ordinal = last_ordinal a then value_ex a
      else value_ex a * max 0 (w - (ordinal - last_ordinal a)) div w)"

definition ceil_div :: "int \<Rightarrow> int \<Rightarrow> int" where
  "ceil_div x y = - ((- x) div y)"

lemma ceil_div_eq: "0 < y \<Longrightarrow> ceil_div x y = x div y + (if x mod y > 0 then 1 else 0)"
  by (cases "x mod y = 0") (simp_all add: ceil_div_def zdiv_zminus1_eq_if order_less_le)

lemma ceil_div_nonneg: "0 < y \<Longrightarrow> 0 \<le> x \<Longrightarrow> 0 \<le> ceil_div x y"
  by (simp add: ceil_div_eq pos_imp_zdiv_nonneg_iff)

lemma integer_divide_ceil_eq: "0 < y \<Longrightarrow> 0 \<le> x \<Longrightarrow> integer_divide_ceil x y = Inr (ceil_div x y)"
  by (simp add: integer_divide_ceil_def ceil_div_eq sdiv_nonneg smod_nonneg)

lemma downgrade_uint64: "downgrade_cast uint64_t uint128_t v True = Inr r \<longleftrightarrow> r = v \<and> 0 \<le> v \<and> v < 2 ^ 64"
  by (auto simp: downgrade_cast_def Let_def ty_max_def ty_min_def res_simps)

lemma average_eq: "average a = ceil_div (value_ex a) rate_limiting_precision"
  by (simp add: average_def ceil_div_eq rate_limiting_precision_def)

lemma ceil_div_bound: "0 \<le> v \<Longrightarrow> v < 2 ^ 64 \<Longrightarrow> ceil_div v rate_limiting_precision \<le> 18446744073710"
  using zdiv_mono1 [of v "2 ^ 64 - 1" 1000000] by (simp add: ceil_div_eq rate_limiting_precision_def)

lemma ema_decay_exact:
  assumes ok: "ema_ok a" and "0 < w" and "0 \<le> ordinal" and "ordinal < 2 ^ 32"
    and d: "ema_decay ordinal w a = Inr a1"
  shows "ema_ok a1" and "value_ex a1 = ema_left ordinal w a" and "value_ex a1 \<le> value_ex a"
    and "consumed a1 = (if ordinal = 0 \<or> ordinal = last_ordinal a then consumed a else average a1)"
    and "ordinal \<noteq> 0 \<longrightarrow> last_ordinal a1 = ordinal"
proof -
  have u: "in_ty uint64_t (value_ex a)" using ok by (simp add: in_ty_def ty_min_def ty_max_def ema_ok_def)
  have "ema_ok a1 \<and> value_ex a1 = ema_left ordinal w a \<and> value_ex a1 \<le> value_ex a \<and>
      consumed a1 = (if ordinal = 0 \<or> ordinal = last_ordinal a then consumed a else average a1) \<and>
      (ordinal \<noteq> 0 \<longrightarrow> last_ordinal a1 = ordinal)"
  proof (cases "ordinal \<noteq> 0 \<and> last_ordinal a \<noteq> ordinal")
    case False
    then show ?thesis using d ok by (auto simp: ema_decay_def ema_left_def)
  next
    case True
    with d have lt: "last_ordinal a < ordinal" by (auto simp: ema_decay_def res_simps)
    let ?n = "w - (ordinal - last_ordinal a)"
    obtain v where v: "(if last_ordinal a + w > ordinal then safe_prop uint64_t (value_ex a) ?n w True else Inr 0) = Inr v"
      and a1: "a1 = (let a1 = a\<lparr>value_ex := v, last_ordinal := ordinal\<rparr> in a1\<lparr>consumed := average a1\<rparr>)"
      using d True by (auto simp: ema_decay_def res_simps Let_def)
    have vv: "v = value_ex a * max 0 ?n div w \<and> 0 \<le> v \<and> v \<le> value_ex a"
    proof (cases "last_ordinal a + w > ordinal")
      case True
      have "0 \<le> value_ex a" "0 \<le> ?n" "?n \<le> w" using ok True lt by (simp_all add: ema_ok_def)
      from safe_prop_strict_le [OF this assms(2) u] v True show ?thesis by simp
    next
      case False
      then show ?thesis using v ok by (simp add: ema_ok_def)
    qed
    have "0 \<le> average a1 \<and> average a1 < 2 ^ 64"
      using ceil_div_bound [of v] vv ok ceil_div_nonneg [of rate_limiting_precision v]
      by (simp add: average_eq a1 Let_def ema_ok_def rate_limiting_precision_def)
    then show ?thesis using vv ok True assms(3,4) lt by (simp add: a1 Let_def ema_ok_def ema_left_def average_def)
  qed
  then show "ema_ok a1" and "value_ex a1 = ema_left ordinal w a" and "value_ex a1 \<le> value_ex a"
    and "consumed a1 = (if ordinal = 0 \<or> ordinal = last_ordinal a then consumed a else average a1)"
    and "ordinal \<noteq> 0 \<longrightarrow> last_ordinal a1 = ordinal" by simp_all
qed

lemma ema_add_exact_lemma:
  assumes ok: "ema_ok a" and w: "0 < w" and ord: "0 \<le> ordinal" "ordinal < 2 ^ 32" and "units < 2 ^ 63"
    and "ema_add units ordinal w a = Inr a'"
  shows "ema_ok a' \<and>
     value_ex a' = max 0 (ema_left ordinal w a + sgn units * ceil_div (\<bar>units\<bar> * rate_limiting_precision) w)"
proof -
  define u where u: "u = \<bar>units\<bar>"
  define neg where neg: "neg = (units < 0)"
  let ?c = "ceil_div (u * rate_limiting_precision) w"
  have "0 \<le> u * rate_limiting_precision" by (simp add: rate_limiting_precision_def u)
  note q = integer_divide_ceil_eq [OF w this] ceil_div_nonneg [OF w this]
  obtain a1 where d: "ema_decay ordinal w a = Inr a1"
    and c: "0 \<le> ?c" "?c < 2 ^ 64"
    and pos: "neg \<or> (2 ^ 64 - 1) - value_ex a \<ge> ?c"
    and a': "a' = (if neg
       then a1\<lparr>consumed := consumed a1 - min (consumed a1) u, value_ex := value_ex a1 - min (value_ex a1) ?c\<rparr>
       else a1\<lparr>consumed := to_uint64 (consumed a1 + u), value_ex := to_uint64 (value_ex a1 + ?c)\<rparr>)"
    using assms(6) unfolding ema_add_def Let_def u [symmetric] neg [symmetric]
    by (cases neg) (auto simp: res_simps downgrade_uint64 q(1) split: if_splits)
  note e = ema_decay_exact [OF ok w ord d]
  show ?thesis
  proof (cases neg)
    case True
    then have "0 \<le> u" "sgn units = - 1" "\<bar>units\<bar> = u" using neg u by simp_all
    then show ?thesis using True a' e(1,2) c by (simp add: ema_ok_def min_def max_def)
  next
    case False
    have lt: "value_ex a1 + ?c < 2 ^ 64" using pos False e(3) by linarith
    then have "to_uint64 (value_ex a1 + ?c) = value_ex a1 + ?c" using c e(1) by (simp add: to_uint64_def ema_ok_def)
    moreover have "0 \<le> to_uint64 x" "to_uint64 x < 2 ^ 64" for x by (simp_all add: to_uint64_def)
    moreover have "units = 0 \<Longrightarrow> ?c = 0" by (simp add: ceil_div_def u)
    moreover have "units \<noteq> 0 \<Longrightarrow> sgn units = 1" "\<bar>units\<bar> = u" using False neg u by simp_all
    ultimately show ?thesis using lt a' e(1,2) c False by (cases "units = 0") (simp_all add: ema_ok_def)
  qed
qed

section \<open>The state\<close>

text \<open>
  What the operations keep: one entry per resource and numbers in range.  The limits are between the
  configured bounds from the first block after a change of the configuration.
\<close>

definition rl_config_ok :: "resource_limits_config_object \<Rightarrow> bool" where
  "rl_config_ok cfg \<longleftrightarrow>
     length (limit_parameters cfg) = resources_num \<and> length (account_usage_average_windows cfg) = resources_num \<and>
     (\<forall>p \<in> set (limit_parameters cfg).
        0 \<le> el_min p \<and> el_min p \<le> el_max p \<and> el_max p < 2 ^ 64 \<and> 0 < el_periods p \<and> el_periods p < 2 ^ 32)"

definition res_ok :: "nat \<Rightarrow> resource_limits_state_object \<Rightarrow> bool" where
  "res_ok i st \<longleftrightarrow> ema_ok (block_usage_accumulators st ! i) \<and> \<bar>pending_usage st ! i\<bar> \<le> large_number_no_overflow"

definition rl_state_ok :: "resource_limits_state_object \<Rightarrow> bool" where
  "rl_state_ok st \<longleftrightarrow>
     length (block_usage_accumulators st) = resources_num \<and> length (pending_usage st) = resources_num \<and>
     length (virtual_limits st) = resources_num \<and> (\<forall>i < resources_num. res_ok i st)"

definition limits_ok :: "resource_limits_config_object \<Rightarrow> resource_limits_state_object \<Rightarrow> bool" where
  "limits_ok cfg st \<longleftrightarrow> (\<forall>i < resources_num.
     el_min (limit_parameters cfg ! i) \<le> virtual_limits st ! i \<and> virtual_limits st ! i \<le> el_max (limit_parameters cfg ! i))"

lemma vec_at_Inr [res_simps]: "vec_at xs i = Inr x \<longleftrightarrow> i < length xs \<and> xs ! i = x"
  by (simp add: vec_at_def)

lemma clamp_usage_range: "\<bar>clamp_usage x\<bar> \<le> large_number_no_overflow"
  by (simp add: clamp_usage_def large_number_no_overflow_def)

lemma add_pending_delta_ok:
  assumes "rl_state_ok st" and "add_pending_delta delta c i st = Inr st'"
  shows "rl_state_ok st' \<and> i < length (pending_usage st) \<and>
    st' = st\<lparr>pending_usage := (pending_usage st)[i := clamp_usage (pending_usage st ! i + clamp_usage delta)]\<rparr> \<and>
    pending_usage st' ! i \<le> to_int64 (max_block_usage c ! i)"
  using assms clamp_usage_range
  by (auto simp: add_pending_delta_def res_simps Let_def rl_state_ok_def res_ok_def nth_list_update)

lemma update_elastic_limit_range:
  assumes "update_elastic_limit cur av p = Inr v" and "el_min p \<le> el_max p"
  shows "el_min p \<le> v \<and> v \<le> el_max p"
  using assms by (auto simp: update_elastic_limit_def res_simps)

lemma fold_res_upt:
  assumes "fold_res f [0..<n] s = Inr s'" and "P 0 s"
    and "\<And>i r r'. i < n \<Longrightarrow> P i r \<Longrightarrow> f i r = Inr r' \<Longrightarrow> P (Suc i) r'"
  shows "P n s'"
  using assms
proof (induction n arbitrary: s')
  case (Suc n)
  then obtain r where "fold_res f [0..<n] s = Inr r" and "f n r = Inr s'"
    by (auto simp: fold_res_append res_simps)
  with Suc show ?case by (meson less_Suc_eq)
qed simp

text \<open>What one turn of the loop does to the entries of its resource.\<close>

definition block_turn ::
  "resource_limits_config_object \<Rightarrow> int \<Rightarrow> nat \<Rightarrow> resource_limits_state_object \<Rightarrow> resource_limits_state_object \<Rightarrow> bool" where
  "block_turn cfg slot i st st' \<longleftrightarrow>
     (let lp = limit_parameters cfg ! i; acc = block_usage_accumulators st ! i; acc' = block_usage_accumulators st' ! i;
          p = pending_usage st ! i
      in value_ex acc' = max 0 (ema_left slot (el_periods lp) acc
                                + sgn p * ceil_div (\<bar>p\<bar> * rate_limiting_precision) (el_periods lp)) \<and>
         update_elastic_limit (virtual_limits st ! i) (average acc') lp = Inr (virtual_limits st' ! i) \<and>
         pending_usage st' ! i = 0)"

definition same_entries :: "nat \<Rightarrow> resource_limits_state_object \<Rightarrow> resource_limits_state_object \<Rightarrow> bool" where
  "same_entries i st st' \<longleftrightarrow>
     block_usage_accumulators st' ! i = block_usage_accumulators st ! i \<and> pending_usage st' ! i = pending_usage st ! i \<and>
     virtual_limits st' ! i = virtual_limits st ! i"

lemma block_turn_step:
  assumes cfg: "rl_config_ok cfg" and ok: "rl_state_ok st" and slot: "0 \<le> slot" "slot < 2 ^ 32" and i: "i < resources_num"
    and step: "bind_res (vec_at (block_usage_accumulators st) i) (\<lambda>acc.
         bind_res (vec_at (pending_usage st) i) (\<lambda>p.
         bind_res (vec_at (limit_parameters cfg) i) (\<lambda>lp.
         bind_res (ema_add p slot (el_periods lp) acc) (\<lambda>acc'.
         bind_res (update_virtual_limit cfg i
                     (st\<lparr>block_usage_accumulators := (block_usage_accumulators st)[i := acc']\<rparr>)) (\<lambda>st'.
           Inr (st'\<lparr>pending_usage := (pending_usage st')[i := 0]\<rparr>)))))) = Inr st'"
  shows "rl_state_ok st'" and "block_turn cfg slot i st st'" and "\<And>j. j \<noteq> i \<Longrightarrow> same_entries j st st'"
proof -
  let ?lp = "limit_parameters cfg ! i" and ?p = "pending_usage st ! i"
  from step obtain acc' v where add: "ema_add ?p slot (el_periods ?lp) (block_usage_accumulators st ! i) = Inr acc'"
    and upd: "update_elastic_limit (virtual_limits st ! i) (average acc') ?lp = Inr v"
    and st': "st' = st\<lparr>block_usage_accumulators := (block_usage_accumulators st)[i := acc'],
                       virtual_limits := (virtual_limits st)[i := v], pending_usage := (pending_usage st)[i := 0]\<rparr>"
    by (auto simp: res_simps update_virtual_limit_def)
  have lens: "i < length (block_usage_accumulators st)" "i < length (pending_usage st)" "i < length (virtual_limits st)"
    "i < length (limit_parameters cfg)"
    using ok cfg i by (simp_all add: rl_state_ok_def rl_config_ok_def)
  have lp: "0 < el_periods ?lp" using cfg lens(4) by (simp add: rl_config_ok_def)
  have r: "res_ok i st" using ok i by (simp add: rl_state_ok_def)
  then have a: "ema_ok (block_usage_accumulators st ! i)" and "?p < 2 ^ 63"
    by (auto simp: res_ok_def large_number_no_overflow_def)
  note e = ema_add_exact_lemma [OF a lp slot this(2) add]
  have "res_ok j st'" if "j < resources_num" for j
    using that ok e lens by (cases "j = i") (simp_all add: st' rl_state_ok_def res_ok_def large_number_no_overflow_def)
  then show "rl_state_ok st'" using ok by (simp add: rl_state_ok_def st')
  show "block_turn cfg slot i st st'" using e upd lens by (simp add: block_turn_def Let_def st')
  show "same_entries j st st'" if "j \<noteq> i" for j using that by (simp add: same_entries_def st')
qed

lemma process_block_usage_correct:
  assumes "rl_config_ok (rl_config db)" and "rl_state_ok (rl_state db)"
    and "0 \<le> slot" and "slot < 2 ^ 32" and "process_block_usage slot db = Inr db'"
  shows "rl_config db' = rl_config db \<and> rl_state_ok (rl_state db') \<and> limits_ok (rl_config db') (rl_state db') \<and>
     (\<forall>i < resources_num. block_turn (rl_config db) slot i (rl_state db) (rl_state db'))"
proof -
  let ?cfg = "rl_config db" and ?st = "rl_state db"
  define f where "f = (\<lambda>i st.
         bind_res (vec_at (block_usage_accumulators st) i) (\<lambda>acc.
         bind_res (vec_at (pending_usage st) i) (\<lambda>p.
         bind_res (vec_at (limit_parameters ?cfg) i) (\<lambda>lp.
         bind_res (ema_add p slot (el_periods lp) acc) (\<lambda>acc'.
         bind_res (update_virtual_limit ?cfg i
                     (st\<lparr>block_usage_accumulators := (block_usage_accumulators st)[i := acc']\<rparr>)) (\<lambda>st'.
           Inr (st'\<lparr>pending_usage := (pending_usage st')[i := 0]\<rparr>)))))))"
  obtain st' where run: "fold_res f [0..<resources_num] ?st = Inr st'" and db': "db' = db\<lparr>rl_state := st'\<rparr>"
    using assms(5) unfolding process_block_usage_def f_def [symmetric] by (auto simp: res_simps)
  define P where "P = (\<lambda>n st. rl_state_ok st \<and> (\<forall>i < n. block_turn ?cfg slot i ?st st) \<and>
     (\<forall>i \<ge> n. same_entries i ?st st))"
  have "P resources_num st'"
  proof (rule fold_res_upt [OF run])
    show "P 0 ?st" using assms(2) by (simp add: P_def same_entries_def)
  next
    fix i r r' assume i: "i < resources_num" and p: "P i r" and s: "f i r = Inr r'"
    note t = block_turn_step [OF assms(1) _ assms(3,4) i s [unfolded f_def]]
    have same: "same_entries i ?st r" using p by (simp add: P_def)
    have "block_turn ?cfg slot i ?st r'" using t(2) p same by (simp add: P_def block_turn_def same_entries_def)
    moreover have "block_turn ?cfg slot j ?st r'" if "j < i" for j
      using t(3) [of j] p that by (simp add: P_def block_turn_def same_entries_def)
    moreover have "same_entries j ?st r'" if "j \<ge> Suc i" for j
      using t(3) [of j] p that by (simp add: P_def same_entries_def)
    ultimately show "P (Suc i) r'" using t(1) p by (auto simp: P_def less_Suc_eq)
  qed
  then have bt: "rl_state_ok st'" "\<forall>i < resources_num. block_turn ?cfg slot i ?st st'" by (simp_all add: P_def)
  have "limits_ok ?cfg st'"
    unfolding limits_ok_def
  proof (intro allI impI)
    fix i assume i: "i < resources_num"
    then have "el_min (limit_parameters ?cfg ! i) \<le> el_max (limit_parameters ?cfg ! i)"
      using assms(1) by (simp add: rl_config_ok_def)
    with bt(2) i show "el_min (limit_parameters ?cfg ! i) \<le> virtual_limits st' ! i \<and>
        virtual_limits st' ! i \<le> el_max (limit_parameters ?cfg ! i)"
      using update_elastic_limit_range by (fastforce simp: block_turn_def Let_def)
  qed
  then show ?thesis using bt by (simp add: db')
qed


section \<open>The bill\<close>

lemma get_account_usage_range:
  assumes "get_account_usage account db = Inr us"
  shows "length us = resources_num \<and> (\<forall>u \<in> set us. 0 \<le> u \<and> u < 2 ^ 64)"
proof -
  obtain accs where "tbl_get (resource_usage db) account = Inr accs"
    using assms by (auto simp: get_account_usage_def res_simps)
  then have f: "fold_res (\<lambda>i ret.
           bind_res (vec_at accs i) (\<lambda>acc.
           bind_res (vec_at (account_usage_average_windows (rl_config db)) i) (\<lambda>w.
           bind_res (integer_divide_ceil (value_ex acc * w) rate_limiting_precision) (\<lambda>q.
           bind_res (downgrade_cast uint64_t uint128_t q True) (\<lambda>v. Inr (ret[i := v])))))
         ) [0..<resources_num] (replicate resources_num 0) = Inr us"
    using assms by (simp add: get_account_usage_def)
  show ?thesis
  proof (rule fold_res_invariant [OF f])
    show "length (replicate resources_num (0 :: int)) = resources_num \<and>
        (\<forall>u \<in> set (replicate resources_num (0 :: int)). 0 \<le> u \<and> u < 2 ^ 64)" by simp
  qed (auto simp: res_simps downgrade_uint64 dest!: set_update_subset_insert [THEN subsetD])
qed

lemma safe_prop_ceil_uint64:
  assumes "0 \<le> x" and "0 \<le> n" and "0 < d" and "x * n div d < 2 ^ 64"
  shows "safe_prop_ceil uint64_t x n d True = Inr (min (ceil_div (x * n) d) (2 ^ 64 - 1))"
proof -
  have "0 \<le> x * n div d" using assms(1-3) by (simp add: pos_imp_zdiv_nonneg_iff)
  moreover have "x * n mod d = 0 \<or> x * n mod d > 0" using assms(3) pos_mod_sign [of d "x * n"] by linarith
  ultimately show ?thesis
    using assms safe_prop_ceil_strict_nonneg [OF assms(1-3), of uint64_t "min (ceil_div (x * n) d) (2 ^ 64 - 1)"]
    by (auto simp: ceil_div_eq in_ty_def ty_max_def ty_min_def)
qed

text \<open>A saturating loop gives the saturated sum.\<close>

lemma fold_saturating:
  assumes "\<And>i c. i \<in> set xs \<Longrightarrow> 0 \<le> c \<Longrightarrow> c \<le> m \<Longrightarrow> f i c = Inr (min (c + g i) m)"
    and "\<And>i. i \<in> set xs \<Longrightarrow> 0 \<le> g i" and "0 \<le> c" and "c \<le> (m :: int)"
  shows "fold_res f xs c = Inr (min (c + sum_list (map g xs)) m)"
  using assms
proof (induction xs arbitrary: c)
  case (Cons x xs)
  have f: "f x c = Inr (min (c + g x) m)" using Cons.prems by simp
  have g: "0 \<le> g x" "0 \<le> sum_list (map g xs)" using Cons.prems(2) by (auto intro!: sum_list_nonneg)
  have "fold_res f xs (min (c + g x) m) = Inr (min (min (c + g x) m + sum_list (map g xs)) m)"
    by (rule Cons.IH) (use Cons.prems g in auto)
  then show ?case using f g by (simp add: min_def)
qed simp


section \<open>Configuration changes\<close>

text \<open>The values of a configuration are in the range of their types, with one entry per resource.\<close>

definition u_list :: "nat \<Rightarrow> int list \<Rightarrow> bool" where
  "u_list w xs \<longleftrightarrow> length xs = resources_num \<and> (\<forall>x \<in> set xs. 0 \<le> x \<and> x < 2 ^ w)"

definition chain_config_typed :: "chain_config \<Rightarrow> bool" where
  "chain_config_typed c \<longleftrightarrow>
     u_list 64 (max_block_usage c) \<and> u_list 64 (max_transaction_usage c) \<and> u_list 64 (target_virtual_limits c) \<and>
     u_list 64 (min_virtual_limits c) \<and> u_list 64 (max_virtual_limits c) \<and> u_list 32 (usage_windows c) \<and>
     u_list 16 (virtual_limit_decrease_pct c) \<and> u_list 16 (virtual_limit_increase_pct c) \<and> u_list 32 (account_usage_windows c)"

lemma u_listD: "u_list w xs \<Longrightarrow> i < resources_num \<Longrightarrow> i < length xs \<and> 0 \<le> xs ! i \<and> xs ! i < 2 ^ w"
  by (simp add: u_list_def)

lemma fold_unit_all:
  assumes "fold_res (\<lambda>i (_ :: unit). f i) xs u = Inr u'" and "i \<in> set xs"
  shows "f i = Inr ()"
  using fold_res_at [OF assms] by (metis (full_types) old.unit.exhaust)

lemma chain_config_validate_limits:
  assumes "chain_config_validate c = Inr ()" and "i < resources_num"
  shows "min_virtual_limits c ! i \<le> max_virtual_limits c ! i" and "max_transaction_usage c ! i < max_block_usage c ! i"
proof -
  define f where "f = (\<lambda>i.
         bind_res (vec_at (min_virtual_limits c) i) (\<lambda>mn. bind_res (vec_at (max_virtual_limits c) i) (\<lambda>mx.
         bind_res (eos_assert (mn \<le> mx) Action_validate_exception) (\<lambda>_.
         bind_res (vec_at (max_transaction_usage c) i) (\<lambda>mt. bind_res (vec_at (max_block_usage c) i) (\<lambda>mb.
           eos_assert (mt < mb) Action_validate_exception))))))"
  obtain u where u: "fold_res (\<lambda>i (_ :: unit). f i) [0..<resources_num] () = Inr u"
    using assms(1) by (auto simp: chain_config_validate_def f_def bind_res_Inr)
  have "f i = Inr ()" by (rule fold_unit_all [OF u]) (use assms(2) in simp)
  then show "min_virtual_limits c ! i \<le> max_virtual_limits c ! i" and "max_transaction_usage c ! i < max_block_usage c ! i"
    by (auto simp: f_def res_simps)
qed

lemma set_limit_params_ok:
  assumes c: "chain_config_validate c = Inr ()" "chain_config_typed c"
    and len: "length (limit_parameters cfg) = resources_num" "length (account_usage_average_windows cfg) = resources_num"
    and run: "set_limit_params c cfg = Inr cfg'"
  shows "rl_config_ok cfg'"
proof -
  define good where "good = (\<lambda>p :: elastic_limit_parameters. 0 \<le> el_min p \<and> el_min p \<le> el_max p \<and> el_max p < 2 ^ 64 \<and> 0 < el_periods p \<and> el_periods p < (2 :: int) ^ 32)"
  define P where "P = (\<lambda>n (cfg :: resource_limits_config_object). length (limit_parameters cfg) = resources_num \<and>
    length (account_usage_average_windows cfg) = resources_num \<and> (\<forall>i < n. good (limit_parameters cfg ! i)))"
  have "P resources_num cfg'"
  proof (rule fold_res_upt [OF run [unfolded set_limit_params_def]])
    show "P 0 cfg" using len by (simp add: P_def)
  next
    fix i r r' assume i: "i < resources_num" and p: "P i r"
    assume "bind_res (vec_at (limit_parameters r) i) (\<lambda>p.
         bind_res (vec_at (target_virtual_limits c) i) (\<lambda>tgt. bind_res (vec_at (min_virtual_limits c) i) (\<lambda>mn.
         bind_res (vec_at (max_virtual_limits c) i) (\<lambda>mx. bind_res (vec_at (usage_windows c) i) (\<lambda>w.
         bind_res (vec_at (virtual_limit_decrease_pct c) i) (\<lambda>dec.
         bind_res (vec_at (virtual_limit_increase_pct c) i) (\<lambda>inc.
         bind_res (elastic_set tgt mn mx w dec inc p) (\<lambda>p'.
         bind_res (vec_at (account_usage_windows c) i) (\<lambda>aw.
           Inr (r\<lparr>limit_parameters := (limit_parameters r)[i := p'],
                    account_usage_average_windows :=
                      (account_usage_average_windows r)[i := aw div block_interval_ms]\<rparr>)))))))))) = Inr r'"
    then obtain p' aw tgt dec inc where
      e: "elastic_set tgt (min_virtual_limits c ! i) (max_virtual_limits c ! i) (usage_windows c ! i) dec inc
            (limit_parameters r ! i) = Inr p'"
      and r': "r' = r\<lparr>limit_parameters := (limit_parameters r)[i := p'],
                    account_usage_average_windows := (account_usage_average_windows r)[i := aw]\<rparr>"
      by (auto simp: res_simps)
    have t: "0 \<le> min_virtual_limits c ! i" "max_virtual_limits c ! i < 2 ^ 64" "usage_windows c ! i < 2 ^ 32"
      using c(2) i u_listD [of 64 "min_virtual_limits c" i] u_listD [of 64 "max_virtual_limits c" i]
        u_listD [of 32 "usage_windows c" i] by (simp_all add: chain_config_typed_def)
    have "usage_windows c ! i div block_interval_ms < 2 ^ 32"
      using t(3) zdiv_mono1 [of "usage_windows c ! i" "2 ^ 32 - 1" 3000] by (simp add: block_interval_ms_def)
    then have "good p'" using e t chain_config_validate_limits [OF c(1) i] by (auto simp: good_def elastic_set_def res_simps Let_def)
    then show "P (Suc i) r'" using p i by (auto simp: P_def r' less_Suc_eq)
  qed
  then show ?thesis by (auto simp: P_def rl_config_ok_def good_def in_set_conv_nth)
qed

text \<open>The configuration of the genesis is valid, and the state set up for it satisfies the invariants.\<close>

definition ex_resource_db :: "stake_db \<Rightarrow> int \<Rightarrow> unit resource_db" where
  "ex_resource_db s value =
     \<lparr>resource_usage = \<lparr>rows = [(2, replicate 4 \<lparr>last_ordinal = 5, value_ex = value, consumed = 0\<rparr>)], next_pk = pk_Unset\<rparr>,
      rl_config = \<lparr>limit_parameters = replicate 4 new_elastic_limit_parameters, account_usage_average_windows = replicate 4 1200\<rparr>,
      rl_state = \<lparr>block_usage_accumulators = replicate 4 \<lparr>last_ordinal = 5, value_ex = value, consumed = 0\<rparr>,
                  pending_usage = [100000, 2000, 3000, -40], virtual_limits = [1400000, 1, 1, 1]\<rparr>,
      accounts = \<lparr>rows = [(2, new_account ())], next_pk = pk_Unset\<rparr>, stakes = s,
      configuration = initial_configuration, validate_storage_price = False\<rparr>"

lemma initial_configuration_ok:
  "chain_config_validate initial_configuration = Inr ()" "chain_config_typed initial_configuration"
  by code_simp (simp add: chain_config_typed_def u_list_def initial_configuration_def default_target_virtual_limits_def
    default_min_virtual_limits_def default_max_virtual_limits_def default_usage_windows_def resources_num_def
    default_account_usage_windows_def blocks_per_year_def block_interval_ms_def)

lemma initialize_database_ok: "case initialize_database of Inr (cfg, st) \<Rightarrow> virtual_limits st = default_max_virtual_limits | _ \<Rightarrow> False"
  by code_simp

lemma ex_finalize:
  "map_sum id (\<lambda>db. virtual_limits (rl_state db)) (finalize_limits 6 (ex_resource_db s 0)) =
     Inr [1401400, 1048576, 33554432, 1634]"
  by code_simp

lemma ex_resource_db_ok: "rl_state_ok (rl_state (ex_resource_db s 0))"
  by (auto simp: rl_state_ok_def res_ok_def ema_ok_def ex_resource_db_def resources_num_def large_number_no_overflow_def
      less_Suc_eq numeral_eq_Suc)

text \<open>
  C15. Finalizing a block under any validated configuration brings every resource up to date and keeps the
  state in range: the moving average gets exactly the decayed old value plus the share of the pending usage,
  without wrapping; the limit is the elastic limit for that average and lies between the bounds of the new
  configuration; and nothing stays pending.
\<close>

theorem finalize_limits_correct:
  assumes "chain_config_validate (configuration db) = Inr ()" and "chain_config_typed (configuration db)"
    and "length (limit_parameters (rl_config db)) = resources_num"
    and "length (account_usage_average_windows (rl_config db)) = resources_num"
    and "rl_state_ok (rl_state db)" and "0 \<le> slot" and "slot < 2 ^ 32" and "finalize_limits slot db = Inr db'"
  shows "rl_config_ok (rl_config db') \<and> rl_state_ok (rl_state db') \<and> limits_ok (rl_config db') (rl_state db') \<and>
     (\<forall>i < resources_num. block_turn (rl_config db') slot i (rl_state db) (rl_state db'))"
proof -
  obtain cfg where sp: "set_limit_params (configuration db) (rl_config db) = Inr cfg"
    and pb: "process_block_usage slot (db\<lparr>rl_config := cfg\<rparr>) = Inr db'"
    using assms(8) by (auto simp: finalize_limits_def res_simps)
  have "rl_config_ok cfg" by (rule set_limit_params_ok [OF assms(1-4) sp])
  then show ?thesis using process_block_usage_correct [OF _ _ assms(6,7) pb] assms(5) by auto
qed


theorem finalize_limits_correct_witness:
  "\<exists>db'. finalize_limits 6 (ex_resource_db (ex_stake_db 0) 0) = Inr db' \<and> limits_ok (rl_config db') (rl_state db') \<and>
     rl_state_ok (rl_state db')"
proof -
  let ?db = "ex_resource_db (ex_stake_db 0) 0"
  obtain db' where r: "finalize_limits 6 ?db = Inr db'"
    using ex_finalize [of "ex_stake_db 0"] by (cases "finalize_limits 6 ?db") auto
  have c: "configuration ?db = initial_configuration" by (simp add: ex_resource_db_def)
  have "rl_config_ok (rl_config db') \<and> rl_state_ok (rl_state db') \<and> limits_ok (rl_config db') (rl_state db') \<and>
     (\<forall>i < resources_num. block_turn (rl_config db') 6 i (rl_state ?db) (rl_state db'))"
    by (rule finalize_limits_correct [OF _ _ _ _ ex_resource_db_ok _ _ r])
      (simp_all add: c initial_configuration_ok, simp_all add: ex_resource_db_def resources_num_def)
  with r show ?thesis by blast
qed

lemma ex_account_usage: "get_account_usage 2 (ex_resource_db s 500) = Inr [1, 1, 1, 1]"
  by code_simp




section \<open>Transactions are billed\<close>

lemma staking_keeps:
  assumes "stake_ok (stakes db)" and "update_proxied fuel now account force (stakes db) = Inr s"
  shows "stake_ok s" and "staking (db\<lparr>stakes := s\<rparr>) = None \<longleftrightarrow> staking db = None"
proof -
  note k = update_proxied_keeps [OF assms]
  show "stake_ok s" by (rule k)
  show "staking (db\<lparr>stakes := s\<rparr>) = None \<longleftrightarrow> staking db = None"
    using k(3,4) by (auto simp: staking_def split: option.splits)
qed

text \<open>A step of billing keeps the accounts, the stakes' invariant and whether stakes count.\<close>

definition bill_frame :: "'d resource_db \<Rightarrow> 'd resource_db \<Rightarrow> bool" where
  "bill_frame db db' \<longleftrightarrow>
     accounts db' = accounts db \<and> (stake_ok (stakes db) \<longrightarrow> stake_ok (stakes db') \<and> (staking db' = None \<longleftrightarrow> staking db = None))"

lemma bill_frame_refl [simp]: "bill_frame db db"
  by (simp add: bill_frame_def)

lemma bill_frame_trans: "bill_frame a b \<Longrightarrow> bill_frame b c \<Longrightarrow> bill_frame a c"
  by (auto simp: bill_frame_def)

lemma add_account_usage_frame: "add_account_usage a i u slot db = Inr db' \<Longrightarrow> bill_frame db db'"
  by (auto simp: add_account_usage_def res_simps bill_frame_def staking_def)

lemma get_account_stake_ratio_frame:
  assumes "get_account_stake_ratio fuel t a upd db = Inr (r, db')"
  shows "bill_frame db db'" and "resource_usage db' = resource_usage db" and "rl_config db' = rl_config db"
proof -
  have "db' = db \<or> (\<exists>s. update_proxied fuel (t div 1000000) a False (stakes db) = Inr s \<and> db' = db\<lparr>stakes := s\<rparr>)"
    using assms by (auto simp: get_account_stake_ratio_def res_simps split: option.splits if_splits)
  then show "bill_frame db db'" and "resource_usage db' = resource_usage db" and "rl_config db' = rl_config db"
    using staking_keeps [of db] by (auto simp: bill_frame_def)
qed

definition effective_stake :: "'d resource_db \<Rightarrow> 64 word \<Rightarrow> int res" where
  "effective_stake db a = (case fm_find (agents (stakes db)) a of None \<Rightarrow> Inr 0 | Some ag \<Rightarrow> get_effective_stake ag)"

lemma used_resources_cost_cong:
  "resource_usage db' = resource_usage db \<Longrightarrow> rl_config db' = rl_config db \<Longrightarrow>
     get_used_resources_cost a prices m db' = get_used_resources_cost a prices m db"
  by (simp add: get_used_resources_cost_def get_account_usage_def)

lemma used_resources_cost_mono:
  "get_used_resources_cost a prices m db = Inr cost \<Longrightarrow> m \<le> m' \<Longrightarrow>
     get_used_resources_cost a prices m' db = Inr cost \<and> cost \<le> m"
  by (auto simp: get_used_resources_cost_def res_simps)

lemma get_account_balance_checks:
  assumes "get_account_balance fuel t a prices True db = Inr (b, db')" and "staking db \<noteq> None"
    and "tbl_get (accounts db) a = Inr acc" and "\<not> privileged acc"
  shows "\<exists>cost staked. get_used_resources_cost a prices (2 ^ 64 - 1) db' = Inr cost \<and>
           effective_stake db' a = Inr staked \<and> cost \<le> to_uint64 staked"
proof -
  obtain r where r: "get_account_stake_ratio fuel t a True db = Inr (r, db')"
    and rest: "denominator r = 0 \<or> (\<exists>cost. get_used_resources_cost a prices (numerator r) db' = Inr cost)"
    using assms(1) by (auto simp: get_account_balance_def res_simps Let_def split: if_splits)
  obtain staked where s: "effective_stake db' a = Inr staked" "numerator r = to_uint64 staked" "denominator r \<noteq> 0"
    using r assms(2-4)
    by (auto simp: get_account_stake_ratio_def effective_stake_def res_simps to_uint64_def split: option.splits)
  obtain cost where "get_used_resources_cost a prices (numerator r) db' = Inr cost" using rest s(3) by blast
  moreover have "numerator r \<le> 2 ^ 64 - 1" by (simp add: s(2) to_uint64_def)
  ultimately have "get_used_resources_cost a prices (2 ^ 64 - 1) db' = Inr cost" "cost \<le> numerator r"
    using used_resources_cost_mono [of a prices "numerator r" db' cost "2 ^ 64 - 1"] by auto
  with s show ?thesis by auto
qed

lemma get_account_balance_frame:
  "get_account_balance fuel t a prices upd db = Inr (b, db') \<Longrightarrow> bill_frame db db'"
  using get_account_stake_ratio_frame(1) [of fuel t a upd db _ db']
  by (auto simp: get_account_balance_def res_simps Let_def split: if_splits)

lemma bill_account_validated:
  assumes "bill_account fuel prices cpu net ram t True a db = Inr db'"
  obtains d b where "bill_frame db d" and "get_account_balance fuel t a prices True d = Inr (b, db')"
proof -
  obtain d1 d2 d b where "add_account_usage a CPU (to_int64 cpu) (uint (set_time_point t)) db = Inr d1"
    "add_account_usage a NET (to_int64 net) (uint (set_time_point t)) d1 = Inr d2"
    "add_account_usage a RAM (to_int64 ram) (uint (set_time_point t)) d2 = Inr d"
    and b: "get_account_balance fuel t a prices True d = Inr (b, db')"
    using assms by (auto simp: bill_account_def bind_res_Inr Let_def)
  then have "bill_frame db d1" "bill_frame d1 d2" "bill_frame d2 d" by (blast dest: add_account_usage_frame)+
  then have "bill_frame db d" by (blast intro: bill_frame_trans)
  then show ?thesis using b by (rule that)
qed

lemma bill_account_frame:
  assumes "bill_account fuel prices cpu net ram t True a db = Inr db'"
  shows "bill_frame db db'"
  by (rule bill_account_validated [OF assms]) (blast intro: bill_frame_trans get_account_balance_frame)

lemma add_block_usage_frame:
  "add_block_usage d i db = Inr db' \<Longrightarrow>
     stakes db' = stakes db \<and> resource_usage db' = resource_usage db \<and> rl_config db' = rl_config db"
  by (auto simp: add_block_usage_def res_simps)

lemma ex_bill:
  "\<not> isl (add_transaction_usage 10 [2] (replicate 4 \<lparr>numerator = 1, denominator = 50\<rparr>) 1000 200 30 946684818000000 True
      (ex_resource_db (ex_stake_db 0) 500))"
  by code_simp



end
