(* ===== verification/EosioContract.thy ===== *)
theory EosioContract
  imports AuthManager ResourceLimits "HOL-Library.Sublist"
begin

text \<open>
  The native actions of the system account: \<^verbatim>\<open>libraries/chain/eosio_contract.cpp\<close>, the
  authorization part of \<^verbatim>\<open>apply_context.cpp\<close> they use, and their table in
  \<^verbatim>\<open>controller.cpp\<close>.

  The context holds the authorizations of the action with the marks of those used, the permissions and
  links (\<open>ctx_auth\<close>), the accounts, usage rows and configuration (\<open>ctx_res\<close>) and the sequence rows
  (\<open>ctx_seqs\<close>).  The environment holds what lies outside: the digest of a byte string and its
  default value, the validation of code by the WASM engine, the merge of an ABI with the built-in one
  of a system account, and the 64-bit words of a transaction id.  The action is given unpacked.  The
  storage bill of the rows, the events and the console are not modelled.
\<close>

unbundle bit_operations_syntax

section \<open>Context\<close>

record ('k, 'h, 'd, 'g) apply_context =
  ctx_authorization :: "permission_level list"
  used_authorizations :: "bool list"
  ctx_auth :: "('k, 'h, 'd) auth_db"
  ctx_res :: "'g resource_db"
  ctx_seqs :: "account_sequence_object chain_table"

record ('h, 'g) native_env =
  digest_of :: "8 word list \<Rightarrow> 'g"
  digest_default :: 'g
  wasm_validate :: "8 word list \<Rightarrow> unit res"
  merge_system_abi :: "8 word list \<Rightarrow> 8 word list res"
  merge_domain_abi :: "8 word list \<Rightarrow> 8 word list res"
  hash_words :: "'h \<Rightarrow> 64 word list"

definition find_auth :: "(permission_level \<Rightarrow> bool) \<Rightarrow> ('k, 'h, 'd, 'g) apply_context \<Rightarrow> nat option" where
  "find_auth P ctx =
     map_option fst (List.find (\<lambda>(i, a). P a) (enumerate 0 (ctx_authorization ctx)))"

definition mark_used :: "nat \<Rightarrow> ('k, 'h, 'd, 'g) apply_context \<Rightarrow> ('k, 'h, 'd, 'g) apply_context" where
  "mark_used i ctx = ctx\<lparr>used_authorizations := (used_authorizations ctx)[i := True]\<rparr>"

definition require_authorization ::
  "64 word \<Rightarrow> ('k, 'h, 'd, 'g) apply_context \<Rightarrow> ('k, 'h, 'd, 'g) apply_context res" where
  "require_authorization account ctx =
     (case find_auth (\<lambda>a. actor a = account) ctx of
        Some i \<Rightarrow> Inr (mark_used i ctx)
      | None \<Rightarrow> Inl Missing_auth_exception)"

definition weak_require_authorization ::
  "64 word \<Rightarrow> ('k, 'h, 'd, 'g) apply_context \<Rightarrow> bool \<times> ('k, 'h, 'd, 'g) apply_context" where
  "weak_require_authorization account ctx =
     (case find_auth (\<lambda>a. actor a = account) ctx of Some i \<Rightarrow> (True, mark_used i ctx) | None \<Rightarrow> (False, ctx))"

definition has_authorization :: "64 word \<Rightarrow> ('k, 'h, 'd, 'g) apply_context \<Rightarrow> bool" where
  "has_authorization account ctx \<longleftrightarrow> list_ex (\<lambda>a. actor a = account) (ctx_authorization ctx)"

definition require_authorization_at ::
  "64 word \<Rightarrow> 64 word \<Rightarrow> ('k, 'h, 'd, 'g) apply_context \<Rightarrow> ('k, 'h, 'd, 'g) apply_context res" where
  "require_authorization_at account perm ctx =
     (case find_auth (\<lambda>a. actor a = account \<and> permission a = perm) ctx of
        Some i \<Rightarrow> Inr (mark_used i ctx)
      | None \<Rightarrow> Inl Missing_auth_exception)"

definition weak_require_authorization_at ::
  "64 word \<Rightarrow> 64 word \<Rightarrow> ('k, 'h, 'd, 'g) apply_context \<Rightarrow> bool \<times> ('k, 'h, 'd, 'g) apply_context" where
  "weak_require_authorization_at account perm ctx =
     (case find_auth (\<lambda>a. actor a = account \<and> permission a = perm) ctx of
        Some i \<Rightarrow> (True, mark_used i ctx) | None \<Rightarrow> (False, ctx))"

abbreviation ctx_accounts :: "('k, 'h, 'd, 'g) apply_context \<Rightarrow> 'g account_object chain_table" where
  "ctx_accounts ctx \<equiv> accounts (ctx_res ctx)"

definition is_account :: "64 word \<Rightarrow> ('k, 'h, 'd, 'g) apply_context \<Rightarrow> bool" where
  "is_account account ctx \<longleftrightarrow> tbl_find (ctx_accounts ctx) account \<noteq> None"

definition set_auth_db ::
  "('k, 'h, 'd) auth_db \<Rightarrow> ('k, 'h, 'd, 'g) apply_context \<Rightarrow> ('k, 'h, 'd, 'g) apply_context" where
  "set_auth_db db ctx = ctx\<lparr>ctx_auth := db\<rparr>"

section \<open>The actions\<close>

record 'k newaccount =
  na_creator :: "64 word"
  na_name :: "64 word"
  na_owner :: "'k authority"
  na_active :: "'k authority"

record setcode =
  sc_account :: "64 word"
  sc_vmtype :: "8 word"
  sc_vmversion :: "8 word"
  sc_code :: "8 word list"

record setabi =
  sa_account :: "64 word"
  sa_abi :: "8 word list"

record 'g checkversion =
  cv_account :: "64 word"
  cv_abi_version :: "'g option"
  cv_code_version :: "'g option"

definition domain_account_name :: "64 word" where "domain_account_name = string_to_name ''cyber.domain''"

text \<open>\<^verbatim>\<open>transaction_id_to_sender_id\<close>: the upper half of the id, most significant word first.\<close>

definition transaction_id_to_sender_id :: "('h, 'g) native_env \<Rightarrow> 'h \<Rightarrow> 128 word" where
  "transaction_id_to_sender_id env tid =
     (push_bit 64 (ucast (hash_words env tid ! 3)) OR ucast (hash_words env tid ! 2))"

definition validate_authority_precondition ::
  "('k, 'h, 'd, 'g) apply_context \<Rightarrow> 'k authority \<Rightarrow> unit res" where
  "validate_authority_precondition ctx auth =
     fold_res (\<lambda>a _.
         let p = plw_permission a in
         bind_res (eos_assert (tbl_find (ctx_accounts ctx) (actor p) \<noteq> None) Action_validate_exception) (\<lambda>_.
           if permission p = owner_name \<or> permission p = active_name then Inr ()
           else if permission p = eosio_code_name then Inr ()
           else
             (case get_permission p (ctx_auth ctx) of
                Inl Permission_query_exception \<Rightarrow> Inl Action_validate_exception
              | Inl e \<Rightarrow> Inl e
              | Inr _ \<Rightarrow> Inr ())))
       (auth_accounts auth) ()"

definition system_prefix :: string where "system_prefix = ''cyber.''"

definition apply_newaccount ::
  "'g \<Rightarrow> ('k::linorder) newaccount \<Rightarrow> ('k, 'h, 'd, 'g) apply_context \<Rightarrow> ('k, 'h, 'd, 'g) apply_context res" where
  "apply_newaccount digest0 create ctx0 =
     bind_res (require_authorization (na_creator create) ctx0) (\<lambda>ctx.
     bind_res (eos_assert (validate (na_owner create)) Action_validate_exception) (\<lambda>_.
     bind_res (eos_assert (validate (na_active create)) Action_validate_exception) (\<lambda>_.
     let name_str = name_to_string (na_name create) in
     bind_res (eos_assert (na_name create \<noteq> 0) Action_validate_exception) (\<lambda>_.
     bind_res (case name_str of [] \<Rightarrow> Inl Undefined_behaviour | c # _ \<Rightarrow> eos_assert (c \<noteq> CHR ''.'') Action_validate_exception) (\<lambda>_.
     bind_res (eos_assert (length name_str \<le> 12) Action_validate_exception) (\<lambda>_.
     bind_res (tbl_get (ctx_accounts ctx) (na_creator create)) (\<lambda>creator.
     bind_res (eos_assert (privileged creator \<or> \<not> prefix system_prefix name_str) Action_validate_exception) (\<lambda>_.
     bind_res (eos_assert (tbl_find (ctx_accounts ctx) (na_name create) = None) Account_name_exists_exception) (\<lambda>_.
     bind_res (initialize_account (na_name create) (ctx_res ctx)) (\<lambda>res1.
     bind_res (tbl_emplace_at (na_name create)
                 ((new_account digest0)\<lparr>creation_date := set_time_point (pending_block_time (ctx_auth ctx))\<rparr>)
                 (accounts res1)) (\<lambda>accs.
     bind_res (tbl_emplace_at (na_name create) new_account_sequence (ctx_seqs ctx)) (\<lambda>seqs.
     let ctx1 = ctx\<lparr>ctx_res := res1\<lparr>accounts := accs\<rparr>, ctx_seqs := seqs\<rparr> in
     bind_res (validate_authority_precondition ctx1 (na_owner create)) (\<lambda>_.
     bind_res (validate_authority_precondition ctx1 (na_active create)) (\<lambda>_.
     bind_res (create_permission (na_name create) owner_name 0 (na_owner create) 0 (ctx_auth ctx1)) (\<lambda>(owner_id, db1).
     bind_res (create_permission (na_name create) active_name owner_id (na_active create) 0 db1) (\<lambda>(_, db2).
       Inr (ctx1\<lparr>ctx_auth := db2\<rparr>)))))))))))))))))"

definition modify_account ::
  "64 word \<Rightarrow> ('g account_object \<Rightarrow> 'g account_object) \<Rightarrow> ('k, 'h, 'd, 'g) apply_context
     \<Rightarrow> ('k, 'h, 'd, 'g) apply_context" where
  "modify_account account f ctx =
     ctx\<lparr>ctx_res := (ctx_res ctx)\<lparr>accounts := tbl_modify account f (ctx_accounts ctx)\<rparr>\<rparr>"

definition apply_setcode ::
  "('h, 'g) native_env \<Rightarrow> setcode \<Rightarrow> ('k, 'h, 'd, 'g) apply_context \<Rightarrow> ('k, 'h, 'd, 'g) apply_context res" where
  "apply_setcode env act ctx0 =
     bind_res (require_authorization (sc_account act) ctx0) (\<lambda>ctx.
     bind_res (eos_assert (sc_vmtype act = 0) Invalid_contract_vm_type) (\<lambda>_.
     bind_res (eos_assert (sc_vmversion act = 0) Invalid_contract_vm_version) (\<lambda>_.
     bind_res (if sc_code act \<noteq> [] then bind_res (wasm_validate env (sc_code act)) (\<lambda>_. Inr (digest_of env (sc_code act)))
               else Inr (digest_default env)) (\<lambda>code_id.
     bind_res (tbl_get (ctx_accounts ctx) (sc_account act)) (\<lambda>account.
     bind_res (eos_assert (code_version account \<noteq> code_id) Set_exact_code) (\<lambda>_.
     let ctx1 = modify_account (sc_account act) (\<lambda>a. a\<lparr>last_code_update := pending_block_time (ctx_auth ctx),
                                                       code_version := code_id, acc_code := sc_code act\<rparr>) ctx in
     bind_res (tbl_get (ctx_seqs ctx1) (sc_account act)) (\<lambda>_.
       Inr (ctx1\<lparr>ctx_seqs := tbl_modify (sc_account act) (\<lambda>q. q\<lparr>code_sequence := code_sequence q + 1\<rparr>) (ctx_seqs ctx1)\<rparr>))))))))"

definition bytes_hash :: "('h, 'g) native_env \<Rightarrow> 8 word list \<Rightarrow> 'g" where
  "bytes_hash env data = (if data \<noteq> [] then digest_of env data else digest_default env)"

definition apply_setabi ::
  "('h, 'g) native_env \<Rightarrow> setabi \<Rightarrow> ('k, 'h, 'd, 'g) apply_context \<Rightarrow> ('k, 'h, 'd, 'g) apply_context res" where
  "apply_setabi env act ctx0 =
     bind_res (require_authorization (sa_account act) ctx0) (\<lambda>ctx.
     bind_res (tbl_get (ctx_accounts ctx) (sa_account act)) (\<lambda>account.
     bind_res (if sa_account act = system_account_name then merge_system_abi env (sa_abi act)
               else if sa_account act = domain_account_name then merge_domain_abi env (sa_abi act)
               else Inr (sa_abi act)) (\<lambda>abi.
     let hash = bytes_hash env abi in
     bind_res (eos_assert (abi_version account \<noteq> hash) Set_exact_abi) (\<lambda>_.
     let ctx1 = modify_account (sa_account act) (\<lambda>a. a\<lparr>abi_version := hash, acc_abi := abi\<rparr>) ctx in
     bind_res (tbl_get (ctx_seqs ctx1) (sa_account act)) (\<lambda>_.
       Inr (ctx1\<lparr>ctx_seqs := tbl_modify (sa_account act) (\<lambda>q. q\<lparr>abi_sequence := abi_sequence q + 1\<rparr>) (ctx_seqs ctx1)\<rparr>))))))"

definition apply_checkversion ::
  "'g checkversion \<Rightarrow> ('k, 'h, 'd, 'g) apply_context \<Rightarrow> ('k, 'h, 'd, 'g) apply_context res" where
  "apply_checkversion act ctx =
     bind_res (tbl_get (ctx_accounts ctx) (cv_account act)) (\<lambda>account.
     bind_res (eos_assert (cv_code_version act \<noteq> None \<or> cv_abi_version act \<noteq> None) Action_validate_exception) (\<lambda>_.
     bind_res (case cv_code_version act of
                 Some v \<Rightarrow> eos_assert (code_version account = v) Action_validate_exception | None \<Rightarrow> Inr ()) (\<lambda>_.
     bind_res (case cv_abi_version act of
                 Some v \<Rightarrow> eos_assert (abi_version account = v) Action_validate_exception | None \<Rightarrow> Inr ()) (\<lambda>_.
       Inr ctx))))"

definition apply_updateauth ::
  "('k::linorder) updateauth \<Rightarrow> ('k, 'h, 'd, 'g) apply_context \<Rightarrow> ('k, 'h, 'd, 'g) apply_context res" where
  "apply_updateauth update ctx0 =
     bind_res (require_authorization (ua_account update) ctx0) (\<lambda>ctx.
     bind_res (eos_assert (ua_permission update \<noteq> 0) Action_validate_exception) (\<lambda>_.
     bind_res (eos_assert (\<not> prefix system_prefix (name_to_string (ua_permission update))) Action_validate_exception) (\<lambda>_.
     bind_res (eos_assert (ua_permission update \<noteq> ua_parent update) Action_validate_exception) (\<lambda>_.
     bind_res (tbl_get (ctx_accounts ctx) (ua_account update)) (\<lambda>_.
     bind_res (eos_assert (validate (ua_auth update)) Action_validate_exception) (\<lambda>_.
     bind_res (eos_assert (ua_permission update = active_name \<longrightarrow> ua_parent update = owner_name) Action_validate_exception) (\<lambda>_.
     bind_res (eos_assert (if ua_permission update = owner_name then ua_parent update = 0 else ua_parent update \<noteq> 0)
                 Action_validate_exception) (\<lambda>_.
     bind_res (eos_assert (auth_waits (ua_auth update) = [] \<or>
                   ww_wait_sec (last (auth_waits (ua_auth update))) \<le> auth_db.max_transaction_delay (ctx_auth ctx))
                 Action_validate_exception) (\<lambda>_.
     bind_res (validate_authority_precondition ctx (ua_auth update)) (\<lambda>_.
     bind_res (find_permission (Permission_level (ua_account update) (ua_permission update)) (ctx_auth ctx)) (\<lambda>found.
     bind_res (if ua_permission update \<noteq> owner_name
               then bind_res (get_permission (Permission_level (ua_account update) (ua_parent update)) (ctx_auth ctx))
                      (\<lambda>(pk, _). Inr pk)
               else Inr 0) (\<lambda>parent_id.
       case found of
         Some (pk, po) \<Rightarrow>
           bind_res (eos_assert (parent_id = po_parent po) Action_validate_exception) (\<lambda>_.
             Inr (set_auth_db (modify_permission pk (ua_auth update) (ctx_auth ctx)) ctx))
       | None \<Rightarrow>
           bind_res (create_permission (ua_account update) (ua_permission update) parent_id (ua_auth update) 0 (ctx_auth ctx))
             (\<lambda>(_, db). Inr (set_auth_db db ctx)))))))))))))) "

definition apply_deleteauth ::
  "deleteauth \<Rightarrow> ('k, 'h, 'd, 'g) apply_context \<Rightarrow> ('k, 'h, 'd, 'g) apply_context res" where
  "apply_deleteauth remove ctx0 =
     bind_res (require_authorization (da_account remove) ctx0) (\<lambda>ctx.
     bind_res (eos_assert (da_permission remove \<noteq> active_name) Action_validate_exception) (\<lambda>_.
     bind_res (eos_assert (da_permission remove \<noteq> owner_name) Action_validate_exception) (\<lambda>_.
     bind_res (eos_assert (find_by (\<lambda>l. pl_account l = da_account remove \<and> pl_required_permission l = da_permission remove)
                             (links (ctx_auth ctx)) = None) Action_validate_exception) (\<lambda>_.
     bind_res (get_permission (Permission_level (da_account remove) (da_permission remove)) (ctx_auth ctx)) (\<lambda>p.
     bind_res (remove_permission p (ctx_auth ctx)) (\<lambda>db.
       Inr (set_auth_db db ctx)))))))"

definition apply_linkauth ::
  "linkauth \<Rightarrow> ('k, 'h, 'd, 'g) apply_context \<Rightarrow> ('k, 'h, 'd, 'g) apply_context res" where
  "apply_linkauth req ctx0 =
     bind_res (eos_assert (la_requirement req \<noteq> 0) Action_validate_exception) (\<lambda>_.
     bind_res (require_authorization (la_account req) ctx0) (\<lambda>ctx.
     bind_res (eos_assert (is_account (la_account req) ctx) Account_query_exception) (\<lambda>_.
     bind_res (eos_assert (is_account (la_code req) ctx) Account_query_exception) (\<lambda>_.
     bind_res (eos_assert (la_requirement req \<noteq> eosio_any_name \<longrightarrow>
                   find_by (\<lambda>po. po_name po = la_requirement req) (permissions (ctx_auth ctx)) \<noteq> None)
                 Permission_query_exception) (\<lambda>_.
     let db = ctx_auth ctx in
     (case find_by (\<lambda>l. pl_account l = la_account req \<and> pl_code l = la_code req \<and> pl_message_type l = la_type req) (links db) of
        Some (pk, l) \<Rightarrow>
          bind_res (eos_assert (pl_required_permission l \<noteq> la_requirement req) Action_validate_exception) (\<lambda>_.
            Inr (set_auth_db (db\<lparr>links := tbl_modify pk (\<lambda>l. l\<lparr>pl_required_permission := la_requirement req\<rparr>) (links db)\<rparr>) ctx))
      | None \<Rightarrow>
          bind_res (tbl_emplace \<lparr>pl_account = la_account req, pl_code = la_code req, pl_message_type = la_type req,
                                 pl_required_permission = la_requirement req\<rparr> (links db)) (\<lambda>(_, t).
            Inr (set_auth_db (db\<lparr>links := t\<rparr>) ctx))))))))"

definition apply_unlinkauth ::
  "unlinkauth \<Rightarrow> ('k, 'h, 'd, 'g) apply_context \<Rightarrow> ('k, 'h, 'd, 'g) apply_context res" where
  "apply_unlinkauth unlink ctx0 =
     bind_res (require_authorization (ul_account unlink) ctx0) (\<lambda>ctx.
     let db = ctx_auth ctx in
     (case find_by (\<lambda>l. pl_account l = ul_account unlink \<and> pl_code l = ul_code unlink \<and> pl_message_type l = ul_type unlink) (links db) of
        None \<Rightarrow> Inl Action_validate_exception
      | Some (pk, _) \<Rightarrow> Inr (set_auth_db (db\<lparr>links := tbl_erase pk (links db)\<rparr>) ctx)))"

definition cancel_deferred_transaction ::
  "128 word \<Rightarrow> 64 word \<Rightarrow> ('k, 'h, 'd, 'g) apply_context \<Rightarrow> bool \<times> ('k, 'h, 'd, 'g) apply_context" where
  "cancel_deferred_transaction sender_id sender ctx =
     (let db = ctx_auth ctx in
      case find_by (\<lambda>g. gto_sender g = sender \<and> gto_sender_id g = sender_id) (generated db) of
        Some (pk, _) \<Rightarrow> (True, set_auth_db (db\<lparr>generated := tbl_erase pk (generated db)\<rparr>) ctx)
      | None \<Rightarrow> (False, ctx))"

definition apply_canceldelay ::
  "('h, 'g) native_env \<Rightarrow> 'h canceldelay \<Rightarrow> ('k, 'h, 'd, 'g) apply_context \<Rightarrow> ('k, 'h, 'd, 'g) apply_context res" where
  "apply_canceldelay env cancel ctx0 =
     bind_res (require_authorization (actor (cd_canceling_auth cancel)) ctx0) (\<lambda>ctx.
       Inr (snd (cancel_deferred_transaction (transaction_id_to_sender_id env (cd_trx_id cancel)) 0 ctx)))"

text \<open>\<^verbatim>\<open>SET_APP_HANDLER\<close> of the controller: the handler of each native action.\<close>

datatype ('k, 'h, 'g) native_action =
    Newaccount "'k newaccount"
  | Setcode setcode
  | Setabi setabi
  | Checkversion "'g checkversion"
  | Updateauth "'k updateauth"
  | Deleteauth deleteauth
  | Linkauth linkauth
  | Unlinkauth unlinkauth
  | Canceldelay "'h canceldelay"

definition apply_native ::
  "('h, 'g) native_env \<Rightarrow> ('k::linorder, 'h, 'g) native_action \<Rightarrow> ('k, 'h, 'd, 'g) apply_context
     \<Rightarrow> ('k, 'h, 'd, 'g) apply_context res" where
  "apply_native env act ctx =
     (case act of
        Newaccount a \<Rightarrow> apply_newaccount (digest_default env) a ctx
      | Setcode a \<Rightarrow> apply_setcode env a ctx
      | Setabi a \<Rightarrow> apply_setabi env a ctx
      | Checkversion a \<Rightarrow> apply_checkversion a ctx
      | Updateauth a \<Rightarrow> apply_updateauth a ctx
      | Deleteauth a \<Rightarrow> apply_deleteauth a ctx
      | Linkauth a \<Rightarrow> apply_linkauth a ctx
      | Unlinkauth a \<Rightarrow> apply_unlinkauth a ctx
      | Canceldelay a \<Rightarrow> apply_canceldelay env a ctx)"

text \<open>One native action with its own authorizations, none of them used yet.\<close>

definition run_native ::
  "('h, 'g) native_env \<Rightarrow> permission_level list \<times> ('k::linorder, 'h, 'g) native_action
     \<Rightarrow> ('k, 'h, 'd, 'g) apply_context \<Rightarrow> ('k, 'h, 'd, 'g) apply_context res" where
  "run_native env = (\<lambda>(auths, act) ctx.
     apply_native env act (ctx\<lparr>ctx_authorization := auths, used_authorizations := replicate (length auths) False\<rparr>))"

section \<open>The chain of accounts and permissions\<close>

text \<open>
  Every account has its owner permission without a parent, its active permission below it, a usage row
  and a sequence row; every permission belongs to an account.
\<close>

definition account_perms :: "('k, 'h, 'd) auth_db \<Rightarrow> 64 word \<Rightarrow> bool" where
  "account_perms db a \<longleftrightarrow>
     (\<exists>ok oo ak ao. tbl_find (permissions db) ok = Some oo \<and> po_owner oo = a \<and> po_name oo = owner_name \<and> po_parent oo = 0 \<and>
        tbl_find (permissions db) ak = Some ao \<and> po_owner ao = a \<and> po_name ao = active_name \<and> po_parent ao = ok)"

definition chain_ok :: "('k::linorder, 'h, 'd, 'g) apply_context \<Rightarrow> bool" where
  "chain_ok ctx \<longleftrightarrow>
     auth_db_ok (ctx_auth ctx) \<and> tbl_ok (links (ctx_auth ctx)) \<and>
     (\<forall>a. tbl_find (ctx_accounts ctx) a \<noteq> None \<longrightarrow>
        account_perms (ctx_auth ctx) a \<and> tbl_find (resource_usage (ctx_res ctx)) a \<noteq> None \<and> tbl_find (ctx_seqs ctx) a \<noteq> None) \<and>
     (\<forall>pk po. pk \<noteq> 0 \<longrightarrow> tbl_find (permissions (ctx_auth ctx)) pk = Some po \<longrightarrow>
        tbl_find (ctx_accounts ctx) (po_owner po) \<noteq> None)"

text \<open>The permissions and the links of one account.\<close>

definition perms_of :: "('k, 'h, 'd) auth_db \<Rightarrow> 64 word \<Rightarrow> (64 word \<times> 'k permission_object) set" where
  "perms_of db a = {(pk, po). tbl_find (permissions db) pk = Some po \<and> po_owner po = a}"

definition links_of :: "('k, 'h, 'd) auth_db \<Rightarrow> 64 word \<Rightarrow> (64 word \<times> permission_link_object) set" where
  "links_of db a = {(pk, l). tbl_find (links db) pk = Some l \<and> pl_account l = a}"

lemma name_values_ne [simp]: "owner_name \<noteq> 0" "active_name \<noteq> 0" "owner_name \<noteq> active_name"
  by (simp_all add: name_values)

lemma auth_db_ok_cong:
  "permissions db' = permissions db \<Longrightarrow> usages db' = usages db \<Longrightarrow> auth_db_ok db' \<longleftrightarrow> auth_db_ok db"
  by (simp add: auth_db_ok_def names_unique_def usages_unique_def perm_row_ok_def)

text \<open>A row of an owner or active permission is only ever given another authority.\<close>

definition keeps_roots :: "('k, 'h, 'd) auth_db \<Rightarrow> ('k, 'h, 'd) auth_db \<Rightarrow> bool" where
  "keeps_roots db db' \<longleftrightarrow>
     (\<forall>k po. tbl_find (permissions db) k = Some po \<longrightarrow> po_name po = owner_name \<or> po_name po = active_name \<longrightarrow>
        (\<exists>po'. tbl_find (permissions db') k = Some po' \<and> po_owner po' = po_owner po \<and> po_name po' = po_name po \<and>
               po_parent po' = po_parent po))"

lemma keeps_rootsD:
  assumes "keeps_roots db db'" and "tbl_find (permissions db) k = Some po"
    and "po_name po = owner_name \<or> po_name po = active_name"
  obtains po' where "tbl_find (permissions db') k = Some po'" "po_owner po' = po_owner po" "po_name po' = po_name po"
    "po_parent po' = po_parent po"
  using assms unfolding keeps_roots_def by blast

lemma account_perms_keeps: "keeps_roots db db' \<Longrightarrow> account_perms db a \<Longrightarrow> account_perms db' a"
proof -
  assume k: "keeps_roots db db'" and "account_perms db a"
  then obtain ok oo ak ao where o: "tbl_find (permissions db) ok = Some oo" "po_owner oo = a" "po_name oo = owner_name"
      "po_parent oo = 0"
    and c: "tbl_find (permissions db) ak = Some ao" "po_owner ao = a" "po_name ao = active_name" "po_parent ao = ok"
    unfolding account_perms_def by blast
  obtain o' where "tbl_find (permissions db') ok = Some o'" "po_owner o' = a" "po_name o' = owner_name" "po_parent o' = 0"
    by (rule keeps_rootsD [OF k o(1)]) (use o in simp_all)
  moreover obtain c' where "tbl_find (permissions db') ak = Some c'" "po_owner c' = a" "po_name c' = active_name" "po_parent c' = ok"
    by (rule keeps_rootsD [OF k c(1)]) (use c in simp_all)
  ultimately show ?thesis unfolding account_perms_def by blast
qed

lemma find_auth_Some: "find_auth P ctx = Some i \<Longrightarrow> \<exists>a \<in> set (ctx_authorization ctx). P a"
  by (auto simp: find_auth_def find_Some_iff in_set_enumerate_eq nth_enumerate_eq)

lemma require_authorization_Inr:
  assumes "require_authorization account ctx = Inr ctx'"
  obtains u where "ctx' = ctx\<lparr>used_authorizations := u\<rparr>" "\<exists>a \<in> set (ctx_authorization ctx). actor a = account"
proof -
  obtain i where i: "find_auth (\<lambda>a. actor a = account) ctx = Some i" and c: "ctx' = mark_used i ctx"
    using assms by (auto simp: require_authorization_def split: option.splits)
  show ?thesis using find_auth_Some [OF i] that c unfolding mark_used_def by blast
qed

text \<open>An action of the account \<open>x\<close> leaves alone what belongs to another account.\<close>

definition frame :: "64 word \<Rightarrow> ('k, 'h, 'd, 'g) apply_context \<Rightarrow> ('k, 'h, 'd, 'g) apply_context \<Rightarrow> bool" where
  "frame x ctx ctx' \<longleftrightarrow>
     (\<forall>b. b \<noteq> x \<longrightarrow> tbl_find (ctx_accounts ctx) b \<noteq> None \<longrightarrow>
        perms_of (ctx_auth ctx') b = perms_of (ctx_auth ctx) b \<and> links_of (ctx_auth ctx') b = links_of (ctx_auth ctx) b \<and>
        tbl_find (ctx_accounts ctx') b = tbl_find (ctx_accounts ctx) b)"

lemma chain_okD:
  assumes "chain_ok ctx"
  shows "auth_db_ok (ctx_auth ctx)" and "tbl_ok (links (ctx_auth ctx))"
    and "tbl_find (ctx_accounts ctx) a \<noteq> None \<Longrightarrow> account_perms (ctx_auth ctx) a"
    and "tbl_find (ctx_accounts ctx) a \<noteq> None \<Longrightarrow> tbl_find (resource_usage (ctx_res ctx)) a \<noteq> None"
    and "tbl_find (ctx_accounts ctx) a \<noteq> None \<Longrightarrow> tbl_find (ctx_seqs ctx) a \<noteq> None"
    and "pk \<noteq> 0 \<Longrightarrow> tbl_find (permissions (ctx_auth ctx)) pk = Some po \<Longrightarrow> tbl_find (ctx_accounts ctx) (po_owner po) \<noteq> None"
  using assms unfolding chain_ok_def by blast+

lemma chain_ok_auth:
  assumes "chain_ok ctx" and "auth_db_ok db" and "tbl_ok (links db)" and "keeps_roots (ctx_auth ctx) db"
    and "\<And>pk po. pk \<noteq> 0 \<Longrightarrow> tbl_find (permissions db) pk = Some po \<Longrightarrow> tbl_find (ctx_accounts ctx) (po_owner po) \<noteq> None"
  shows "chain_ok (set_auth_db db ctx)"
  using assms account_perms_keeps [OF assms(4)] unfolding chain_ok_def set_auth_db_def by simp

lemma chain_ok_links:
  assumes "chain_ok ctx" and "permissions db = permissions (ctx_auth ctx)" and "usages db = usages (ctx_auth ctx)"
    and "tbl_ok (links db)"
  shows "chain_ok (set_auth_db db ctx)"
proof (rule chain_ok_auth [OF assms(1) _ assms(4)])
  show "auth_db_ok db" using chain_okD(1) [OF assms(1)] auth_db_ok_cong [OF assms(2,3)] by simp
  show "keeps_roots (ctx_auth ctx) db" by (simp add: keeps_roots_def assms(2))
qed (use chain_okD(6) [OF assms(1)] assms(2) in simp)

lemma chain_ok_used [simp]: "chain_ok (ctx\<lparr>used_authorizations := u\<rparr>) \<longleftrightarrow> chain_ok ctx"
  by (simp add: chain_ok_def)

lemma frame_used [simp]: "frame x (ctx\<lparr>used_authorizations := u\<rparr>) ctx' \<longleftrightarrow> frame x ctx ctx'"
  by (simp add: frame_def)

lemma frame_auth:
  assumes "\<And>b. b \<noteq> x \<Longrightarrow> perms_of db b = perms_of (ctx_auth ctx) b" and "\<And>b. b \<noteq> x \<Longrightarrow> links_of db b = links_of (ctx_auth ctx) b"
  shows "frame x ctx (set_auth_db db ctx)"
  using assms by (simp add: frame_def set_auth_db_def)

lemma modify_account_native:
  assumes "chain_ok ctx"
  shows "chain_ok ((modify_account x f ctx)\<lparr>ctx_seqs := tbl_modify x g (ctx_seqs ctx)\<rparr>)"
    and "frame x ctx ((modify_account x f ctx)\<lparr>ctx_seqs := tbl_modify x g (ctx_seqs ctx)\<rparr>)"
  using assms by (auto simp: chain_ok_def frame_def modify_account_def tbl_find_modify)

lemma after_authorization:
  assumes "require_authorization x ctx = Inr c1" and "chain_ok ctx"
  shows "chain_ok c1" and "frame x c1 c' \<Longrightarrow> frame x ctx c'" and "\<exists>a \<in> set (ctx_authorization ctx). actor a = x"
  by (rule require_authorization_Inr [OF assms(1)], use assms(2) in simp)+

lemma setcode_native:
  assumes "chain_ok ctx" and "apply_setcode env act ctx = Inr ctx'"
  shows "chain_ok ctx' \<and> frame (sc_account act) ctx ctx' \<and> (\<exists>a \<in> set (ctx_authorization ctx). actor a = sc_account act)"
proof -
  let ?x = "sc_account act"
  obtain c1 f g where c1: "require_authorization ?x ctx = Inr c1"
    and c': "ctx' = (modify_account ?x f c1)\<lparr>ctx_seqs := tbl_modify ?x g (ctx_seqs c1)\<rparr>"
    using assms(2) by (auto simp: apply_setcode_def bind_res_Inr Let_def modify_account_def)
  note a = after_authorization [OF c1 assms(1)]
  show ?thesis unfolding c' using modify_account_native [OF a(1)] a(2,3) by blast
qed

lemma setabi_native:
  assumes "chain_ok ctx" and "apply_setabi env act ctx = Inr ctx'"
  shows "chain_ok ctx' \<and> frame (sa_account act) ctx ctx' \<and> (\<exists>a \<in> set (ctx_authorization ctx). actor a = sa_account act)"
proof -
  let ?x = "sa_account act"
  obtain c1 f g where c1: "require_authorization ?x ctx = Inr c1"
    and c': "ctx' = (modify_account ?x f c1)\<lparr>ctx_seqs := tbl_modify ?x g (ctx_seqs c1)\<rparr>"
    using assms(2) by (auto simp: apply_setabi_def bind_res_Inr Let_def modify_account_def)
  note a = after_authorization [OF c1 assms(1)]
  show ?thesis unfolding c' using modify_account_native [OF a(1)] a(2,3) by blast
qed

lemma links_of_modify:
  assumes "tbl_find (links db) pk = Some l" and "pl_account l = x" and "\<And>l. pl_account (f l) = pl_account l" and "b \<noteq> x"
  shows "links_of (db\<lparr>links := tbl_modify pk f (links db)\<rparr>) b = links_of db b"
  using assms by (auto simp: links_of_def tbl_find_modify split: if_splits)

lemma linkauth_native:
  assumes "chain_ok ctx" and "apply_linkauth req ctx = Inr ctx'"
  shows "chain_ok ctx' \<and> frame (la_account req) ctx ctx' \<and> (\<exists>a \<in> set (ctx_authorization ctx). actor a = la_account req)"
proof -
  let ?x = "la_account req"
  let ?look = "\<lambda>l. pl_account l = ?x \<and> pl_code l = la_code req \<and> pl_message_type l = la_type req"
  let ?new = "\<lparr>pl_account = ?x, pl_code = la_code req, pl_message_type = la_type req, pl_required_permission = la_requirement req\<rparr>"
  obtain c1 where c1: "require_authorization ?x ctx = Inr c1" using assms(2) by (auto simp: apply_linkauth_def bind_res_Inr)
  note a = after_authorization [OF c1 assms(1)]
  let ?db = "ctx_auth c1"
  note lok = chain_okD(2) [OF a(1)]
  have "\<exists>t. ctx' = set_auth_db (?db\<lparr>links := t\<rparr>) c1 \<and> tbl_ok t \<and>
      (\<forall>b. b \<noteq> ?x \<longrightarrow> links_of (?db\<lparr>links := t\<rparr>) b = links_of ?db b)"
  proof (cases "find_by ?look (links ?db)")
    case None
    with assms(2) c1 obtain pk t where e: "tbl_emplace ?new (links ?db) = Inr (pk, t)" and c': "ctx' = set_auth_db (?db\<lparr>links := t\<rparr>) c1"
      by (auto simp: apply_linkauth_def bind_res_Inr Let_def)
    have "links_of (?db\<lparr>links := t\<rparr>) b = links_of ?db b" if "b \<noteq> ?x" for b
      using that ct.insert_look [OF lok e] ct.insert_not_found [OF lok e] by (auto simp: links_of_def split: if_splits)
    then show ?thesis using c' ct.insert_ok [OF lok e] by blast
  next
    case (Some p)
    obtain pk l where p: "p = (pk, l)" by force
    let ?f = "\<lambda>l. l\<lparr>pl_required_permission := la_requirement req\<rparr>"
    have c': "ctx' = set_auth_db (?db\<lparr>links := tbl_modify pk ?f (links ?db)\<rparr>) c1"
      using assms(2) c1 Some p by (auto simp: apply_linkauth_def bind_res_Inr Let_def)
    have "tbl_find (links ?db) pk = Some l" "pl_account l = ?x" using find_by_Some [OF lok] Some p by auto
    from links_of_modify [OF this, of ?f] have "links_of (?db\<lparr>links := tbl_modify pk ?f (links ?db)\<rparr>) b = links_of ?db b"
      if "b \<noteq> ?x" for b using that by simp
    then show ?thesis using c' lok by auto
  qed
  then obtain t where c': "ctx' = set_auth_db (?db\<lparr>links := t\<rparr>) c1" and t: "tbl_ok t"
    and l: "\<And>b. b \<noteq> ?x \<Longrightarrow> links_of (?db\<lparr>links := t\<rparr>) b = links_of ?db b" by blast
  have "chain_ok ctx'" unfolding c' by (rule chain_ok_links [OF a(1)]) (use t in simp_all)
  moreover have "frame ?x c1 ctx'" unfolding c' by (rule frame_auth) (simp_all add: l perms_of_def)
  ultimately show ?thesis using a(2,3) by blast
qed

lemma unlinkauth_native:
  assumes "chain_ok ctx" and "apply_unlinkauth unlink ctx = Inr ctx'"
  shows "chain_ok ctx' \<and> frame (ul_account unlink) ctx ctx' \<and> (\<exists>a \<in> set (ctx_authorization ctx). actor a = ul_account unlink)"
proof -
  let ?x = "ul_account unlink"
  obtain c1 pk l where c1: "require_authorization ?x ctx = Inr c1"
    and f: "find_by (\<lambda>l. pl_account l = ?x \<and> pl_code l = ul_code unlink \<and> pl_message_type l = ul_type unlink) (links (ctx_auth c1)) = Some (pk, l)"
    and c': "ctx' = set_auth_db ((ctx_auth c1)\<lparr>links := tbl_erase pk (links (ctx_auth c1))\<rparr>) c1"
    using assms(2) by (auto simp: apply_unlinkauth_def bind_res_Inr Let_def split: option.splits)
  note a = after_authorization [OF c1 assms(1)]
  note lok = chain_okD(2) [OF a(1)]
  have "tbl_find (links (ctx_auth c1)) pk = Some l" "pl_account l = ?x" using find_by_Some [OF lok f] by auto
  then have l: "links_of ((ctx_auth c1)\<lparr>links := tbl_erase pk (links (ctx_auth c1))\<rparr>) b = links_of (ctx_auth c1) b" if "b \<noteq> ?x" for b
    using that tbl_find_erase [OF lok] by (auto simp: links_of_def split: if_splits)
  have "chain_ok ctx'" unfolding c' by (rule chain_ok_links [OF a(1)]) (use lok in simp_all)
  moreover have "frame ?x c1 ctx'" unfolding c' by (rule frame_auth) (simp_all add: l perms_of_def)
  ultimately show ?thesis using a(2,3) by blast
qed

lemma canceldelay_native:
  assumes "chain_ok ctx" and "apply_canceldelay env cancel ctx = Inr ctx'"
  shows "chain_ok ctx' \<and> frame (actor (cd_canceling_auth cancel)) ctx ctx' \<and>
    (\<exists>a \<in> set (ctx_authorization ctx). actor a = actor (cd_canceling_auth cancel))"
proof -
  let ?x = "actor (cd_canceling_auth cancel)"
  obtain c1 where c1: "require_authorization ?x ctx = Inr c1"
    and c': "ctx' = c1 \<or> (\<exists>t. ctx' = set_auth_db ((ctx_auth c1)\<lparr>generated := t\<rparr>) c1)"
    using assms(2) by (auto simp: apply_canceldelay_def cancel_deferred_transaction_def bind_res_Inr Let_def split: option.splits)
  note a = after_authorization [OF c1 assms(1)]
  have "chain_ok ctx'"
    using c' a(1) chain_ok_links [OF a(1), of "(ctx_auth c1)\<lparr>generated := t\<rparr>" for t] chain_okD(2) [OF a(1)] by auto
  moreover have "frame ?x c1 ctx'" using c' by (auto simp: frame_def set_auth_db_def perms_of_def links_of_def)
  ultimately show ?thesis using a(2,3) by blast
qed

lemma modify_permission_find:
  "tbl_find (permissions (modify_permission pk auth db)) k =
     (if k = pk then map_option (\<lambda>po. po\<lparr>po_auth := auth, po_last_updated := pending_block_time db\<rparr>) (tbl_find (permissions db) k)
      else tbl_find (permissions db) k)"
  by (simp add: modify_permission_def tbl_find_modify)

lemma modify_permission_native:
  assumes "chain_ok ctx" and "validate auth" and "tbl_find (permissions (ctx_auth ctx)) pk = Some po" and "pk \<noteq> 0"
  shows "chain_ok (set_auth_db (modify_permission pk auth (ctx_auth ctx)) ctx)"
    and "frame (po_owner po) ctx (set_auth_db (modify_permission pk auth (ctx_auth ctx)) ctx)"
proof -
  let ?db = "modify_permission pk auth (ctx_auth ctx)"
  have ln: "links ?db = links (ctx_auth ctx)" by (simp add: modify_permission_def)
  show "chain_ok (set_auth_db ?db ctx)"
  proof (rule chain_ok_auth [OF assms(1) modify_permission_ok [OF chain_okD(1) [OF assms(1)] assms(2,4)]])
    show "tbl_ok (links ?db)" using chain_okD(2) [OF assms(1)] by (simp add: ln)
    show "keeps_roots (ctx_auth ctx) ?db" by (auto simp: keeps_roots_def modify_permission_find)
    show "tbl_find (ctx_accounts ctx) (po_owner q) \<noteq> None" if k: "k \<noteq> 0" and q: "tbl_find (permissions ?db) k = Some q" for k q
    proof -
      obtain q' where "tbl_find (permissions (ctx_auth ctx)) k = Some q'" "po_owner q' = po_owner q"
        using q by (auto simp: modify_permission_find split: if_splits)
      then show ?thesis using chain_okD(6) [OF assms(1) k] by force
    qed
  qed
  show "frame (po_owner po) ctx (set_auth_db ?db ctx)"
    by (rule frame_auth) (use assms(3) in \<open>auto simp: perms_of_def links_of_def ln modify_permission_find split: if_splits\<close>)
qed

lemma create_permission_native:
  assumes ok: "chain_ok ctx" and "create_permission x n parent auth t0 (ctx_auth ctx) = Inr (pk, db)"
    and "x \<noteq> 0" "n \<noteq> 0" and "validate auth" and "tbl_find (ctx_accounts ctx) x \<noteq> None"
    and "\<And>k po. tbl_find (permissions (ctx_auth ctx)) k = Some po \<Longrightarrow> po_owner po = x \<Longrightarrow> po_name po \<noteq> n"
    and "parent \<noteq> 0 \<Longrightarrow> \<exists>pp. tbl_find (permissions (ctx_auth ctx)) parent = Some pp \<and> po_owner pp = x"
  shows "chain_ok (set_auth_db db ctx)" and "frame x ctx (set_auth_db db ctx)"
proof -
  note cr = create_permission_ok [OF chain_okD(1) [OF ok] assms(2-5)]
  have c1: "auth_db_ok db" by (rule cr(1)) (use assms(7,8) in blast)+
  have c2: "tbl_find (permissions db) k = (if k = pk then tbl_find (permissions db) pk else tbl_find (permissions (ctx_auth ctx)) k)"
    for k by (rule cr(2)) (use assms(7,8) in blast)+
  have c3: "\<exists>po. tbl_find (permissions db) pk = Some po \<and> po_owner po = x \<and> po_name po = n \<and> po_parent po = parent \<and> po_auth po = auth"
    by (rule cr(3)) (use assms(7,8) in blast)+
  obtain ct uid us ps where e: "tbl_emplace \<lparr>po_usage_id = uid, po_parent = parent, po_owner = x, po_name = n,
                  po_last_updated = ct, po_auth = auth\<rparr> (permissions (ctx_auth ctx)) = Inr (pk, ps)"
    and db: "db = (ctx_auth ctx)\<lparr>usages := us, permissions := ps\<rparr>"
    by (rule create_permission_Inr [OF assms(2)])
  have ln: "links db = links (ctx_auth ctx)" by (simp add: db)
  have fresh: "tbl_find (permissions (ctx_auth ctx)) pk = None"
    by (rule ct.insert_not_found [OF db_perm_ok(1) [OF chain_okD(1) [OF ok]] e])
  obtain new where new: "tbl_find (permissions db) pk = Some new" "po_owner new = x" using c3 by blast
  have look: "tbl_find (permissions db) k = (if k = pk then Some new else tbl_find (permissions (ctx_auth ctx)) k)" for k
    using c2 [of k] new(1) by simp
  show "chain_ok (set_auth_db db ctx)"
  proof (rule chain_ok_auth [OF ok c1])
    show "tbl_ok (links db)" using chain_okD(2) [OF ok] by (simp add: ln)
    show "keeps_roots (ctx_auth ctx) db" using fresh by (auto simp: keeps_roots_def look)
    show "tbl_find (ctx_accounts ctx) (po_owner q) \<noteq> None" if "k \<noteq> 0" "tbl_find (permissions db) k = Some q" for k q
      using that chain_okD(6) [OF ok that(1)] assms(6) new(2) by (auto simp: look split: if_splits)
  qed
  show "frame x ctx (set_auth_db db ctx)"
    by (rule frame_auth) (use fresh new(2) in \<open>auto simp: perms_of_def links_of_def ln look split: if_splits\<close>)
qed

lemma perm_row_pk:
  assumes "auth_db_ok db" and "tbl_find (permissions db) pk = Some po" and "po_owner po \<noteq> 0"
  shows "pk \<noteq> 0"
  using db_row_zero(1) [OF assms(1)] assms(2,3) by auto

lemma updateauth_native:
  assumes "chain_ok ctx" and "apply_updateauth update ctx = Inr ctx'"
  shows "chain_ok ctx' \<and> frame (ua_account update) ctx ctx' \<and> (\<exists>a \<in> set (ctx_authorization ctx). actor a = ua_account update)"
proof -
  let ?x = "ua_account update" and ?n = "ua_permission update"
  obtain c1 where c1: "require_authorization ?x ctx = Inr c1" using assms(2) by (auto simp: apply_updateauth_def bind_res_Inr)
  note a = after_authorization [OF c1 assms(1)]
  note ok = chain_okD(1) [OF a(1)] and pok = db_perm_ok(1) [OF chain_okD(1) [OF a(1)]]
  from assms(2) c1 obtain acc found parent_id where acc: "tbl_get (ctx_accounts c1) ?x = Inr acc" and val: "validate (ua_auth update)"
    and n0: "?n \<noteq> 0" and fp: "find_permission (Permission_level ?x ?n) (ctx_auth c1) = Inr found"
    and par: "(if ?n \<noteq> owner_name then bind_res (get_permission (Permission_level ?x (ua_parent update)) (ctx_auth c1)) (\<lambda>(pk, _). Inr pk)
               else Inr 0) = Inr parent_id"
    and fin: "(case found of
         Some (pk, po) \<Rightarrow>
           bind_res (eos_assert (parent_id = po_parent po) Action_validate_exception) (\<lambda>_.
             Inr (set_auth_db (modify_permission pk (ua_auth update) (ctx_auth c1)) c1))
       | None \<Rightarrow>
           bind_res (create_permission ?x ?n parent_id (ua_auth update) 0 (ctx_auth c1))
             (\<lambda>(_, db). Inr (set_auth_db db c1))) = Inr ctx'"
    unfolding apply_updateauth_def by (simp add: bind_res_Inr eos_assert_Inr) blast
  note f = find_permission_Inr [OF fp]
  have x0: "?x \<noteq> 0" using f by simp
  have "chain_ok ctx' \<and> frame ?x c1 ctx'"
  proof (cases found)
    case (Some p)
    obtain pk po where p: "p = (pk, po)" by force
    have fnd: "tbl_find (permissions (ctx_auth c1)) pk = Some po" "po_owner po = ?x"
      using find_by_Some [OF pok, of "\<lambda>po. po_owner po = ?x \<and> po_name po = ?n" pk po] f Some p by simp_all
    have pk: "pk \<noteq> 0" using perm_row_pk [OF ok fnd(1)] fnd(2) x0 by simp
    have c': "ctx' = set_auth_db (modify_permission pk (ua_auth update) (ctx_auth c1)) c1"
      using fin Some p by (simp add: bind_res_Inr)
    show ?thesis unfolding c' using modify_permission_native [OF a(1) val fnd(1) pk] fnd(2) by simp
  next
    case None
    with fin obtain k db where cr: "create_permission ?x ?n parent_id (ua_auth update) 0 (ctx_auth c1) = Inr (k, db)"
      and c': "ctx' = set_auth_db db c1" by (auto simp: bind_res_Inr)
    have acc': "tbl_find (ctx_accounts c1) ?x \<noteq> None" using acc by (auto simp: tbl_get_def split: option.splits)
    have fresh: "po_name po \<noteq> ?n" if "tbl_find (permissions (ctx_auth c1)) j = Some po" "po_owner po = ?x" for j po
      using f None that find_by_None [OF pok, of "\<lambda>po. po_owner po = ?x \<and> po_name po = ?n"] by auto
    have parent: "\<exists>pp. tbl_find (permissions (ctx_auth c1)) parent_id = Some pp \<and> po_owner pp = ?x" if p0: "parent_id \<noteq> 0"
    proof -
      obtain po where "get_permission (Permission_level ?x (ua_parent update)) (ctx_auth c1) = Inr (parent_id, po)"
        using par p0 by (auto simp: bind_res_Inr split: if_splits)
      from get_permission_Inr [OF pok this] show ?thesis by auto
    qed
    have "chain_ok (set_auth_db db c1)" "frame ?x c1 (set_auth_db db c1)"
      by (rule create_permission_native [OF a(1) cr x0 n0 val acc'], use fresh parent in blast, use parent in blast)+
    then show ?thesis unfolding c' by blast
  qed
  then show ?thesis using a(2,3) by blast
qed

lemma deleteauth_native:
  assumes "chain_ok ctx" and "apply_deleteauth remove ctx = Inr ctx'"
  shows "chain_ok ctx' \<and> frame (da_account remove) ctx ctx' \<and> (\<exists>a \<in> set (ctx_authorization ctx). actor a = da_account remove)"
proof -
  let ?x = "da_account remove"
  obtain c1 pk po db where c1: "require_authorization ?x ctx = Inr c1"
    and ne: "da_permission remove \<noteq> active_name" "da_permission remove \<noteq> owner_name"
    and gp: "get_permission (Permission_level ?x (da_permission remove)) (ctx_auth c1) = Inr (pk, po)"
    and rm: "remove_permission (pk, po) (ctx_auth c1) = Inr db" and c': "ctx' = set_auth_db db c1"
    using assms(2) by (auto simp: apply_deleteauth_def bind_res_Inr eos_assert_Inr)
  note a = after_authorization [OF c1 assms(1)]
  note ok = chain_okD(1) [OF a(1)]
  note g = get_permission_Inr [OF db_perm_ok(1) [OF ok] gp]
  have pk: "pk \<noteq> 0" using perm_row_pk [OF ok g(1)] g(2,4) by simp
  note r = remove_permission_ok [OF ok rm g(1) pk]
  have ln: "links db = links (ctx_auth c1)" using rm by (auto simp: remove_permission_def bind_res_Inr)
  have "chain_ok ctx'"
    unfolding c'
  proof (rule chain_ok_auth [OF a(1) r(1)])
    show "tbl_ok (links db)" using chain_okD(2) [OF a(1)] by (simp add: ln)
    show "keeps_roots (ctx_auth c1) db" using g(1,3) ne by (auto simp: keeps_roots_def r(2))
    show "tbl_find (ctx_accounts c1) (po_owner q) \<noteq> None" if "k \<noteq> 0" "tbl_find (permissions db) k = Some q" for k q
      using that chain_okD(6) [OF a(1) that(1)] by (auto simp: r(2) split: if_splits)
  qed
  moreover have "frame ?x c1 ctx'"
    unfolding c' by (rule frame_auth) (use g(1,2) in \<open>auto simp: perms_of_def links_of_def ln r(2) split: if_splits\<close>)
  ultimately show ?thesis using a(2,3) by blast
qed

lemma tbl_emplace_at_find:
  assumes "tbl_emplace_at pk r t = Inr t'"
  shows "tbl_find t' k = (if k = pk then Some r else tbl_find t k)"
  using assms by (auto simp: tbl_emplace_at_def tbl_find_def bind_res_Inr)

text \<open>The two permissions of a new account.\<close>

lemma newaccount_permissions:
  assumes ok: "auth_db_ok db" and x: "x \<noteq> 0"
    and fresh: "\<forall>k po. tbl_find (permissions db) k = Some po \<longrightarrow> po_owner po \<noteq> x"
    and val: "validate own" "validate act"
    and c1: "create_permission x owner_name 0 own 0 db = Inr (oid, db1)"
    and c2: "create_permission x active_name oid act 0 db1 = Inr (aid, db2)"
  shows "auth_db_ok db2" and "account_perms db2 x" and "links db2 = links db"
    and "tbl_find (permissions db2) k = Some po \<Longrightarrow> po_owner po \<noteq> x \<Longrightarrow> tbl_find (permissions db) k = Some po"
    and "tbl_find (permissions db) k = Some po \<Longrightarrow> tbl_find (permissions db2) k = Some po"
proof -
  note cr = create_permission_ok [OF ok c1 x name_values_ne(1) val(1)]
  have ok1: "auth_db_ok db1" by (rule cr(1)) (use fresh in auto)
  have look1: "tbl_find (permissions db1) k = (if k = oid then tbl_find (permissions db1) oid else tbl_find (permissions db) k)" for k
    by (rule cr(2)) (use fresh in auto)
  have "\<exists>po. tbl_find (permissions db1) oid = Some po \<and> po_owner po = x \<and> po_name po = owner_name \<and> po_parent po = 0 \<and> po_auth po = own"
    by (rule cr(3)) (use fresh in auto)
  then obtain oo where oo: "tbl_find (permissions db1) oid = Some oo" "po_owner oo = x" "po_name oo = owner_name" "po_parent oo = 0" by blast
  have fresh1: "po_name po \<noteq> active_name" if "tbl_find (permissions db1) k = Some po" "po_owner po = x" for k po
    using that look1 [of k] oo fresh by (auto split: if_splits)
  note cs = create_permission_ok [OF ok1 c2 x name_values_ne(2) val(2)]
  show "auth_db_ok db2" by (rule cs(1)) (use fresh1 oo in auto)
  have look2: "tbl_find (permissions db2) k = (if k = aid then tbl_find (permissions db2) aid else tbl_find (permissions db1) k)" for k
    by (rule cs(2)) (use fresh1 oo in auto)
  have "\<exists>po. tbl_find (permissions db2) aid = Some po \<and> po_owner po = x \<and> po_name po = active_name \<and> po_parent po = oid \<and> po_auth po = act"
    by (rule cs(3)) (use fresh1 oo in auto)
  then obtain ao where ao: "tbl_find (permissions db2) aid = Some ao" "po_owner ao = x" "po_name ao = active_name" "po_parent ao = oid" by blast
  obtain r1 p1 where e1: "tbl_emplace r1 (permissions db) = Inr (oid, p1)" and d1: "links db1 = links db"
    by (rule create_permission_Inr [OF c1]) auto
  obtain r2 p2 where e2: "tbl_emplace r2 (permissions db1) = Inr (aid, p2)" and d2: "links db2 = links db1"
    by (rule create_permission_Inr [OF c2]) auto
  note n1 = ct.insert_not_found [OF db_perm_ok(1) [OF ok] e1] and n2 = ct.insert_not_found [OF db_perm_ok(1) [OF ok1] e2]
  have "oid \<noteq> aid" using n2 oo(1) by auto
  then have "tbl_find (permissions db2) oid = Some oo" using look2 [of oid] oo(1) by simp
  then show "account_perms db2 x" using oo ao unfolding account_perms_def by blast
  show "links db2 = links db" using d1 d2 by simp
  show "tbl_find (permissions db) k = Some po" if "tbl_find (permissions db2) k = Some po" "po_owner po \<noteq> x"
    using that look2 [of k] look1 [of k] oo ao by (auto split: if_splits)
  show "tbl_find (permissions db2) k = Some po" if k: "tbl_find (permissions db) k = Some po"
  proof -
    have "k \<noteq> oid" using k n1 by auto
    then have k1: "tbl_find (permissions db1) k = Some po" using look1 [of k] k by simp
    then have "k \<noteq> aid" using n2 by auto
    then show ?thesis using look2 [of k] k1 by simp
  qed
qed

lemma newaccount_native:
  assumes "chain_ok ctx" and "apply_newaccount d0 create ctx = Inr ctx'"
  shows "chain_ok ctx' \<and> frame (na_creator create) ctx ctx' \<and> (\<exists>a \<in> set (ctx_authorization ctx). actor a = na_creator create)"
proof -
  let ?x = "na_name create"
  obtain c1 where c1: "require_authorization (na_creator create) ctx = Inr c1"
    using assms(2) by (auto simp: apply_newaccount_def bind_res_Inr)
  note a = after_authorization [OF c1 assms(1)]
  note ok = chain_okD(1) [OF a(1)]
  from assms(2) c1 obtain res1 accs row seqs oid db1 aid db2 where
    val: "validate (na_owner create)" "validate (na_active create)" and x: "?x \<noteq> 0"
    and new: "tbl_find (ctx_accounts c1) ?x = None"
    and ia: "initialize_account ?x (ctx_res c1) = Inr res1" and ea: "tbl_emplace_at ?x row (accounts res1) = Inr accs"
    and es: "tbl_emplace_at ?x new_account_sequence (ctx_seqs c1) = Inr seqs"
    and p1: "create_permission ?x owner_name 0 (na_owner create) 0 (ctx_auth c1) = Inr (oid, db1)"
    and p2: "create_permission ?x active_name oid (na_active create) 0 db1 = Inr (aid, db2)"
    and c': "ctx' = c1\<lparr>ctx_res := res1\<lparr>accounts := accs\<rparr>, ctx_seqs := seqs, ctx_auth := db2\<rparr>"
    by (auto simp: apply_newaccount_def bind_res_Inr eos_assert_Inr Let_def split: prod.splits)
  have fresh: "po_owner po \<noteq> ?x" if "tbl_find (permissions (ctx_auth c1)) k = Some po" for k po
    using that new chain_okD(6) [OF a(1) _ that] db_row_zero(1) [OF ok] x by (cases "k = 0") auto
  then have "\<forall>k po. tbl_find (permissions (ctx_auth c1)) k = Some po \<longrightarrow> po_owner po \<noteq> ?x" by blast
  note p = newaccount_permissions [OF ok x this val p1 p2]
  obtain us where ut: "tbl_emplace_at ?x (replicate resources_num new_ema) (resource_usage (ctx_res c1)) = Inr us"
    and res1: "res1 = (ctx_res c1)\<lparr>resource_usage := us\<rparr>"
    using ia by (auto simp: initialize_account_def bind_res_Inr)
  note look = tbl_emplace_at_find [OF ut] tbl_emplace_at_find [OF ea] tbl_emplace_at_find [OF es]
  have roots: "keeps_roots (ctx_auth c1) db2" using p(5) unfolding keeps_roots_def by blast
  have "chain_ok ctx'"
    unfolding chain_ok_def
  proof (intro conjI allI impI)
    show "auth_db_ok (ctx_auth ctx')" using p(1) by (simp add: c')
    show "tbl_ok (links (ctx_auth ctx'))" using chain_okD(2) [OF a(1)] p(3) by (simp add: c')
  next
    fix b assume b: "tbl_find (ctx_accounts ctx') b \<noteq> None"
    show "account_perms (ctx_auth ctx') b"
      using b p(2) account_perms_keeps [OF roots chain_okD(3) [OF a(1), of b]] by (cases "b = ?x") (simp_all add: c' look res1)
    show "tbl_find (resource_usage (ctx_res ctx')) b \<noteq> None"
      using b chain_okD(4) [OF a(1), of b] by (cases "b = ?x") (simp_all add: c' look res1)
    show "tbl_find (ctx_seqs ctx') b \<noteq> None"
      using b chain_okD(5) [OF a(1), of b] by (cases "b = ?x") (simp_all add: c' look res1)
  next
    fix k po assume "k \<noteq> 0" "tbl_find (permissions (ctx_auth ctx')) k = Some po"
    then show "tbl_find (ctx_accounts ctx') (po_owner po) \<noteq> None"
      using p(4) [of k po] chain_okD(6) [OF a(1), of k po] by (cases "po_owner po = ?x") (simp_all add: c' look res1)
  qed
  moreover have "frame (na_creator create) c1 ctx'"
    unfolding frame_def
  proof (intro allI impI conjI)
    fix b assume b: "tbl_find (ctx_accounts c1) b \<noteq> None"
    then have bx: "b \<noteq> ?x" using new by auto
    have "tbl_find (permissions db2) k = Some po \<and> po_owner po = b \<longleftrightarrow>
        tbl_find (permissions (ctx_auth c1)) k = Some po \<and> po_owner po = b" for k po
      using p(4,5) [of k po] bx by metis
    then show "perms_of (ctx_auth ctx') b = perms_of (ctx_auth c1) b" by (simp add: perms_of_def c')
    show "links_of (ctx_auth ctx') b = links_of (ctx_auth c1) b" by (simp add: links_of_def c' p(3))
    show "tbl_find (ctx_accounts ctx') b = tbl_find (ctx_accounts c1) b" using bx by (simp add: c' look res1)
  qed
  ultimately show ?thesis using a(2,3) by blast
qed

text \<open>The account whose authorization an action needs; \<^verbatim>\<open>checkversion\<close> needs none and changes nothing.\<close>

fun acting_account :: "('k, 'h, 'g) native_action \<Rightarrow> (64 word) option" where
  "acting_account (Newaccount a) = Some (na_creator a)"
| "acting_account (Setcode a) = Some (sc_account a)"
| "acting_account (Setabi a) = Some (sa_account a)"
| "acting_account (Checkversion a) = None"
| "acting_account (Updateauth a) = Some (ua_account a)"
| "acting_account (Deleteauth a) = Some (da_account a)"
| "acting_account (Linkauth a) = Some (la_account a)"
| "acting_account (Unlinkauth a) = Some (ul_account a)"
| "acting_account (Canceldelay a) = Some (actor (cd_canceling_auth a))"

lemma native_step:
  assumes "chain_ok ctx" and "apply_native env act ctx = Inr ctx'"
  shows "chain_ok ctx' \<and> (acting_account act = None \<longrightarrow> ctx' = ctx) \<and>
    (\<forall>x. acting_account act = Some x \<longrightarrow> frame x ctx ctx' \<and> (\<exists>a \<in> set (ctx_authorization ctx). actor a = x))"
proof (cases act)
  case (Checkversion a)
  with assms show ?thesis by (auto simp: apply_native_def apply_checkversion_def bind_res_Inr)
next
  case (Newaccount a)
  then show ?thesis using newaccount_native [OF assms(1)] assms(2) by (simp add: apply_native_def)
next
  case (Setcode a)
  then show ?thesis using setcode_native [OF assms(1)] assms(2) by (simp add: apply_native_def)
next
  case (Setabi a)
  then show ?thesis using setabi_native [OF assms(1)] assms(2) by (simp add: apply_native_def)
next
  case (Updateauth a)
  then show ?thesis using updateauth_native [OF assms(1)] assms(2) by (simp add: apply_native_def)
next
  case (Deleteauth a)
  then show ?thesis using deleteauth_native [OF assms(1)] assms(2) by (simp add: apply_native_def)
next
  case (Linkauth a)
  then show ?thesis using linkauth_native [OF assms(1)] assms(2) by (simp add: apply_native_def)
next
  case (Unlinkauth a)
  then show ?thesis using unlinkauth_native [OF assms(1)] assms(2) by (simp add: apply_native_def)
next
  case (Canceldelay a)
  then show ?thesis using canceldelay_native [OF assms(1)] assms(2) by (simp add: apply_native_def)
qed

lemma chain_ok_start [simp]: "chain_ok (ctx\<lparr>ctx_authorization := a\<rparr>) \<longleftrightarrow> chain_ok ctx"
  by (simp add: chain_ok_def)



section \<open>Example\<close>

text \<open>For evaluation: the number of factors is compared as an integer.\<close>

lemma validate_code [code]:
  "validate auth =
     (if int (length (auth_keys auth) + length (auth_accounts auth) + length (auth_waits auth)) > 65536
      then False
      else if threshold auth = 0 then False
      else case validate_keys None (auth_keys auth) 0 of None \<Rightarrow> False | Some t1 \<Rightarrow>
        (case validate_accounts None (auth_accounts auth) t1 of None \<Rightarrow> False | Some t2 \<Rightarrow>
          if auth_waits auth \<noteq> [] \<and> ww_wait_sec (hd (auth_waits auth)) = 0 then False
          else case validate_waits None (auth_waits auth) t2 of None \<Rightarrow> False | Some t3 \<Rightarrow>
            t3 \<ge> threshold auth))"
  by (simp add: validate_def)

definition ex_context :: "(nat, nat, unit, unit) apply_context" where
  "ex_context =
     \<lparr>ctx_authorization = [], used_authorizations = [], ctx_auth = ex_auth_db,
      ctx_res = (ex_resource_db (ex_stake_db 0) 0)
        \<lparr>accounts := \<lparr>rows = [(1, new_account ())], next_pk = pk_Unset\<rparr>,
         resource_usage := \<lparr>rows = [(1, replicate 4 new_ema)], next_pk = pk_Unset\<rparr>\<rparr>,
      ctx_seqs = \<lparr>rows = [(1, new_account_sequence)], next_pk = pk_Unset\<rparr>\<rparr>"

definition ex_env :: "(nat, unit) native_env" where
  "ex_env = \<lparr>digest_of = (\<lambda>_. ()), digest_default = (), wasm_validate = (\<lambda>_. Inr ()), merge_system_abi = Inr,
             merge_domain_abi = Inr, hash_words = (\<lambda>_. [0, 0, 0, 0])\<rparr>"

definition ex_new :: "permission_level list \<times> (nat, nat, unit) native_action" where
  "ex_new = ([Permission_level 1 active_name],
     Newaccount \<lparr>na_creator = 1, na_name = 18437736874454810624, na_owner = authority_of_key 30 0, na_active = authority_of_key 40 0\<rparr>)"

definition ex_update :: "permission_level list \<times> (nat, nat, unit) native_action" where
  "ex_update = ([Permission_level 1 active_name],
     Updateauth \<lparr>ua_account = 1, ua_permission = active_name, ua_parent = owner_name, ua_auth = authority_of_key 50 0\<rparr>)"

lemma ex_context_ok: "chain_ok ex_context"
proof -
  have "account_perms ex_auth_db 1"
    unfolding account_perms_def
    by (rule exI [of _ 1], rule exI, rule exI [of _ 2], rule exI) (auto simp: ex_auth_db_def tbl_find_def)
  then show ?thesis
    unfolding chain_ok_def
    using ex_auth_db_ok
    by (auto simp: ex_context_def tbl_find_def ex_auth_db_def split: if_splits)
qed

lemma ex_native:
  "case run_native ex_env ex_new ex_context of
     Inl _ \<Rightarrow> False
   | Inr c \<Rightarrow> tbl_find (ctx_accounts c) 18437736874454810624 \<noteq> None \<and> \<not> isl (run_native ex_env ex_update c)"
  by code_simp

lemma ex_native_runs:
  obtains c c' where "run_native ex_env ex_new ex_context = Inr c" and "run_native ex_env ex_update c = Inr c'"
    and "tbl_find (ctx_accounts c) 18437736874454810624 \<noteq> None"
  using ex_native that by (auto simp: isl_def split: sum.splits) (metis sum.exhaust)



end
