(* ===== verification/DomainContract.thy ===== *)
theory DomainContract
  imports EosioContract DomainNames
begin

text \<open>
  The native actions of the domain account: \<^verbatim>\<open>libraries/chain/cyberway/cyberway_contract.cpp\<close>,
  the rows of \<^verbatim>\<open>domain_object.hpp\<close>, the queries \<^verbatim>\<open>get_domain\<close> and
  \<^verbatim>\<open>get_username\<close> of \<^verbatim>\<open>controller.cpp\<close> and the resolution of names in
  \<^verbatim>\<open>apply_context.cpp\<close>.

  The context of an action (theory \<open>EosioContract\<close>) is joined by the two tables.  The registry
  invariant says that names are valid and registered once, that user names are unique within their
  scope and that their owners exist; every action keeps it, and a registered domain changes hands or
  its link only with the authorization of its owner.
\<close>

section \<open>State\<close>

record domain_object =
  dom_owner :: "64 word"
  dom_linked_to :: "64 word"
  dom_creation_date :: slot
  dom_name :: string

record username_object =
  un_owner :: "64 word"
  un_scope :: "64 word"
  un_name :: string

record ('k, 'h, 'd, 'g) domain_context =
  dc_context :: "('k, 'h, 'd, 'g) apply_context"
  domains :: "domain_object chain_table"
  usernames :: "username_object chain_table"

section \<open>Queries\<close>

definition find_domain :: "string \<Rightarrow> ('k, 'h, 'd, 'g) domain_context \<Rightarrow> (64 word \<times> domain_object) option" where
  "find_domain n dc = find_by (\<lambda>d. dom_name d = n) (domains dc)"

definition find_username ::
  "64 word \<Rightarrow> string \<Rightarrow> ('k, 'h, 'd, 'g) domain_context \<Rightarrow> (64 word \<times> username_object) option" where
  "find_username scope n dc = find_by (\<lambda>u. un_scope u = scope \<and> un_name u = n) (usernames dc)"

definition get_domain :: "string \<Rightarrow> ('k, 'h, 'd, 'g) domain_context \<Rightarrow> (64 word \<times> domain_object) res" where
  "get_domain n dc = (case find_domain n dc of Some d \<Rightarrow> Inr d | None \<Rightarrow> Inl Domain_query_exception)"

definition get_username ::
  "64 word \<Rightarrow> string \<Rightarrow> ('k, 'h, 'd, 'g) domain_context \<Rightarrow> (64 word \<times> username_object) res" where
  "get_username scope n dc =
     (case find_username scope n dc of Some u \<Rightarrow> Inr u | None \<Rightarrow> Inl Username_query_exception)"

definition is_domain :: "string \<Rightarrow> ('k, 'h, 'd, 'g) domain_context \<Rightarrow> bool" where
  "is_domain n dc \<longleftrightarrow> find_domain n dc \<noteq> None"

definition is_username :: "64 word \<Rightarrow> string \<Rightarrow> ('k, 'h, 'd, 'g) domain_context \<Rightarrow> bool" where
  "is_username scope n dc \<longleftrightarrow> find_username scope n dc \<noteq> None"

definition get_domain_owner :: "string \<Rightarrow> ('k, 'h, 'd, 'g) domain_context \<Rightarrow> (64 word) res" where
  "get_domain_owner n dc = bind_res (get_domain n dc) (\<lambda>(_, d). Inr (dom_owner d))"

definition resolve_domain :: "string \<Rightarrow> ('k, 'h, 'd, 'g) domain_context \<Rightarrow> (64 word) res" where
  "resolve_domain n dc = bind_res (get_domain n dc) (\<lambda>(_, d). Inr (dom_linked_to d))"

definition resolve_username :: "64 word \<Rightarrow> string \<Rightarrow> ('k, 'h, 'd, 'g) domain_context \<Rightarrow> (64 word) res" where
  "resolve_username scope n dc = bind_res (get_username scope n dc) (\<lambda>(_, u). Inr (un_owner u))"

section \<open>The actions\<close>

record providebw =
  bw_provider :: "64 word"
  bw_account :: "64 word"

record newdomain =
  nd_creator :: "64 word"
  nd_name :: string

record passdomain =
  pd_from :: "64 word"
  pd_to :: "64 word"
  pd_name :: string

record linkdomain =
  ld_owner :: "64 word"
  ld_to :: "64 word"
  ld_name :: string

record unlinkdomain =
  ud_owner :: "64 word"
  ud_name :: string

record newusername =
  nu_creator :: "64 word"
  nu_owner :: "64 word"
  nu_name :: string

definition require_auth_dc ::
  "64 word \<Rightarrow> ('k, 'h, 'd, 'g) domain_context \<Rightarrow> ('k, 'h, 'd, 'g) domain_context res" where
  "require_auth_dc account dc =
     bind_res (require_authorization account (dc_context dc)) (\<lambda>ctx. Inr (dc\<lparr>dc_context := ctx\<rparr>))"

definition apply_cyber_providebw ::
  "providebw \<Rightarrow> ('k, 'h, 'd, 'g) domain_context \<Rightarrow> ('k, 'h, 'd, 'g) domain_context res" where
  "apply_cyber_providebw args dc = require_auth_dc (bw_provider args) dc"

definition apply_cyber_domain_newdomain ::
  "newdomain \<Rightarrow> ('k, 'h, 'd, 'g) domain_context \<Rightarrow> ('k, 'h, 'd, 'g) domain_context res" where
  "apply_cyber_domain_newdomain args dc0 =
     bind_res (require_auth_dc (nd_creator args) dc0) (\<lambda>dc.
     bind_res (validate_domain_name (nd_name args)) (\<lambda>_.
     bind_res (eos_assert (find_domain (nd_name args) dc = None) Domain_exists_exception) (\<lambda>_.
     bind_res (tbl_emplace
                 \<lparr>dom_owner = nd_creator args, dom_linked_to = 0,
                  dom_creation_date = set_time_point (pending_block_time (ctx_auth (dc_context dc))),
                  dom_name = nd_name args\<rparr> (domains dc)) (\<lambda>(_, t).
       Inr (dc\<lparr>domains := t\<rparr>)))))"

definition apply_cyber_domain_passdomain ::
  "passdomain \<Rightarrow> ('k, 'h, 'd, 'g) domain_context \<Rightarrow> ('k, 'h, 'd, 'g) domain_context res" where
  "apply_cyber_domain_passdomain args dc0 =
     bind_res (require_auth_dc (pd_from args) dc0) (\<lambda>dc.
     bind_res (validate_domain_name (pd_name args)) (\<lambda>_.
     bind_res (get_domain (pd_name args) dc) (\<lambda>(pk, domain).
     bind_res (eos_assert (pd_from args = dom_owner domain) Action_validate_exception) (\<lambda>_.
       Inr (dc\<lparr>domains := tbl_modify pk (\<lambda>d. d\<lparr>dom_owner := pd_to args\<rparr>) (domains dc)\<rparr>)))))"

definition apply_cyber_domain_linkdomain ::
  "linkdomain \<Rightarrow> ('k, 'h, 'd, 'g) domain_context \<Rightarrow> ('k, 'h, 'd, 'g) domain_context res" where
  "apply_cyber_domain_linkdomain args dc0 =
     bind_res (require_auth_dc (ld_owner args) dc0) (\<lambda>dc.
     bind_res (validate_domain_name (ld_name args)) (\<lambda>_.
     bind_res (get_domain (ld_name args) dc) (\<lambda>(pk, domain).
     bind_res (eos_assert (ld_owner args = dom_owner domain) Action_validate_exception) (\<lambda>_.
     bind_res (eos_assert (ld_to args \<noteq> dom_linked_to domain) Action_validate_exception) (\<lambda>_.
       Inr (dc\<lparr>domains := tbl_modify pk (\<lambda>d. d\<lparr>dom_linked_to := ld_to args\<rparr>) (domains dc)\<rparr>))))))"

definition apply_cyber_domain_unlinkdomain ::
  "unlinkdomain \<Rightarrow> ('k, 'h, 'd, 'g) domain_context \<Rightarrow> ('k, 'h, 'd, 'g) domain_context res" where
  "apply_cyber_domain_unlinkdomain args dc0 =
     bind_res (require_auth_dc (ud_owner args) dc0) (\<lambda>dc.
     bind_res (validate_domain_name (ud_name args)) (\<lambda>_.
     bind_res (get_domain (ud_name args) dc) (\<lambda>(pk, domain).
     bind_res (eos_assert (ud_owner args = dom_owner domain) Action_validate_exception) (\<lambda>_.
     bind_res (eos_assert (dom_linked_to domain \<noteq> 0) Action_validate_exception) (\<lambda>_.
       Inr (dc\<lparr>domains := tbl_modify pk (\<lambda>d. d\<lparr>dom_linked_to := 0\<rparr>) (domains dc)\<rparr>))))))"

definition apply_cyber_domain_newusername ::
  "newusername \<Rightarrow> ('k, 'h, 'd, 'g) domain_context \<Rightarrow> ('k, 'h, 'd, 'g) domain_context res" where
  "apply_cyber_domain_newusername args dc0 =
     bind_res (require_auth_dc (nu_creator args) dc0) (\<lambda>dc.
     bind_res (validate_username (nu_name args)) (\<lambda>_.
     bind_res (eos_assert (find_username (nu_creator args) (nu_name args) dc = None) Username_exists_exception) (\<lambda>_.
     bind_res (eos_assert (is_account (nu_owner args) (dc_context dc)) Account_name_exists_exception) (\<lambda>_.
     bind_res (tbl_emplace \<lparr>un_owner = nu_owner args, un_scope = nu_creator args, un_name = nu_name args\<rparr>
                 (usernames dc)) (\<lambda>(_, t).
       Inr (dc\<lparr>usernames := t\<rparr>))))))"

text \<open>\<^verbatim>\<open>SET_CYBER_HANDLER\<close> and \<^verbatim>\<open>SET_CYBER_DOMAIN_HANDLER\<close> of the controller.\<close>

datatype domain_action =
    Providebw providebw
  | Newdomain newdomain
  | Passdomain passdomain
  | Linkdomain linkdomain
  | Unlinkdomain unlinkdomain
  | Newusername newusername

definition apply_domain ::
  "domain_action \<Rightarrow> ('k, 'h, 'd, 'g) domain_context \<Rightarrow> ('k, 'h, 'd, 'g) domain_context res" where
  "apply_domain act dc =
     (case act of
        Providebw a \<Rightarrow> apply_cyber_providebw a dc
      | Newdomain a \<Rightarrow> apply_cyber_domain_newdomain a dc
      | Passdomain a \<Rightarrow> apply_cyber_domain_passdomain a dc
      | Linkdomain a \<Rightarrow> apply_cyber_domain_linkdomain a dc
      | Unlinkdomain a \<Rightarrow> apply_cyber_domain_unlinkdomain a dc
      | Newusername a \<Rightarrow> apply_cyber_domain_newusername a dc)"

text \<open>One action with its own authorizations, none of them used yet.\<close>

definition run_domain ::
  "permission_level list \<times> domain_action \<Rightarrow> ('k, 'h, 'd, 'g) domain_context
     \<Rightarrow> ('k, 'h, 'd, 'g) domain_context res" where
  "run_domain = (\<lambda>(auths, act) dc.
     apply_domain act (dc\<lparr>dc_context := (dc_context dc)
       \<lparr>ctx_authorization := auths, used_authorizations := replicate (length auths) False\<rparr>\<rparr>))"

section \<open>Tables with a unique index\<close>

definition all_rows :: "('r \<Rightarrow> bool) \<Rightarrow> 'r chain_table \<Rightarrow> bool" where
  "all_rows P t \<longleftrightarrow> (\<forall>pk r. tbl_find t pk = Some r \<longrightarrow> P r)"

definition unique_by :: "('r \<Rightarrow> 'i) \<Rightarrow> 'r chain_table \<Rightarrow> bool" where
  "unique_by k t \<longleftrightarrow>
     (\<forall>pk pk' r r'. tbl_find t pk = Some r \<longrightarrow> tbl_find t pk' = Some r' \<longrightarrow> k r = k r' \<longrightarrow> pk = pk')"

lemma all_rows_emplace: "tbl_ok t \<Longrightarrow> tbl_emplace row t = Inr (pk, t') \<Longrightarrow> all_rows P t \<Longrightarrow> P row \<Longrightarrow> all_rows P t'"
  unfolding all_rows_def using ct.insert_all [of t row pk t' "\<lambda>_. P"] by blast

lemma all_rows_modify: "all_rows P t \<Longrightarrow> (\<And>r. P r \<Longrightarrow> P (f r)) \<Longrightarrow> all_rows P (tbl_modify pk f t)"
  unfolding all_rows_def using ct.change_all [of t "\<lambda>_. P" pk f] by blast

lemma unique_by_emplace:
  assumes "tbl_ok t" and "tbl_emplace row t = Inr (pk, t')" and "unique_by k t"
    and new: "find_by (\<lambda>r. k r = k row) t = None"
  shows "unique_by k t'"
proof -
  have "k r \<noteq> k row" if "tbl_find t j = Some r" for j r using new that assms(1) by (simp add: find_by_None)
  then show ?thesis
    using assms(3) unfolding unique_by_def ct.insert_look [OF assms(1,2)] by (auto split: if_splits) metis+
qed

lemma unique_by_modify: "unique_by k t \<Longrightarrow> (\<And>r. k (f r) = k r) \<Longrightarrow> unique_by k (tbl_modify pk f t)"
  unfolding unique_by_def ct.change_look by (auto split: if_splits)

lemma find_by_unique:
  assumes "tbl_ok t" and "unique_by k t"
  shows "find_by (\<lambda>r. k r = x) t = Some (pk, r) \<longleftrightarrow> tbl_find t pk = Some r \<and> k r = x"
proof
  assume r: "tbl_find t pk = Some r \<and> k r = x"
  then obtain pk' r' where *: "find_by (\<lambda>r. k r = x) t = Some (pk', r')"
    using find_by_None [OF assms(1), of "\<lambda>r. k r = x"] by (cases "find_by (\<lambda>r. k r = x) t") auto
  from find_by_Some [OF assms(1) this] have "tbl_find t pk' = Some r' \<and> k r' = x" .
  with r assms(2) have "pk' = pk" unfolding unique_by_def by blast
  with * r find_by_Some [OF assms(1) *] show "find_by (\<lambda>r. k r = x) t = Some (pk, r)" by simp
qed (rule find_by_Some [OF assms(1)])

section \<open>The registry\<close>

definition registry_ok :: "('k, 'h, 'd, 'g) domain_context \<Rightarrow> bool" where
  "registry_ok dc \<longleftrightarrow>
     tbl_ok (domains dc) \<and> tbl_ok (usernames dc) \<and>
     all_rows (\<lambda>d. validate_domain_name (dom_name d) = Inr ()) (domains dc) \<and> unique_by dom_name (domains dc) \<and>
     all_rows (\<lambda>u. validate_username (un_name u) = Inr () \<and> is_account (un_owner u) (dc_context dc)) (usernames dc) \<and>
     unique_by (\<lambda>u. (un_scope u, un_name u)) (usernames dc)"

text \<open>
  What an action with the authorizations \<open>auths\<close> does to the registered domains: each keeps its name
  and its date, and is changed only when its owner is among the authorizations.
\<close>

definition domains_kept :: "permission_level list \<Rightarrow> domain_object chain_table \<Rightarrow> domain_object chain_table \<Rightarrow> bool" where
  "domains_kept auths t t' \<longleftrightarrow>
     (\<forall>pk d. tbl_find t pk = Some d \<longrightarrow>
        (\<exists>d'. tbl_find t' pk = Some d' \<and> dom_name d' = dom_name d \<and> dom_creation_date d' = dom_creation_date d \<and>
              (d' = d \<or> (\<exists>a \<in> set auths. actor a = dom_owner d))))"

definition registry_step :: "('k, 'h, 'd, 'g) domain_context \<Rightarrow> ('k, 'h, 'd, 'g) domain_context \<Rightarrow> bool" where
  "registry_step dc dc' \<longleftrightarrow>
     registry_ok dc' \<and> ctx_res (dc_context dc') = ctx_res (dc_context dc) \<and>
     domains_kept (ctx_authorization (dc_context dc)) (domains dc) (domains dc')"

lemma domains_kept_refl [simp]: "domains_kept auths t t"
  by (simp add: domains_kept_def)

lemma registry_ok_context:
  "ctx_res ctx = ctx_res (dc_context dc) \<Longrightarrow> registry_ok (dc\<lparr>dc_context := ctx\<rparr>) \<longleftrightarrow> registry_ok dc"
  by (simp add: registry_ok_def is_account_def)

lemma require_auth_dc_Inr:
  assumes "require_auth_dc account dc0 = Inr dc" and "registry_ok dc0"
  obtains u where "dc = dc0\<lparr>dc_context := (dc_context dc0)\<lparr>used_authorizations := u\<rparr>\<rparr>" and "registry_ok dc"
    and "\<exists>a \<in> set (ctx_authorization (dc_context dc0)). actor a = account"
proof -
  obtain ctx where c: "require_authorization account (dc_context dc0) = Inr ctx" and d: "dc = dc0\<lparr>dc_context := ctx\<rparr>"
    using assms(1) by (auto simp: require_auth_dc_def bind_res_Inr)
  from c obtain u where "ctx = (dc_context dc0)\<lparr>used_authorizations := u\<rparr>"
    and "\<exists>a \<in> set (ctx_authorization (dc_context dc0)). actor a = account" by (rule require_authorization_Inr)
  then show ?thesis using that d assms(2) by (simp add: registry_ok_context)
qed

lemma find_domain_iff:
  "registry_ok dc \<Longrightarrow> find_domain n dc = Some (pk, d) \<longleftrightarrow> tbl_find (domains dc) pk = Some d \<and> dom_name d = n"
  unfolding find_domain_def registry_ok_def by (intro find_by_unique) simp_all

lemma get_domain_Inr: "registry_ok dc \<Longrightarrow> get_domain n dc = Inr (pk, d) \<Longrightarrow> tbl_find (domains dc) pk = Some d \<and> dom_name d = n"
  by (auto simp: get_domain_def find_domain_iff split: option.splits)


lemma newdomain_step:
  assumes ok: "registry_ok dc0" and run: "apply_cyber_domain_newdomain args dc0 = Inr dc'"
  shows "registry_step dc0 dc'"
proof -
  obtain dc where r: "require_auth_dc (nd_creator args) dc0 = Inr dc"
    using run by (auto simp: apply_cyber_domain_newdomain_def bind_res_Inr)
  from r ok obtain u where dc: "dc = dc0\<lparr>dc_context := (dc_context dc0)\<lparr>used_authorizations := u\<rparr>\<rparr>" and ok': "registry_ok dc"
    by (rule require_auth_dc_Inr)
  obtain row pk t where e: "tbl_emplace row (domains dc) = Inr (pk, t)" and row: "dom_name row = nd_name args"
    and v: "validate_domain_name (nd_name args) = Inr ()" and n: "find_domain (nd_name args) dc = None"
    and dc': "dc' = dc\<lparr>domains := t\<rparr>"
    using run r by (auto simp: apply_cyber_domain_newdomain_def res_simps)
  have t: "tbl_ok (domains dc)" using ok' by (simp add: registry_ok_def)
  have "registry_ok dc'"
    using ok' ct.insert_ok [OF t e] all_rows_emplace [OF t e] unique_by_emplace [OF t e, of dom_name] v n
    by (simp add: registry_ok_def dc' row find_domain_def)
  moreover have "domains_kept auths (domains dc) t" for auths
    using ct.insert_look [OF t e] ct.insert_not_found [OF t e] by (auto simp: domains_kept_def)
  ultimately show ?thesis by (simp add: registry_step_def dc' dc)
qed

lemma newusername_step:
  assumes ok: "registry_ok dc0" and run: "apply_cyber_domain_newusername args dc0 = Inr dc'"
  shows "registry_step dc0 dc'"
proof -
  obtain dc where r: "require_auth_dc (nu_creator args) dc0 = Inr dc"
    using run by (auto simp: apply_cyber_domain_newusername_def bind_res_Inr)
  from r ok obtain u where dc: "dc = dc0\<lparr>dc_context := (dc_context dc0)\<lparr>used_authorizations := u\<rparr>\<rparr>" and ok': "registry_ok dc"
    by (rule require_auth_dc_Inr)
  obtain row pk t where e: "tbl_emplace row (usernames dc) = Inr (pk, t)"
    and row: "un_name row = nu_name args" "un_scope row = nu_creator args" "un_owner row = nu_owner args"
    and v: "validate_username (nu_name args) = Inr ()" "is_account (nu_owner args) (dc_context dc)"
    and n: "find_username (nu_creator args) (nu_name args) dc = None"
    and dc': "dc' = dc\<lparr>usernames := t\<rparr>"
    using run r by (auto simp: apply_cyber_domain_newusername_def res_simps)
  have t: "tbl_ok (usernames dc)" using ok' by (simp add: registry_ok_def)
  have "registry_ok dc'"
    using ok' ct.insert_ok [OF t e] all_rows_emplace [OF t e]
      unique_by_emplace [OF t e, of "\<lambda>u. (un_scope u, un_name u)"] v n
    by (simp add: registry_ok_def dc' row find_username_def)
  then show ?thesis by (simp add: registry_step_def dc' dc)
qed

text \<open>The three actions of an owner change fields of one row and not its name.\<close>

lemma owner_change_step:
  assumes ok: "registry_ok dc0" and r: "require_auth_dc account dc0 = Inr dc" and g: "get_domain n dc = Inr (pk, d)"
    and "account = dom_owner d" and f: "\<And>d. dom_name (f d) = dom_name d" "\<And>d. dom_creation_date (f d) = dom_creation_date d"
  shows "registry_step dc0 (dc\<lparr>domains := tbl_modify pk f (domains dc)\<rparr>)"
proof -
  from r ok obtain u where dc: "dc = dc0\<lparr>dc_context := (dc_context dc0)\<lparr>used_authorizations := u\<rparr>\<rparr>" and ok': "registry_ok dc"
    and a: "\<exists>a \<in> set (ctx_authorization (dc_context dc0)). actor a = account" by (rule require_auth_dc_Inr)
  have d: "tbl_find (domains dc) pk = Some d" using get_domain_Inr [OF ok' g] by simp
  have "registry_ok (dc\<lparr>domains := tbl_modify pk f (domains dc)\<rparr>)"
    using ok' f(1) by (simp add: registry_ok_def all_rows_modify unique_by_modify)
  moreover have "domains_kept (ctx_authorization (dc_context dc0)) (domains dc) (tbl_modify pk f (domains dc))"
    using a assms(4) f d by (auto simp: domains_kept_def ct.change_look)
  ultimately show ?thesis by (simp add: registry_step_def dc)
qed

lemma domain_step:
  assumes ok: "registry_ok dc" and run: "apply_domain act dc = Inr dc'"
  shows "registry_step dc dc'"
proof (cases act)
  case (Providebw a)
  then have "require_auth_dc (bw_provider a) dc = Inr dc'" using run by (simp add: apply_domain_def apply_cyber_providebw_def)
  from this ok obtain u where "dc' = dc\<lparr>dc_context := (dc_context dc)\<lparr>used_authorizations := u\<rparr>\<rparr>" "registry_ok dc'"
    by (rule require_auth_dc_Inr)
  then show ?thesis by (simp add: registry_step_def)
next
  case (Newdomain a)
  then show ?thesis using newdomain_step [OF ok] run by (simp add: apply_domain_def)
next
  case (Passdomain a)
  then show ?thesis using run owner_change_step [OF ok]
    by (auto simp: apply_domain_def apply_cyber_domain_passdomain_def res_simps)
next
  case (Linkdomain a)
  then show ?thesis using run owner_change_step [OF ok]
    by (auto simp: apply_domain_def apply_cyber_domain_linkdomain_def res_simps)
next
  case (Unlinkdomain a)
  then show ?thesis using run owner_change_step [OF ok]
    by (auto simp: apply_domain_def apply_cyber_domain_unlinkdomain_def res_simps)
next
  case (Newusername a)
  then show ?thesis using newusername_step [OF ok] run by (simp add: apply_domain_def)
qed

lemma run_domain_step:
  assumes "registry_ok dc" and "run_domain (auths, act) dc = Inr dc'"
  shows "registry_ok dc'" and "domains_kept auths (domains dc) (domains dc')"
  using assms domain_step [of "dc\<lparr>dc_context := (dc_context dc)
       \<lparr>ctx_authorization := auths, used_authorizations := replicate (length auths) False\<rparr>\<rparr>" act dc']
  by (simp_all add: run_domain_def registry_step_def registry_ok_context)

text \<open>
  C18.  In a well-formed registry no sequence of domain actions can register a name twice: after any
  sequence of actions that all succeed, every domain name and every user name is valid, domain names
  are unique, user names are unique within their scope and every user name belongs to an existing
  account.
\<close>

theorem domain_actions_keep_registry:
  assumes "registry_ok dc" and "fold_res run_domain acts dc = Inr dc'"
  shows "registry_ok dc'"
  by (rule fold_res_invariant [OF assms(2), where P = registry_ok])
    (use assms(1) run_domain_step(1) in \<open>auto simp: split_paired_all\<close>)

text \<open>
  C20.  A registered domain stays registered, under the same key and with the date of its creation, and
  its owner and its link are what they were unless the owner authorized the action.
\<close>

theorem domain_changes_need_owner:
  assumes ok: "registry_ok dc" and run: "run_domain (auths, act) dc = Inr dc'" and d: "find_domain n dc = Some (pk, d)"
  shows "\<exists>d'. find_domain n dc' = Some (pk, d') \<and> dom_creation_date d' = dom_creation_date d \<and>
     (d' = d \<or> dom_owner d \<in> actor ` set auths)"
proof -
  have "tbl_find (domains dc) pk = Some d" "dom_name d = n" using d find_domain_iff [OF ok] by auto
  then obtain d' where "tbl_find (domains dc') pk = Some d'" "dom_name d' = n"
    "dom_creation_date d' = dom_creation_date d" "d' = d \<or> (\<exists>a \<in> set auths. actor a = dom_owner d)"
    using run_domain_step(2) [OF ok run] unfolding domains_kept_def by blast
  moreover from this have "find_domain n dc' = Some (pk, d')" using find_domain_iff [OF run_domain_step(1) [OF ok run]] by simp
  ultimately show ?thesis by (metis imageI)
qed

section \<open>Examples\<close>

definition ex_domain_context :: "(nat, nat, unit, unit) domain_context" where
  "ex_domain_context = \<lparr>dc_context = ex_context, domains = empty_table, usernames = empty_table\<rparr>"

definition ex_newdomain :: "permission_level list \<times> domain_action" where
  "ex_newdomain = ([Permission_level 1 active_name], Newdomain \<lparr>nd_creator = 1, nd_name = ''golos.io''\<rparr>)"

definition ex_newusername :: "permission_level list \<times> domain_action" where
  "ex_newusername = ([Permission_level 1 active_name], Newusername \<lparr>nu_creator = 1, nu_owner = 1, nu_name = ''alice''\<rparr>)"

definition ex_passdomain :: "permission_level list \<times> domain_action" where
  "ex_passdomain = ([Permission_level 1 active_name], Passdomain \<lparr>pd_from = 1, pd_to = 2, pd_name = ''golos.io''\<rparr>)"

lemma tbl_find_empty [simp]: "tbl_find empty_table pk = None"
  by (simp add: tbl_find_def empty_table_def)

lemma ex_registry_ok: "registry_ok ex_domain_context"
  by (simp add: registry_ok_def ex_domain_context_def all_rows_def unique_by_def)

lemma ex_domain_runs:
  "case fold_res run_domain [ex_newdomain, ex_newusername] ex_domain_context of
     Inr dc \<Rightarrow>
       (case find_domain ''golos.io'' dc of
          Some (pk, d) \<Rightarrow> pk = 0 \<and> dom_owner d = 1 \<and> \<not> isl (run_domain ex_passdomain dc)
        | None \<Rightarrow> False)
   | Inl _ \<Rightarrow> False"
  by code_simp


lemma ex_domain_states:
  obtains dc d dc' where "fold_res run_domain [ex_newdomain, ex_newusername] ex_domain_context = Inr dc"
    and "find_domain ''golos.io'' dc = Some (0, d)" and "dom_owner d = 1" and "run_domain ex_passdomain dc = Inr dc'"
proof -
  obtain dc where dc: "fold_res run_domain [ex_newdomain, ex_newusername] ex_domain_context = Inr dc"
    using ex_domain_runs by (cases "fold_res run_domain [ex_newdomain, ex_newusername] ex_domain_context") auto
  moreover from dc ex_domain_runs obtain d where "find_domain ''golos.io'' dc = Some (0, d)" "dom_owner d = 1"
    by (auto split: option.splits)
  moreover from dc ex_domain_runs obtain dc' where "run_domain ex_passdomain dc = Inr dc'"
    by (auto simp: isl_def split: option.splits) (metis sum.exhaust)
  ultimately show ?thesis using that by blast
qed

theorem domain_actions_keep_registry_witness:
  "\<exists>dc. fold_res run_domain [ex_newdomain, ex_newusername] ex_domain_context = Inr dc \<and> registry_ok dc"
proof -
  obtain dc where "fold_res run_domain [ex_newdomain, ex_newusername] ex_domain_context = Inr dc"
    by (rule ex_domain_states)
  with domain_actions_keep_registry [OF ex_registry_ok this] show ?thesis by blast
qed

theorem domain_changes_need_owner_witness:
  "\<exists>dc dc' d d'. fold_res run_domain [ex_newdomain, ex_newusername] ex_domain_context = Inr dc \<and>
     run_domain ex_passdomain dc = Inr dc' \<and> find_domain ''golos.io'' dc = Some (0, d) \<and>
     find_domain ''golos.io'' dc' = Some (0, d') \<and> dom_creation_date d' = dom_creation_date d"
proof -
  obtain dc d dc' where dc: "fold_res run_domain [ex_newdomain, ex_newusername] ex_domain_context = Inr dc"
    and d: "find_domain ''golos.io'' dc = Some (0, d)" and dc': "run_domain ex_passdomain dc = Inr dc'"
    by (rule ex_domain_states)
  have "registry_ok dc"
    by (rule fold_res_invariant [OF dc, where P = registry_ok])
      (use ex_registry_ok run_domain_step(1) in \<open>auto simp: split_paired_all\<close>)
  from domain_changes_need_owner [OF this dc' [unfolded ex_passdomain_def] d] dc d dc' show ?thesis by blast
qed

end
