(* ===== verification/Transactions.thy ===== *)
theory Transactions
  imports EosioContract BlockHeaderState
begin

text \<open>
  What admits a transaction into a block: the header of \<^verbatim>\<open>transaction.hpp\<close> and
  \<^verbatim>\<open>transaction.cpp\<close>, the expiration, the reference block (TaPoS) and the deduplication table of
  \<^verbatim>\<open>controller.cpp\<close>, and the checks of \<^verbatim>\<open>transaction_context.cpp\<close> on the accounts
  a transaction refers to.

  The state is the part of the chain these functions read: permissions and the clock of the pending
  block (\<open>cs_auth\<close>), accounts and configuration (\<open>cs_res\<close>), the recorded transactions, the ring of
  65536 block summaries and whether the controller skips checks.  Ids of transactions are the type
  variable \<open>'h\<close>, ids of blocks are digests; the byte swap of a 32-bit word comes with the parameter
  \<open>crypto\<close> of theory \<open>BlockHeaderState\<close>.

  The main result is that no transaction is accepted twice, although the deduplication table forgets
  expired transactions.
\<close>

unbundle bit_operations_syntax

section \<open>The header\<close>

record transaction_header =
  trx_expiration :: "32 word"
  ref_block_num :: "16 word"
  ref_block_prefix :: "32 word"
  max_net_usage_words :: "32 word"
  max_cpu_usage_ms :: "8 word"
  max_ram_kbytes :: "32 word"
  max_storage_kbytes :: "32 word"
  delay_sec :: "32 word"

record 'd transaction = transaction_header +
  context_free_actions :: "'d action list"
  trx_actions :: "'d action list"
  transaction_extensions :: "(16 word \<times> 8 word list) list"

definition get_ref_blocknum :: "32 word \<Rightarrow> transaction_header \<Rightarrow> 32 word" where
  "get_ref_blocknum head_blocknum h = (head_blocknum div 0xffff) * 0xffff + head_blocknum mod 0xffff"

definition set_reference_block :: "('p, 's) crypto \<Rightarrow> digest \<Rightarrow> 'd transaction \<Rightarrow> 'd transaction" where
  "set_reference_block cr b trx =
     trx\<lparr>ref_block_num := ucast (endian_reverse_u32 cr (ucast (hash0 b))), ref_block_prefix := ucast (hash1 b)\<rparr>"

definition verify_reference_block :: "('p, 's) crypto \<Rightarrow> digest \<Rightarrow> 'd transaction \<Rightarrow> bool" where
  "verify_reference_block cr b trx \<longleftrightarrow>
     ref_block_num trx = ucast (endian_reverse_u32 cr (ucast (hash0 b))) \<and> ref_block_prefix trx = ucast (hash1 b)"

definition transaction_header_validate :: "'d transaction \<Rightarrow> unit res" where
  "transaction_header_validate trx =
     eos_assert (uint (max_net_usage_words trx) < (2 ^ 32 - 1) div 8) Transaction_exception"

definition total_actions :: "'d transaction \<Rightarrow> nat" where
  "total_actions trx = length (context_free_actions trx) + length (trx_actions trx)"

definition first_authorizor :: "'d transaction \<Rightarrow> 64 word" where
  "first_authorizor trx = (case concat (map act_authorization (trx_actions trx)) of [] \<Rightarrow> 0 | u # _ \<Rightarrow> actor u)"

section \<open>State\<close>

record 'h transaction_object =
  to_expiration :: "32 word"
  to_trx_id :: 'h

record ('k, 'h, 'd, 'g) chain_state =
  cs_auth :: "('k, 'h, 'd) auth_db"
  cs_res :: "'g resource_db"
  cs_transactions :: "'h transaction_object chain_table"
  cs_block_summaries :: "digest chain_table"
  cs_skip_trx_checks :: bool

text \<open>A \<^verbatim>\<open>time_point_sec\<close> as a time point.\<close>

definition sec_to_time_point :: "32 word \<Rightarrow> int" where "sec_to_time_point s = uint s * 1000000"

abbreviation cs_now :: "('k, 'h, 'd, 'g) chain_state \<Rightarrow> int" where
  "cs_now s \<equiv> pending_block_time (cs_auth s)"

section \<open>When checks are skipped\<close>

datatype block_status = Irreversible | Validated | Complete | Incomplete

record validation_config =
  vc_pending :: "block_status option"
  in_trx_requiring_checks :: bool
  force_all_checks :: bool
  disable_replay_opts :: bool
  light_validation_mode :: bool
  trusted_producer_light_validation :: bool

definition light_validation_allowed :: "validation_config \<Rightarrow> bool \<Rightarrow> bool" where
  "light_validation_allowed c replay_opts_disabled_by_policy =
     (case vc_pending c of
        None \<Rightarrow> False
      | Some pb_status \<Rightarrow>
          if in_trx_requiring_checks c then False
          else
            let consider_skipping_on_replay =
                  ((pb_status = Irreversible \<or> pb_status = Validated) \<and> \<not> replay_opts_disabled_by_policy);
                consider_skipping_on_validate =
                  (pb_status = Complete \<and> (light_validation_mode c \<or> trusted_producer_light_validation c))
            in consider_skipping_on_replay \<or> consider_skipping_on_validate)"

definition skip_auth_check :: "validation_config \<Rightarrow> bool" where
  "skip_auth_check c = light_validation_allowed c (force_all_checks c)"

definition skip_trx_checks :: "validation_config \<Rightarrow> bool" where
  "skip_trx_checks c = light_validation_allowed c (disable_replay_opts c)"

definition skip_db_sessions :: "validation_config \<Rightarrow> bool" where
  "skip_db_sessions c =
     (case vc_pending c of
        None \<Rightarrow> False
      | Some bs \<Rightarrow> bs = Irreversible \<and> \<not> disable_replay_opts c \<and> \<not> in_trx_requiring_checks c)"

section \<open>Checks of an input transaction\<close>

definition validate_expiration :: "'d transaction \<Rightarrow> ('k, 'h, 'd, 'g) chain_state \<Rightarrow> unit res" where
  "validate_expiration trx s =
     bind_res (eos_assert (sec_to_time_point (trx_expiration trx) \<ge> cs_now s) Expired_tx_exception) (\<lambda>_.
       eos_assert (sec_to_time_point (trx_expiration trx)
                     \<le> cs_now s + max_transaction_lifetime (configuration (cs_res s)) * 1000000)
         Tx_exp_too_far_exception)"

definition validate_tapos :: "('p, 's) crypto \<Rightarrow> 'd transaction \<Rightarrow> ('k, 'h, 'd, 'g) chain_state \<Rightarrow> unit res" where
  "validate_tapos cr trx s =
     bind_res (tbl_get (cs_block_summaries s) (ucast (ref_block_num trx))) (\<lambda>b.
       eos_assert (verify_reference_block cr b trx) Invalid_ref_block_exception)"

definition require_code :: "'d action \<Rightarrow> ('k, 'h, 'd, 'g) chain_state \<Rightarrow> unit res" where
  "require_code a s = eos_assert (tbl_find (accounts (cs_res s)) (act_account a) \<noteq> None) Transaction_exception"

definition validate_referenced_accounts :: "'d transaction \<Rightarrow> ('k, 'h, 'd, 'g) chain_state \<Rightarrow> unit res" where
  "validate_referenced_accounts trx s =
     bind_res (fold_res (\<lambda>a _.
         bind_res (require_code a s) (\<lambda>_. eos_assert (length (act_authorization a) = 0) Transaction_exception))
       (context_free_actions trx) ()) (\<lambda>_.
     bind_res (fold_res (\<lambda>a one_auth.
         bind_res (require_code a s) (\<lambda>_.
           fold_res (\<lambda>auth _.
               bind_res (eos_assert (tbl_find (accounts (cs_res s)) (actor auth) \<noteq> None) Transaction_exception) (\<lambda>_.
               bind_res (find_permission auth (cs_auth s)) (\<lambda>p.
               bind_res (eos_assert (p \<noteq> None) Transaction_exception) (\<lambda>_. Inr True))))
             (act_authorization a) one_auth))
       (trx_actions trx) False) (\<lambda>one_auth.
       eos_assert one_auth Tx_no_auths))"

definition record_transaction ::
  "'h \<Rightarrow> 32 word \<Rightarrow> ('k, 'h, 'd, 'g) chain_state \<Rightarrow> ('k, 'h, 'd, 'g) chain_state res" where
  "record_transaction i expire s =
     bind_res (eos_assert (find_by (\<lambda>r. to_trx_id r = i) (cs_transactions s) = None) Tx_duplicate) (\<lambda>_.
     bind_res (tbl_emplace \<lparr>to_expiration = expire, to_trx_id = i\<rparr> (cs_transactions s)) (\<lambda>(_, t).
       Inr (s\<lparr>cs_transactions := t\<rparr>)))"

text \<open>The loop over the index by expiration, whose entries are \<open>(expiration, id)\<close> in ascending order.\<close>

definition by_expiration :: "'h transaction_object chain_table \<Rightarrow> (64 word \<times> 'h transaction_object) list" where
  "by_expiration t = sort_key (\<lambda>(pk, r). (to_expiration r, pk)) (rows t)"

fun clear_loop ::
  "int \<Rightarrow> (64 word \<times> 'h transaction_object) list \<Rightarrow> 'h transaction_object chain_table \<Rightarrow> 'h transaction_object chain_table" where
  "clear_loop now [] t = t"
| "clear_loop now ((pk, r) # itr) t =
     (if now \<le> sec_to_time_point (to_expiration r) then t else clear_loop now itr (tbl_erase pk t))"

definition clear_expired_input_transactions ::
  "('k, 'h, 'd, 'g) chain_state \<Rightarrow> ('k, 'h, 'd, 'g) chain_state" where
  "clear_expired_input_transactions s =
     s\<lparr>cs_transactions := clear_loop (cs_now s) (by_expiration (cs_transactions s)) (cs_transactions s)\<rparr>"

definition create_block_summary ::
  "('p, 's) crypto \<Rightarrow> digest \<Rightarrow> ('k, 'h, 'd, 'g) chain_state \<Rightarrow> ('k, 'h, 'd, 'g) chain_state res" where
  "create_block_summary cr b s =
     (let sid = ucast (num_from_id cr b AND 0xffff) in
      bind_res (tbl_get (cs_block_summaries s) sid) (\<lambda>_.
        Inr (s\<lparr>cs_block_summaries := tbl_modify sid (\<lambda>_. b) (cs_block_summaries s)\<rparr>)))"

text \<open>
  What \<^verbatim>\<open>init_for_input_trx\<close> does about admission, and what \<^verbatim>\<open>start_block\<close> does to the
  clock and the deduplication table.
\<close>

definition admit_input ::
  "('p, 's) crypto \<Rightarrow> 'h \<Rightarrow> 'd transaction \<Rightarrow> bool \<Rightarrow> ('k, 'h, 'd, 'g) chain_state \<Rightarrow> ('k, 'h, 'd, 'g) chain_state res" where
  "admit_input cr i trx skip_recording s =
     bind_res (if \<not> cs_skip_trx_checks s then
                 bind_res (validate_expiration trx s) (\<lambda>_.
                 bind_res (validate_tapos cr trx s) (\<lambda>_.
                   validate_referenced_accounts trx s))
               else Inr ()) (\<lambda>_.
       if \<not> skip_recording then record_transaction i (trx_expiration trx) s else Inr s)"

definition enter_block :: "int \<Rightarrow> ('k, 'h, 'd, 'g) chain_state \<Rightarrow> ('k, 'h, 'd, 'g) chain_state" where
  "enter_block when s =
     clear_expired_input_transactions (s\<lparr>cs_auth := (cs_auth s)\<lparr>pending_block_time := when\<rparr>\<rparr>)"


text \<open>The history of admissions: blocks are started, input transactions are admitted and recorded.\<close>

datatype 'd chain_event = Block_start int | Input_trx "'d transaction"

definition admit_step ::
  "('p, 's) crypto \<Rightarrow> ('d transaction \<Rightarrow> 'h) \<Rightarrow> 'd chain_event \<Rightarrow> ('k, 'h, 'd, 'g) chain_state \<Rightarrow> ('k, 'h, 'd, 'g) chain_state res" where
  "admit_step cr trx_id ev s =
     (case ev of
        Block_start when \<Rightarrow> Inr (enter_block when s)
      | Input_trx trx \<Rightarrow> admit_input cr (trx_id trx) trx False s)"

fun inputs_of :: "'d chain_event list \<Rightarrow> 'd transaction list" where
  "inputs_of [] = []"
| "inputs_of (Block_start when # evs) = inputs_of evs"
| "inputs_of (Input_trx trx # evs) = trx # inputs_of evs"

fun block_times :: "'d chain_event list \<Rightarrow> int list" where
  "block_times [] = []"
| "block_times (Block_start when # evs) = when # block_times evs"
| "block_times (Input_trx trx # evs) = block_times evs"

section \<open>The reference block\<close>

lemma get_ref_blocknum_head: "get_ref_blocknum head_blocknum h = head_blocknum"
  by (simp add: get_ref_blocknum_def div_mult_mod_eq)

lemma verify_set_reference_block [simp]: "verify_reference_block cr b (set_reference_block cr b trx)"
  by (simp add: verify_reference_block_def set_reference_block_def)

lemma summary_slot: "(ucast (n AND 0xffff) :: 64 word) = ucast (ucast (n :: 32 word) :: 16 word)"
proof -
  have m: "(0xffff :: 32 word) = mask 16" by (simp add: mask_eq_exp_minus_1)
  have "(ucast (n AND mask 16) :: 64 word) = ucast (ucast n :: 16 word)" by (intro bit_word_eqI) (auto simp: bit_simps)
  then show ?thesis by (simp only: m)
qed

text \<open>A transaction that refers to the latest summarized block passes the check of its reference block.\<close>

lemma tapos_of_latest:
  assumes "create_block_summary cr b s = Inr s'"
  shows "validate_tapos cr (set_reference_block cr b trx) s' = Inr ()"
proof -
  let ?sid = "ucast (num_from_id cr b AND 0xffff) :: 64 word"
  obtain old where "tbl_find (cs_block_summaries s) ?sid = Some old" and s': "s' = s\<lparr>cs_block_summaries := tbl_modify ?sid (\<lambda>_. b) (cs_block_summaries s)\<rparr>"
    using assms by (auto simp: create_block_summary_def Let_def res_simps tbl_get_def split: option.splits)
  then have "tbl_find (cs_block_summaries s') ?sid = Some b" by (simp add: ct.change_look)
  moreover have "ucast (ref_block_num (set_reference_block cr b trx)) = ?sid"
    by (simp only: summary_slot) (simp add: set_reference_block_def num_from_id_def)
  ultimately show ?thesis by (simp add: validate_tapos_def tbl_get_def eos_assert_def)
qed

section \<open>The deduplication table\<close>

abbreviation expired :: "int \<Rightarrow> 'h transaction_object \<Rightarrow> bool" where
  "expired now r \<equiv> sec_to_time_point (to_expiration r) < now"

lemma clear_loop_ok: "tbl_ok t \<Longrightarrow> tbl_ok (clear_loop now itr t)"
  by (induction now itr t rule: clear_loop.induct) simp_all

lemma clear_loop_find:
  assumes "tbl_ok t" and "sorted (map (\<lambda>(pk, r). (to_expiration r, pk)) itr)"
  shows "tbl_find (clear_loop now itr t) k =
     (if \<exists>r. (k, r) \<in> set itr \<and> expired now r then None else tbl_find t k)"
  using assms
proof (induction now itr t rule: clear_loop.induct)
  case (2 now pk r itr t)
  show ?case
  proof (cases "now \<le> sec_to_time_point (to_expiration r)")
    case True
    have "to_expiration r \<le> to_expiration r'" if "(k', r') \<in> set itr" for k' r'
      using 2(3) that by (force simp: less_eq_prod_def)
    then have "\<not> expired now r'" if "(k', r') \<in> set ((pk, r) # itr)" for k' r'
      using that True by (fastforce simp: sec_to_time_point_def word_le_def)
    then show ?thesis using True by auto
  next
    case False
    then show ?thesis using 2 by (auto simp: tbl_find_erase)
  qed
qed simp

text \<open>Entering a block forgets exactly the transactions that expired before it.\<close>

lemma clear_expired_exact:
  assumes "tbl_ok (cs_transactions s)"
  shows "tbl_find (cs_transactions (clear_expired_input_transactions s)) k =
     (case tbl_find (cs_transactions s) k of
        Some r \<Rightarrow> if expired (cs_now s) r then None else Some r
      | None \<Rightarrow> None)"
proof -
  have srt: "sorted (map (\<lambda>(pk, r). (to_expiration r, pk)) (by_expiration (cs_transactions s)))"
    by (simp add: by_expiration_def)
  have mem: "(k, r) \<in> set (by_expiration (cs_transactions s)) \<longleftrightarrow> tbl_find (cs_transactions s) k = Some r" for r
    by (simp add: by_expiration_def tbl_find_in [OF assms])
  show ?thesis
    by (simp add: clear_expired_input_transactions_def clear_loop_find [OF assms srt] mem split: option.split)
qed

definition dedupe_ok :: "('k, 'h, 'd, 'g) chain_state \<Rightarrow> bool" where
  "dedupe_ok s \<longleftrightarrow> tbl_ok (cs_transactions s) \<and> \<not> cs_skip_trx_checks s"

text \<open>A transaction with id \<open>i\<close> and expiration \<open>e\<close> is barred: it is in the table or has expired.\<close>

definition barred :: "('k, 'h, 'd, 'g) chain_state \<Rightarrow> 'h \<Rightarrow> 32 word \<Rightarrow> bool" where
  "barred s i e \<longleftrightarrow> sec_to_time_point e < cs_now s \<or>
     (\<exists>pk. tbl_find (cs_transactions s) pk = Some \<lparr>to_expiration = e, to_trx_id = i\<rparr>)"


lemma enter_block_ok: "dedupe_ok s \<Longrightarrow> dedupe_ok (enter_block when s)"
  by (simp add: dedupe_ok_def enter_block_def clear_expired_input_transactions_def clear_loop_ok)

lemma enter_block_barred:
  assumes ok: "dedupe_ok s" and "cs_now s \<le> when" and b: "barred s i e"
  shows "barred (enter_block when s) i e"
proof -
  let ?s = "s\<lparr>cs_auth := (cs_auth s)\<lparr>pending_block_time := when\<rparr>\<rparr>"
  have t: "tbl_ok (cs_transactions ?s)" using ok by (simp add: dedupe_ok_def)
  have n: "cs_now (enter_block when s) = when" by (simp add: enter_block_def clear_expired_input_transactions_def)
  show "barred (enter_block when s) i e"
  proof (cases "sec_to_time_point e < when")
    case False
    then obtain pk where "tbl_find (cs_transactions s) pk = Some \<lparr>to_expiration = e, to_trx_id = i\<rparr>"
      using b assms(2) by (auto simp: barred_def)
    then show ?thesis using clear_expired_exact [OF t, of pk] False by (auto simp: barred_def enter_block_def)
  qed (simp add: barred_def n)
qed

lemma record_transaction_Inr:
  assumes ok: "tbl_ok (cs_transactions s)" and r: "record_transaction i e s = Inr s'"
  shows "tbl_ok (cs_transactions s')" and "cs_now s' = cs_now s" and "cs_skip_trx_checks s' = cs_skip_trx_checks s"
    and "barred s' i e" and "barred s j f \<Longrightarrow> barred s' j f"
    and "tbl_find (cs_transactions s) pk = Some q \<Longrightarrow> to_trx_id q \<noteq> i"
proof -
  obtain k t where e: "tbl_emplace \<lparr>to_expiration = e, to_trx_id = i\<rparr> (cs_transactions s) = Inr (k, t)"
    and s': "s' = s\<lparr>cs_transactions := t\<rparr>" and new: "find_by (\<lambda>r. to_trx_id r = i) (cs_transactions s) = None"
    using r by (auto simp: record_transaction_def res_simps)
  show "tbl_ok (cs_transactions s')" using ct.insert_ok [OF ok e] by (simp add: s')
  show "cs_now s' = cs_now s" "cs_skip_trx_checks s' = cs_skip_trx_checks s" by (simp_all add: s')
  show "barred s' i e" using ct.insert_look [OF ok e, of k] by (auto simp: barred_def s')
  show "barred s j f \<Longrightarrow> barred s' j f"
    using ct.insert_look [OF ok e] ct.insert_not_found [OF ok e] by (force simp: barred_def s')
  show "tbl_find (cs_transactions s) pk = Some q \<Longrightarrow> to_trx_id q \<noteq> i" using new by (simp add: find_by_None [OF ok])
qed

lemma admit_input_Inr:
  assumes ok: "dedupe_ok s" and a: "admit_input cr i trx False s = Inr s'"
  shows "dedupe_ok s'" and "cs_now s' = cs_now s" and "barred s' i (trx_expiration trx)"
    and "barred s j f \<Longrightarrow> barred s' j f" and "\<not> barred s i (trx_expiration trx)"
proof -
  have t: "tbl_ok (cs_transactions s)" using ok by (simp add: dedupe_ok_def)
  have r: "record_transaction i (trx_expiration trx) s = Inr s'"
    and v: "cs_now s \<le> sec_to_time_point (trx_expiration trx)"
    using a ok by (auto simp: admit_input_def validate_expiration_def dedupe_ok_def res_simps)
  note rec = record_transaction_Inr [OF t r]
  show "dedupe_ok s'" using rec ok by (simp add: dedupe_ok_def)
  show "cs_now s' = cs_now s" "barred s' i (trx_expiration trx)" "barred s j f \<Longrightarrow> barred s' j f" by (fact rec)+
  show "\<not> barred s i (trx_expiration trx)" using rec(6) v by (fastforce simp: barred_def)
qed

lemma admit_step_simps [simp]:
  "admit_step cr trx_id (Block_start when) s = Inr (enter_block when s)"
  "admit_step cr trx_id (Input_trx trx) s = admit_input cr (trx_id trx) trx False s"
  by (simp_all add: admit_step_def)

text \<open>\<open>seen\<close> are ids with expirations that are barred already.\<close>

lemma no_replay_aux:
  assumes "dedupe_ok s" and "fold_res (admit_step cr trx_id) evs s = Inr s'" and "sorted (cs_now s # block_times evs)"
    and "\<forall>p \<in> seen. barred s (fst p) (snd p)"
    and "\<forall>p \<in> seen. \<forall>a \<in> set (inputs_of evs). trx_id a = fst p \<longrightarrow> trx_expiration a = snd p"
    and "\<forall>a \<in> set (inputs_of evs). \<forall>b \<in> set (inputs_of evs). trx_id a = trx_id b \<longrightarrow> trx_expiration a = trx_expiration b"
  shows "distinct (map trx_id (inputs_of evs)) \<and> (\<forall>a \<in> set (inputs_of evs). trx_id a \<notin> fst ` seen)"
  using assms
proof (induction evs arbitrary: s seen rule: inputs_of.induct)
  case (2 tm evs)
  have bar: "\<forall>p \<in> seen. barred (enter_block tm s) (fst p) (snd p)" using enter_block_barred [OF 2(2), of tm] 2(4,5) by auto
  have n: "cs_now (enter_block tm s) = tm" by (simp add: enter_block_def clear_expired_input_transactions_def)
  have r: "fold_res (admit_step cr trx_id) evs (enter_block tm s) = Inr s'" using 2(3) by simp
  have srt: "sorted (cs_now (enter_block tm s) # block_times evs)" using 2(4) by (simp add: n)
  show ?case
    unfolding inputs_of.simps
    by (rule 2(1) [OF enter_block_ok [OF 2(2)] r srt bar 2(6,7) [unfolded inputs_of.simps]])
next
  case (3 trx evs)
  obtain s1 where a: "admit_input cr (trx_id trx) trx False s = Inr s1" and r: "fold_res (admit_step cr trx_id) evs s1 = Inr s'"
    using 3(3) by (auto simp: bind_res_Inr)
  note adm = admit_input_Inr [OF 3(2) a]
  let ?seen = "insert (trx_id trx, trx_expiration trx) seen"
  have "distinct (map trx_id (inputs_of evs)) \<and> (\<forall>a \<in> set (inputs_of evs). trx_id a \<notin> fst ` ?seen)"
  proof (rule 3(1) [OF adm(1) r]; (intro ballI impI)?)
    show "sorted (cs_now s1 # block_times evs)" using 3(4) adm(2) by simp
    show "barred s1 (fst p) (snd p)" if "p \<in> ?seen" for p using that 3(5) adm(3,4) by auto
  next
    fix p a
    assume "p \<in> ?seen" and "a \<in> set (inputs_of evs)" "trx_id a = fst p"
    then show "trx_expiration a = snd p" using bspec [OF bspec [OF 3(6)], of p a] bspec [OF bspec [OF 3(7)], of a trx] by auto
  next
    fix a b
    assume "a \<in> set (inputs_of evs)" "b \<in> set (inputs_of evs)" "trx_id a = trx_id b"
    then show "trx_expiration a = trx_expiration b" using bspec [OF bspec [OF 3(7)], of a b] by simp
  qed
  moreover have "trx_id trx \<notin> fst ` seen"
  proof
    assume "trx_id trx \<in> fst ` seen"
    then obtain p where "p \<in> seen" "trx_id trx = fst p" by auto
    then show False using adm(5) bspec [OF 3(5), of p] bspec [OF bspec [OF 3(6)], of p trx] by simp
  qed
  ultimately show ?case by auto
qed simp

text \<open>
  C4.  No transaction is accepted twice.  Take any history of started blocks and admitted input
  transactions in which every step succeeds, block times never go back and the checks are not skipped.
  If the ids tell apart transactions with different expirations, then the ids of the admitted
  transactions are distinct, although every block start forgets the expired ones.
\<close>

theorem no_transaction_replay:
  assumes "dedupe_ok s" and "fold_res (admit_step cr trx_id) evs s = Inr s'"
    and "sorted (cs_now s # block_times evs)"
    and "\<forall>a \<in> set (inputs_of evs). \<forall>b \<in> set (inputs_of evs). trx_id a = trx_id b \<longrightarrow> trx_expiration a = trx_expiration b"
  shows "distinct (map trx_id (inputs_of evs))"
  by (rule conjunct1 [OF no_replay_aux [OF assms(1-3) _ _ assms(4), where seen = "{}"]]) simp_all

section \<open>Example\<close>

definition ex_transaction :: "32 word \<Rightarrow> unit transaction" where
  "ex_transaction e =
     \<lparr>trx_expiration = e, ref_block_num = 0, ref_block_prefix = 0, max_net_usage_words = 0, max_cpu_usage_ms = 0,
      max_ram_kbytes = 0, max_storage_kbytes = 0, delay_sec = 0, context_free_actions = [],
      trx_actions = [\<lparr>act_account = 1, act_name = 5, act_authorization = [Permission_level 1 active_name], act_data = ()\<rparr>],
      transaction_extensions = []\<rparr>"

definition ex_chain_state :: "(nat, nat, unit, unit) chain_state" where
  "ex_chain_state =
     \<lparr>cs_auth = ctx_auth ex_context, cs_res = ctx_res ex_context, cs_transactions = empty_table,
      cs_block_summaries = \<lparr>rows = [(0, Digest 0 0 0 0)], next_pk = pk_Unset\<rparr>, cs_skip_trx_checks = False\<rparr>"

definition ex_events :: "unit chain_event list" where
  "ex_events = [Input_trx (ex_transaction 6), Input_trx (ex_transaction 9), Block_start 8000000, Input_trx (ex_transaction 10)]"

definition ex_trx_id :: "unit transaction \<Rightarrow> nat" where
  "ex_trx_id trx = unat (trx_expiration trx)"

lemma ex_events_run: "\<not> isl (fold_res (admit_step ex_crypto ex_trx_id) ex_events ex_chain_state)"
  by code_simp

theorem no_transaction_replay_witness:
  "distinct (map ex_trx_id (inputs_of ex_events)) \<and>
   (\<exists>s. fold_res (admit_step ex_crypto ex_trx_id) ex_events ex_chain_state = Inr s)"
proof -
  obtain s where s: "fold_res (admit_step ex_crypto ex_trx_id) ex_events ex_chain_state = Inr s"
    using ex_events_run by (cases "fold_res (admit_step ex_crypto ex_trx_id) ex_events ex_chain_state") auto
  have "dedupe_ok ex_chain_state" by (simp add: dedupe_ok_def ex_chain_state_def)
  moreover have "sorted (cs_now ex_chain_state # block_times ex_events)"
    by (simp add: ex_chain_state_def ex_events_def ex_context_def ex_auth_db_def)
  ultimately have "distinct (map ex_trx_id (inputs_of ex_events))"
    by (intro no_transaction_replay [OF _ s]) (auto simp: ex_trx_id_def intro: unsigned_word_eqI)
  with s show ?thesis by blast
qed

end
