(* ===== verification/TransactionContext.thy ===== *)
theory TransactionContext
  imports Transactions DomainContract
begin

text \<open>
  \<^verbatim>\<open>libraries/chain/transaction_context.cpp\<close>: the limits and the bill of one transaction.

  \<^item> \<open>hard_limit\<close>: the limit of one resource, set by the block, the configuration and the header.
  \<^item> \<open>cpu_limits\<close>, \<open>min_cpu_limit\<close>: \<^verbatim>\<open>available_resources_t\<close>, the stake of each billed account
    expressed in CPU time, with its cached minimum.
  \<^item> \<open>init\<close>, \<open>add_net_usage\<close>, \<open>add_storage_usage\<close>, \<open>checktime\<close>, the billing timer,
    \<open>validate_bw_usage\<close> and \<open>finalize\<close>, and the three ways a transaction is initialized.

  A reading of the clock is an argument (\<open>now\<close>), and so are the flag of the operating system timer
  and the size of the changes in the undo session.  Times are counts of microseconds.  A signed sum
  that leaves the range of \<^verbatim>\<open>int64_t\<close> is \<open>Undefined_behaviour\<close>; unsigned sums wrap.
  Execution of actions is outside: it enters as a sequence of calls that use bandwidth and storage.
\<close>

section \<open>State\<close>

record hard_limit =
  hl_subjective :: bool
  hl_max :: int
  hl_due_to_block :: bool

record ('k, 'h, 'd, 'g) transaction_context =
  tx_control :: "('k, 'h, 'd, 'g) chain_state"
  tx_trx :: "'d transaction"
  tx_id :: 'h
  tx_start :: int
  tx_published :: int
  hard_limits :: "hard_limit list"
  bill_to_accounts :: "64 word list"
  accounts_storage_deltas :: "(64 word \<times> int) list"
  tx_pricelist :: "ratio list"
  tx_delay :: int
  is_input :: bool
  apply_context_free :: bool
  caller_set_deadline :: int
  leeway :: int
  billed_cpu_time_us :: int
  explicit_billed_cpu_time :: bool
  billed_ram_bytes :: int
  explicit_billed_ram_bytes :: bool
  storage_providers :: "(64 word \<times> 64 word) list"
  is_initialized :: bool
  net_usage :: int
  storage_bytes :: int
  tx_deadline :: int
  timer_off :: bool
  pseudo_start :: int
  billed_time :: int
  cpu_limits :: "(64 word \<times> int) list"
  min_cpu_limit :: int

record storage_payer_info =
  sp_owner :: "64 word"
  sp_payer :: "64 word"
  sp_delta :: int

abbreviation UINT64_MAX :: int where "UINT64_MAX \<equiv> 18446744073709551615"
abbreviation INT64_MAX :: int where "INT64_MAX \<equiv> 9223372036854775807"

definition add_int64 :: "int \<Rightarrow> int \<Rightarrow> int res" where
  "add_int64 a b = (if - (2 ^ 63) \<le> a + b \<and> a + b < 2 ^ 63 then Inr (a + b) else Inl Undefined_behaviour)"

section \<open>Hard limits\<close>

definition hl_init :: "int \<Rightarrow> hard_limit \<Rightarrow> hard_limit" where
  "hl_init block_limit h = h\<lparr>hl_max := block_limit, hl_due_to_block := True\<rparr>"

definition hl_update :: "int \<Rightarrow> hard_limit \<Rightarrow> hard_limit" where
  "hl_update limit h =
     (if limit \<noteq> 0 \<and> limit \<le> hl_max h then h\<lparr>hl_max := limit, hl_due_to_block := False\<rparr> else h)"

definition hl_check :: "bool \<Rightarrow> hard_limit \<Rightarrow> int \<Rightarrow> unit res" where
  "hl_check skip h arg =
     (if \<not> skip \<and> arg > 0 \<and> arg > hl_max h then
        if hl_due_to_block h then Inl Block_usage_exceeded
        else if hl_subjective h then Inl Tx_subjective_usage_exceeded
        else Inl Tx_usage_exceeded
      else Inr ())"

definition new_hard_limits :: "hard_limit list" where
  "new_hard_limits = map (\<lambda>b. \<lparr>hl_subjective = b, hl_max = 0, hl_due_to_block = True\<rparr>) [True, False, True, False]"

abbreviation hl_at :: "nat \<Rightarrow> ('k, 'h, 'd, 'g) transaction_context \<Rightarrow> hard_limit" where
  "hl_at i c \<equiv> hard_limits c ! i"

abbreviation tx_skip :: "('k, 'h, 'd, 'g) transaction_context \<Rightarrow> bool" where
  "tx_skip c \<equiv> cs_skip_trx_checks (tx_control c)"

abbreviation tx_config :: "('k, 'h, 'd, 'g) transaction_context \<Rightarrow> chain_config" where
  "tx_config c \<equiv> configuration (cs_res (tx_control c))"

definition new_transaction_context ::
  "('k, 'h, 'd, 'g) chain_state \<Rightarrow> 'd transaction \<Rightarrow> 'h \<Rightarrow> int \<Rightarrow> ('k, 'h, 'd, 'g) transaction_context res" where
  "new_transaction_context s trx i start =
     bind_res (eos_assert (length (transaction_extensions trx) = 0) Unsupported_feature) (\<lambda>_.
       Inr \<lparr>tx_control = s, tx_trx = trx, tx_id = i, tx_start = start, tx_published = 0, hard_limits = new_hard_limits,
            bill_to_accounts = [], accounts_storage_deltas = [],
            tx_pricelist = replicate resources_num \<lparr>numerator = 0, denominator = 1\<rparr>,
            tx_delay = 0, is_input = False, apply_context_free = True, caller_set_deadline = INT64_MAX, leeway = 0,
            billed_cpu_time_us = 0, explicit_billed_cpu_time = False, billed_ram_bytes = 0,
            explicit_billed_ram_bytes = False, storage_providers = [], is_initialized = False, net_usage = 0,
            storage_bytes = 0, tx_deadline = INT64_MAX, timer_off = False, pseudo_start = start, billed_time = 0,
            cpu_limits = [], min_cpu_limit = UINT64_MAX\<rparr>)"

section \<open>The billing timer\<close>

definition get_billing_timer_duration_limit :: "('k, 'h, 'd, 'g) transaction_context \<Rightarrow> int" where
  "get_billing_timer_duration_limit c = to_int64 (min (min_cpu_limit c) (hl_max (hl_at CPU c)))"

definition get_used_cpu_time :: "int \<Rightarrow> ('k, 'h, 'd, 'g) transaction_context \<Rightarrow> int" where
  "get_used_cpu_time now c =
     (if explicit_billed_cpu_time c then billed_cpu_time_us c
      else let ret = now - pseudo_start c in if ret > leeway c then ret - leeway c else ret)"

definition pause_billing_timer ::
  "int \<Rightarrow> ('k, 'h, 'd, 'g) transaction_context \<Rightarrow> ('k, 'h, 'd, 'g) transaction_context" where
  "pause_billing_timer now c =
     (if explicit_billed_cpu_time c \<or> pseudo_start c = 0 then c
      else c\<lparr>billed_time := now - pseudo_start c, pseudo_start := 0, timer_off := True\<rparr>)"

definition resume_billing_timer ::
  "int \<Rightarrow> ('k, 'h, 'd, 'g) transaction_context \<Rightarrow> ('k, 'h, 'd, 'g) transaction_context" where
  "resume_billing_timer now c =
     (if explicit_billed_cpu_time c \<or> pseudo_start c \<noteq> 0 then c
      else
        let ps = now - billed_time c;
            dl = ps + get_billing_timer_duration_limit c + leeway c
        in c\<lparr>pseudo_start := ps, tx_deadline := (if caller_set_deadline c < dl then caller_set_deadline c else dl),
             timer_off := False\<rparr>)"

definition reset_billing_timer ::
  "int \<times> int \<Rightarrow> ('k, 'h, 'd, 'g) transaction_context \<Rightarrow> ('k, 'h, 'd, 'g) transaction_context" where
  "reset_billing_timer nows c = resume_billing_timer (snd nows) (pause_billing_timer (fst nows) c)"

section \<open>Available resources\<close>

definition check_cpu_usage :: "int \<Rightarrow> ('k, 'h, 'd, 'g) transaction_context \<Rightarrow> unit res" where
  "check_cpu_usage usage c = eos_assert (min_cpu_limit c \<ge> to_uint64 usage) Account_resources_exceeded"

text \<open>\<open>fuel\<close> bounds the traversal of the proxied stakes.\<close>

definition available_init ::
  "nat \<Rightarrow> ('k, 'h, 'd, 'g) transaction_context \<Rightarrow> ('k, 'h, 'd, 'g) transaction_context res" where
  "available_init fuel c =
     (let now = cs_now (tx_control c) in
      bind_res (vec_at (tx_pricelist c) CPU) (\<lambda>cpu_price.
      bind_res (update_account_usage (bill_to_accounts c) (uint (set_time_point now)) (cs_res (tx_control c))) (\<lambda>rl.
      bind_res (fold_res (\<lambda>a (rl, lims, mn).
          bind_res (get_account_balance fuel now a (tx_pricelist c) True rl) (\<lambda>(balance, rl).
          bind_res (if numerator cpu_price \<noteq> 0 \<and> balance < UINT64_MAX
                    then safe_prop uint64_t balance (denominator cpu_price) (numerator cpu_price) False
                    else Inr UINT64_MAX) (\<lambda>lim.
            Inr (rl, fm_set a lim lims, min lim mn))))
        (bill_to_accounts c) (rl, cpu_limits c, UINT64_MAX)) (\<lambda>(rl, lims, mn).
        Inr (c\<lparr>tx_control := (tx_control c)\<lparr>cs_res := rl\<rparr>, cpu_limits := lims, min_cpu_limit := mn\<rparr>)))))"

definition min_over :: "(64 word \<times> int) list \<Rightarrow> int" where
  "min_over lims = foldl (\<lambda>m b. min m (snd b)) UINT64_MAX lims"

definition update_storage_usage ::
  "storage_payer_info \<Rightarrow> ('k, 'h, 'd, 'g) transaction_context \<Rightarrow> ('k, 'h, 'd, 'g) transaction_context res" where
  "update_storage_usage storage c =
     (if explicit_billed_cpu_time c \<or> sp_delta storage = 0 then Inr c
      else case fm_find (cpu_limits c) (sp_payer storage) of
        None \<Rightarrow> Inr c
      | Some lim \<Rightarrow>
          bind_res (if sp_delta storage = - (2 ^ 63) then Inl Undefined_behaviour else Inr \<bar>sp_delta storage\<bar>) (\<lambda>delta_abs.
          bind_res (vec_at (tx_pricelist c) STORAGE) (\<lambda>storage_price.
          bind_res (vec_at (tx_pricelist c) CPU) (\<lambda>cpu_price.
          bind_res (safe_prop_ceil uint64_t delta_abs (numerator storage_price) (denominator storage_price) True) (\<lambda>cost.
          bind_res (if cost \<noteq> 0 then
                      if numerator cpu_price \<noteq> 0
                      then safe_prop_ceil uint64_t cost (denominator cpu_price) (numerator cpu_price) False
                      else Inr UINT64_MAX
                    else Inr 0) (\<lambda>cpu.
          let need_to_update_min = (lim = min_cpu_limit c \<and> sp_delta storage < 0) in
          bind_res (if sp_delta storage > 0
                    then bind_res (eos_assert (lim \<ge> cpu) Account_resources_exceeded) (\<lambda>_. Inr (lim - cpu))
                    else Inr (if UINT64_MAX - lim > cpu then lim + cpu else UINT64_MAX)) (\<lambda>lim'.
          let lims = fm_set (sp_payer storage) lim' (cpu_limits c) in
            Inr (c\<lparr>cpu_limits := lims,
                   min_cpu_limit := (if need_to_update_min then min_over lims else min lim' (min_cpu_limit c))\<rparr>))))))))"

definition available_add_net_usage ::
  "int \<Rightarrow> ('k, 'h, 'd, 'g) transaction_context \<Rightarrow> ('k, 'h, 'd, 'g) transaction_context res" where
  "available_add_net_usage delta c =
     bind_res (eos_assert (delta \<ge> 0) Transaction_exception) (\<lambda>_.
     bind_res (vec_at (tx_pricelist c) CPU) (\<lambda>cpu_price.
     if explicit_billed_cpu_time c \<or> delta = 0 \<or> numerator cpu_price = 0 then Inr c
     else
       bind_res (vec_at (tx_pricelist c) NET) (\<lambda>net_price.
       bind_res (safe_prop_ceil uint64_t delta (numerator net_price) (denominator net_price) True) (\<lambda>cost.
       bind_res (safe_prop_ceil uint64_t cost (denominator cpu_price) (numerator cpu_price) False) (\<lambda>cpu.
       bind_res (eos_assert (min_cpu_limit c \<ge> cpu) Account_resources_exceeded) (\<lambda>_.
       bind_res (fold_res (\<lambda>(a, b) (lims, mn).
           bind_res (eos_assert (b \<ge> cpu) Transaction_exception) (\<lambda>_.
             Inr (lims @ [(a, b - cpu)], min mn (b - cpu))))
         (cpu_limits c) ([], UINT64_MAX)) (\<lambda>(lims, mn).
         Inr (c\<lparr>cpu_limits := lims, min_cpu_limit := mn\<rparr>))))))))"

section \<open>Usage\<close>

definition checktime :: "bool \<Rightarrow> int \<Rightarrow> ('k, 'h, 'd, 'g) transaction_context \<Rightarrow> unit res" where
  "checktime timer_expired now c =
     (if \<not> explicit_billed_cpu_time c \<and> \<not> timer_expired then Inr ()
      else
        let used_cpu_time = get_used_cpu_time now c;
            billing_limit_us = get_billing_timer_duration_limit c;
            caller_deadline_violated = (\<not> explicit_billed_cpu_time c \<and> now > caller_set_deadline c)
        in
        if used_cpu_time > billing_limit_us \<or> caller_deadline_violated then
          bind_res (eos_assert (\<not> explicit_billed_cpu_time c) Explicitly_billed_exception) (\<lambda>_.
          bind_res (eos_assert (\<not> timer_off c) Timer_off_exception) (\<lambda>_.
          bind_res (eos_assert (\<not> caller_deadline_violated) Deadline_exception) (\<lambda>_.
          bind_res (hl_check (tx_skip c) (hl_at CPU c) used_cpu_time) (\<lambda>_.
          bind_res (check_cpu_usage used_cpu_time c) (\<lambda>_.
            Inl Transaction_exception)))))
        else Inr ())"

definition add_net_usage ::
  "int \<times> int \<Rightarrow> int \<Rightarrow> ('k, 'h, 'd, 'g) transaction_context \<Rightarrow> ('k, 'h, 'd, 'g) transaction_context res" where
  "add_net_usage nows u c =
     (let c = c\<lparr>net_usage := to_uint64 (net_usage c + u)\<rparr> in
      bind_res (hl_check (tx_skip c) (hl_at NET c) (to_int64 (net_usage c))) (\<lambda>_.
      bind_res (available_add_net_usage (to_int64 u) c) (\<lambda>c.
        Inr (reset_billing_timer nows c))))"

definition add_storage_usage ::
  "int \<times> int \<Rightarrow> storage_payer_info \<Rightarrow> ('k, 'h, 'd, 'g) transaction_context \<Rightarrow> ('k, 'h, 'd, 'g) transaction_context res" where
  "add_storage_usage nows storage c =
     bind_res (tbl_get (accounts (cs_res (tx_control c))) (sp_payer storage)) (\<lambda>acc.
       if privileged acc then Inr c
       else
         bind_res (add_int64 (storage_bytes c) (sp_delta storage)) (\<lambda>sb.
         let c = c\<lparr>storage_bytes := sb\<rparr> in
         bind_res (hl_check (tx_skip c) (hl_at STORAGE c) (storage_bytes c)) (\<lambda>_.
         bind_res (add_int64 (case fm_find (accounts_storage_deltas c) (sp_payer storage) of Some d \<Rightarrow> d | None \<Rightarrow> 0)
                     (sp_delta storage)) (\<lambda>d.
         let c = c\<lparr>accounts_storage_deltas := fm_set (sp_payer storage) d (accounts_storage_deltas c)\<rparr> in
         bind_res (update_storage_usage storage c) (\<lambda>c.
           Inr (reset_billing_timer nows c))))))"


section \<open>Storage providers\<close>

definition providebw_name :: "64 word" where "providebw_name = string_to_name ''providebw''"

definition add_storage_provider ::
  "providebw \<Rightarrow> ('k, 'h, 'd, 'g) transaction_context \<Rightarrow> ('k, 'h, 'd, 'g) transaction_context res" where
  "add_storage_provider bw c =
     bind_res (eos_assert (bw_provider bw \<noteq> bw_account bw) Bw_provider_error) (\<lambda>_.
     bind_res (eos_assert (bw_provider bw \<noteq> 0) Bw_provider_error) (\<lambda>_.
     bind_res (eos_assert (bw_account bw \<noteq> 0) Bw_provider_error) (\<lambda>_.
     bind_res (eos_assert (fm_find (storage_providers c) (bw_account bw) = None) Bw_provider_error) (\<lambda>_.
       Inr (c\<lparr>storage_providers := fm_emplace (bw_account bw) (bw_provider bw) (storage_providers c)\<rparr>)))))"

definition get_storage_provider :: "64 word \<Rightarrow> ('k, 'h, 'd, 'g) transaction_context \<Rightarrow> 64 word" where
  "get_storage_provider owner c =
     (if owner = 0 then owner
      else case fm_find (storage_providers c) owner of None \<Rightarrow> owner | Some p \<Rightarrow> p)"

definition get_storage_payer :: "64 word \<Rightarrow> ('k, 'h, 'd, 'g) transaction_context \<Rightarrow> storage_payer_info" where
  "get_storage_payer owner c = \<lparr>sp_owner = owner, sp_payer = get_storage_provider owner c, sp_delta = 0\<rparr>"

section \<open>Initialization\<close>

text \<open>The loops of \<^verbatim>\<open>init\<close> over the resources and over the actions.\<close>

definition init_hard_limits ::
  "('k, 'h, 'd, 'g) transaction_context \<Rightarrow> ('k, 'h, 'd, 'g) transaction_context res" where
  "init_hard_limits c =
     bind_res (fold_res (\<lambda>i hl.
         bind_res (get_block_limit i (tx_config c) (cs_res (tx_control c))) (\<lambda>bl.
         bind_res (vec_at (max_transaction_usage (tx_config c)) i) (\<lambda>mx.
           Inr (hl[i := hl_update mx (hl_init bl (hl ! i))]))))
       [0..<resources_num] (hard_limits c)) (\<lambda>hl.
     let trx = tx_trx c;
         hl = hl[CPU := hl_update (uint (max_cpu_usage_ms trx) * 1000) (hl ! CPU)];
         hl = hl[NET := hl_update (uint (max_net_usage_words trx) * 8) (hl ! NET)];
         hl = hl[RAM := hl_update (uint (max_ram_kbytes trx) * 1024) (hl ! RAM)];
         hl = hl[STORAGE := hl_update (uint (max_storage_kbytes trx) * 1024) (hl ! STORAGE)];
         hl = hl[NET := (hl ! NET)\<lparr>hl_max := (hl_max (hl ! NET) div 8) * 8\<rparr>]
     in Inr (c\<lparr>hard_limits := hl\<rparr>))"

definition collect_billing ::
  "('d \<Rightarrow> providebw res) \<Rightarrow> ('k, 'h, 'd, 'g) transaction_context \<Rightarrow> ('k, 'h, 'd, 'g) transaction_context res" where
  "collect_billing unpack c =
     bind_res (fold_res (\<lambda>act c.
         bind_res (if act_account act = system_account_name \<and> act_name act = providebw_name
                   then bind_res (unpack (act_data act)) (\<lambda>bw. add_storage_provider bw c)
                   else Inr c) (\<lambda>c.
           Inr (c\<lparr>bill_to_accounts := fold insort_insert (map actor (act_authorization act)) (bill_to_accounts c)\<rparr>)))
       (trx_actions (tx_trx c)) c) (\<lambda>c.
       Inr (c\<lparr>bill_to_accounts := fold remove1 (map fst (storage_providers c)) (bill_to_accounts c)\<rparr>))"

definition init_deadline ::
  "('k, 'h, 'd, 'g) transaction_context \<Rightarrow> ('k, 'h, 'd, 'g) transaction_context" where
  "init_deadline c =
     (let dl = tx_start c + get_billing_timer_duration_limit c + leeway c in
      c\<lparr>tx_deadline := (if explicit_billed_cpu_time c \<or> caller_set_deadline c < dl then caller_set_deadline c else dl)\<rparr>)"

text \<open>\<open>nows\<close> are the readings of the clock of the timer reset, \<open>timer_expired\<close> and \<open>now\<close> those of the check.\<close>

definition init ::
  "nat \<Rightarrow> ('d \<Rightarrow> providebw res) \<Rightarrow> int \<times> int \<Rightarrow> bool \<Rightarrow> int \<Rightarrow> int
     \<Rightarrow> ('k, 'h, 'd, 'g) transaction_context \<Rightarrow> ('k, 'h, 'd, 'g) transaction_context res" where
  "init fuel unpack nows timer_expired now initial_net_usage c =
     bind_res (eos_assert (\<not> is_initialized c) Transaction_exception) (\<lambda>_.
     bind_res (init_hard_limits c) (\<lambda>c.
     bind_res (if billed_cpu_time_us c > 0 then hl_check (tx_skip c) (hl_at CPU c) (billed_cpu_time_us c) else Inr ()) (\<lambda>_.
     bind_res (if billed_ram_bytes c > 0 then hl_check (tx_skip c) (hl_at RAM c) (to_int64 (billed_ram_bytes c)) else Inr ()) (\<lambda>_.
     bind_res (collect_billing unpack c) (\<lambda>c.
     bind_res (get_pricelist (cs_res (tx_control c))) (\<lambda>prices.
     bind_res (available_init fuel (c\<lparr>tx_pricelist := prices\<rparr>)) (\<lambda>c.
     bind_res (if initial_net_usage > 0 then add_net_usage nows initial_net_usage (init_deadline c)
               else Inr (init_deadline c)) (\<lambda>c.
     bind_res (checktime timer_expired now c) (\<lambda>_.
       Inr (c\<lparr>is_initialized := True\<rparr>))))))))))"

definition init_for_implicit_trx ::
  "nat \<Rightarrow> ('d \<Rightarrow> providebw res) \<Rightarrow> int \<times> int \<Rightarrow> bool \<Rightarrow> int \<Rightarrow> int
     \<Rightarrow> ('k, 'h, 'd, 'g) transaction_context \<Rightarrow> ('k, 'h, 'd, 'g) transaction_context res" where
  "init_for_implicit_trx fuel unpack nows timer_expired now initial_net_usage c =
     init fuel unpack nows timer_expired now initial_net_usage (c\<lparr>tx_published := cs_now (tx_control c)\<rparr>)"

definition init_for_deferred_trx ::
  "nat \<Rightarrow> ('d \<Rightarrow> providebw res) \<Rightarrow> int \<times> int \<Rightarrow> bool \<Rightarrow> int \<Rightarrow> int
     \<Rightarrow> ('k, 'h, 'd, 'g) transaction_context \<Rightarrow> ('k, 'h, 'd, 'g) transaction_context res" where
  "init_for_deferred_trx fuel unpack nows timer_expired now p c =
     init fuel unpack nows timer_expired now 0 (c\<lparr>tx_published := p, apply_context_free := False\<rparr>)"

definition transaction_id_net_usage :: int where "transaction_id_net_usage = 32"

definition initial_net_usage ::
  "int \<Rightarrow> int \<Rightarrow> 'd transaction \<Rightarrow> chain_config \<Rightarrow> int" where
  "initial_net_usage packed_trx_unprunable_size packed_trx_prunable_size trx cfg =
     (let num = context_free_discount_net_usage_num cfg; den = context_free_discount_net_usage_den cfg;
          discounted = (if den > 0 \<and> num < den
                        then to_uint64 (to_uint64 (packed_trx_prunable_size * num) + den - 1) div den
                        else packed_trx_prunable_size);
          usage = to_uint64 (base_per_transaction_net_usage cfg + packed_trx_unprunable_size + discounted)
      in if delay_sec trx > 0
         then to_uint64 (usage + base_per_transaction_net_usage cfg + transaction_id_net_usage)
         else usage)"

definition init_for_input_trx ::
  "nat \<Rightarrow> ('p, 's) crypto \<Rightarrow> ('d \<Rightarrow> providebw res) \<Rightarrow> int \<times> int \<Rightarrow> bool \<Rightarrow> int \<Rightarrow> int \<Rightarrow> int \<Rightarrow> bool
     \<Rightarrow> ('k, 'h, 'd, 'g) transaction_context \<Rightarrow> ('k, 'h, 'd, 'g) transaction_context res" where
  "init_for_input_trx fuel cr unpack nows timer_expired now unprunable prunable skip_recording c =
     (let trx = tx_trx c; s = tx_control c; c = c\<lparr>tx_published := cs_now s, is_input := True\<rparr> in
      bind_res (if \<not> tx_skip c then
                  bind_res (validate_expiration trx s) (\<lambda>_.
                  bind_res (validate_tapos cr trx s) (\<lambda>_.
                    validate_referenced_accounts trx s))
                else Inr ()) (\<lambda>_.
      bind_res (init fuel unpack nows timer_expired now (initial_net_usage unprunable prunable trx (tx_config c)) c) (\<lambda>c.
        if \<not> skip_recording then
          bind_res (record_transaction (tx_id c) (trx_expiration trx) (tx_control c)) (\<lambda>s. Inr (c\<lparr>tx_control := s\<rparr>))
        else Inr c)))"

section \<open>The end of a transaction\<close>

definition update_billed_cpu_time ::
  "int \<Rightarrow> ('k, 'h, 'd, 'g) transaction_context \<Rightarrow> ('k, 'h, 'd, 'g) transaction_context res" where
  "update_billed_cpu_time now c =
     (let min_billable = min_transaction_cpu_usage (tx_config c) in
      if \<not> explicit_billed_cpu_time c
      then Inr (c\<lparr>billed_cpu_time_us := max (get_used_cpu_time now c) min_billable\<rparr>)
      else bind_res (eos_assert (billed_cpu_time_us c \<ge> min_billable) Transaction_exception) (\<lambda>_. Inr c))"

definition update_billed_ram_bytes ::
  "int \<Rightarrow> ('k, 'h, 'd, 'g) transaction_context \<Rightarrow> ('k, 'h, 'd, 'g) transaction_context" where
  "update_billed_ram_bytes calc_ram_bytes c =
     (if \<not> explicit_billed_ram_bytes c
      then c\<lparr>billed_ram_bytes := max (to_uint64 (calc_ram_bytes + 1023) div 1024 * 1024) (min_transaction_ram_usage (tx_config c)),
             explicit_billed_ram_bytes := True\<rparr>
      else c)"

text \<open>The loop over the authorizations of the actions: the use of each permission is recorded.\<close>

definition update_permission_usages ::
  "'d transaction \<Rightarrow> ('k, 'h, 'd) auth_db \<Rightarrow> ('k, 'h, 'd) auth_db res" where
  "update_permission_usages trx db =
     fold_res (\<lambda>act. fold_res (\<lambda>auth db.
         bind_res (get_permission auth db) (\<lambda>(_, p). update_permission_usage p db)) (act_authorization act))
       (trx_actions trx) db"

definition validate_bw_usage ::
  "int \<Rightarrow> int \<Rightarrow> ('k, 'h, 'd, 'g) transaction_context \<Rightarrow> ('k, 'h, 'd, 'g) transaction_context res" where
  "validate_bw_usage calc_ram_bytes now c =
     bind_res (eos_assert (is_initialized c) Transaction_exception) (\<lambda>_.
     bind_res (if is_input c then
                 bind_res (update_permission_usages (tx_trx c) (cs_auth (tx_control c))) (\<lambda>db.
                   Inr (c\<lparr>tx_control := (tx_control c)\<lparr>cs_auth := db\<rparr>\<rparr>))
               else Inr c) (\<lambda>c.
     let c = update_billed_ram_bytes calc_ram_bytes c in
     bind_res (add_int64 (storage_bytes c) 1023) (\<lambda>sb.
     let c = c\<lparr>storage_bytes := sb div 1024 * 1024, net_usage := to_uint64 (net_usage c + 7) div 8 * 8\<rparr> in
     bind_res (update_billed_cpu_time now c) (\<lambda>c.
     bind_res (hl_check (tx_skip c) (hl_at CPU c) (billed_cpu_time_us c)) (\<lambda>_.
     bind_res (hl_check (tx_skip c) (hl_at NET c) (to_int64 (net_usage c))) (\<lambda>_.
     bind_res (hl_check (tx_skip c) (hl_at RAM c) (to_int64 (billed_ram_bytes c))) (\<lambda>_.
     bind_res (hl_check (tx_skip c) (hl_at STORAGE c) (storage_bytes c)) (\<lambda>_.
       Inr c))))))))"

definition tx_finalize ::
  "nat \<Rightarrow> int \<Rightarrow> int \<Rightarrow> ('k, 'h, 'd, 'g) transaction_context \<Rightarrow> ('k, 'h, 'd, 'g) transaction_context res" where
  "tx_finalize fuel calc_ram_bytes now c =
     bind_res (validate_bw_usage calc_ram_bytes now c) (\<lambda>c.
     let t = cs_now (tx_control c) in
     bind_res (add_transaction_usage fuel (bill_to_accounts c) (tx_pricelist c) (to_uint64 (billed_cpu_time_us c))
                 (net_usage c) (billed_ram_bytes c) t True (cs_res (tx_control c))) (\<lambda>rl.
     bind_res (add_storage_usages fuel (accounts_storage_deltas c) (tx_pricelist c) t True rl) (\<lambda>rl.
       Inr (c\<lparr>tx_control := (tx_control c)\<lparr>cs_res := rl\<rparr>\<rparr>))))"

definition schedule_transaction ::
  "('h, 'g) native_env \<Rightarrow> ('d transaction \<Rightarrow> 'd) \<Rightarrow> int \<times> int
     \<Rightarrow> ('k, 'h, 'd, 'g) transaction_context \<Rightarrow> ('k, 'h, 'd, 'g) transaction_context res" where
  "schedule_transaction env pack nows c =
     bind_res (if delay_sec (tx_trx c) = 0
               then add_net_usage nows (base_per_transaction_net_usage (tx_config c) + transaction_id_net_usage) c
               else Inr c) (\<lambda>c.
     let s = tx_control c; delay_until = cs_now s + tx_delay c in
     bind_res (tbl_emplace
                 \<lparr>gto_trx_id = tx_id c, gto_sender = 0, gto_sender_id = transaction_id_to_sender_id env (tx_id c),
                  gto_delay_until = delay_until,
                  gto_expiration = delay_until + deferred_trx_expiration_window (tx_config c) * 1000000,
                  gto_published = cs_now s, gto_packed_trx = pack (tx_trx c)\<rparr> (generated (cs_auth s))) (\<lambda>(_, t).
       Inr (c\<lparr>tx_control := s\<lparr>cs_auth := (cs_auth s)\<lparr>generated := t\<rparr>\<rparr>\<rparr>)))"


section \<open>Limits in range and the cached minimum\<close>

lemma safe_prop_range: "safe_prop uint64_t x n d False = Inr r \<Longrightarrow> 0 \<le> r \<and> r \<le> UINT64_MAX"
  by (auto simp: safe_prop_def downgrade_cast_def Let_def ty_max_def ty_min_def greater_int_t_def split: if_splits)

lemma safe_prop_ceil_range:
  assumes "safe_prop_ceil uint64_t x n d s = Inr r" and "0 \<le> x" and "0 \<le> n" and "0 \<le> d"
  shows "0 \<le> r \<and> r \<le> UINT64_MAX"
proof -
  have "0 \<le> x * n" using assms(2,3) by simp
  moreover have "0 \<le> v \<and> v \<le> UINT64_MAX" if "downgrade_cast uint64_t (greater_int_t uint64_t) w s = Inr v" for v w
    using that by (auto simp: downgrade_cast_def Let_def ty_max_def ty_min_def greater_int_t_def res_simps split: if_splits)
  ultimately show ?thesis
    using assms(1,4) by (fastforce simp: safe_prop_ceil_def Let_def bind_res_Inr ty_max_def split: if_splits)
qed

lemma foldl_min_le: "foldl (\<lambda>m b. min m (snd b)) u xs \<le> u \<and> (\<forall>b \<in> set xs. foldl (\<lambda>m b. min m (snd b)) u xs \<le> (snd b :: int))"
proof (induction xs arbitrary: u)
  case (Cons x xs)
  from Cons [of "min u (snd x)"] show ?case by auto
qed simp

lemma foldl_min_in: "foldl (\<lambda>m b. min m (snd b)) u xs = u \<or> (foldl (\<lambda>m b. min m (snd b)) u xs :: int) \<in> snd ` set xs"
proof (induction xs arbitrary: u)
  case (Cons x xs)
  from Cons [of "min u (snd x)"] show ?case by (auto simp: min_def split: if_splits)
qed simp

text \<open>The minimum, by lookups.\<close>

lemma min_over_eqI:
  assumes "fm_invar m" and "x \<le> UINT64_MAX" and le: "\<And>k v. fm_find m k = Some v \<Longrightarrow> x \<le> v"
    and "x = UINT64_MAX \<or> (\<exists>k. fm_find m k = Some x)"
  shows "x = min_over m"
proof (rule antisym)
  have "min_over m = UINT64_MAX \<or> (\<exists>k. fm_find m k = Some (min_over m))"
    using foldl_min_in [of UINT64_MAX m] fm_find_Some_iff [OF assms(1)] by (fastforce simp: min_over_def)
  then show "x \<le> min_over m" using assms(2) le by auto
  show "min_over m \<le> x"
    using assms(4) foldl_min_le [of UINT64_MAX m] fm_find_Some_iff [OF assms(1)] by (fastforce simp: min_over_def)
qed

lemma min_over_le:
  assumes "fm_invar m"
  shows "min_over m \<le> UINT64_MAX" and "fm_find m k = Some v \<Longrightarrow> min_over m \<le> v"
    and "min_over m = UINT64_MAX \<or> (\<exists>k. fm_find m k = Some (min_over m))"
  using foldl_min_le [of UINT64_MAX m] foldl_min_in [of UINT64_MAX m] fm_find_Some_iff [OF assms]
  by (fastforce simp: min_over_def)+

lemma min_over_snoc: "min_over (xs @ [(a, b)]) = min (min_over xs) b"
  by (simp add: min_over_def)

definition tx_limits_ok :: "('k, 'h, 'd, 'g) transaction_context \<Rightarrow> bool" where
  "tx_limits_ok c \<longleftrightarrow>
     fm_invar (cpu_limits c) \<and> (\<forall>k v. fm_find (cpu_limits c) k = Some v \<longrightarrow> 0 \<le> v \<and> v \<le> UINT64_MAX) \<and>
     min_cpu_limit c = min_over (cpu_limits c)"

definition prices_ok :: "ratio list \<Rightarrow> bool" where
  "prices_ok ps \<longleftrightarrow> (\<forall>i < length ps. 0 \<le> numerator (ps ! i) \<and> 0 \<le> denominator (ps ! i))"

lemma min_over_set:
  assumes m: "fm_invar m" "fm_find m k = Some l" and v: "0 \<le> v" "v \<le> UINT64_MAX" and "v \<le> l \<or> l \<noteq> min_over m"
  shows "min v (min_over m) = min_over (fm_set k v m)"
proof (rule min_over_eqI)
  show "fm_invar (fm_set k v m)" by (rule fm_invar_set [OF m(1)])
  show "min v (min_over m) \<le> UINT64_MAX" using v by simp
  show "\<And>j w. fm_find (fm_set k v m) j = Some w \<Longrightarrow> min v (min_over m) \<le> w"
    using min_over_le(2) [OF m(1)] by (auto simp: min_le_iff_disj split: if_splits)
  have ml: "min_over m \<le> l" by (rule min_over_le(2) [OF m])
  show "min v (min_over m) = UINT64_MAX \<or> (\<exists>j. fm_find (fm_set k v m) j = Some (min v (min_over m)))"
  proof (cases "v \<le> min_over m")
    case True
    then show ?thesis by (intro disjI2 exI [of _ k]) simp
  next
    case False
    then have "l \<noteq> min_over m" using assms(5) ml by auto
    then have "j \<noteq> k" if "fm_find m j = Some (min_over m)" for j using that m(2) by auto
    then show ?thesis using min_over_le(3) [OF m(1)] False by (auto simp: min_def)
  qed
qed

lemma update_storage_usage_cases:
  assumes p: "prices_ok (tx_pricelist c)" and u: "update_storage_usage storage c = Inr c'"
  obtains "c' = c"
  | lim cpu lim' where "fm_find (cpu_limits c) (sp_payer storage) = Some lim" and "0 \<le> cpu" and "sp_delta storage \<noteq> 0"
      and "if sp_delta storage > 0 then cpu \<le> lim \<and> lim' = lim - cpu
           else lim' = (if UINT64_MAX - lim > cpu then lim + cpu else UINT64_MAX)"
      and "c' = c\<lparr>cpu_limits := fm_set (sp_payer storage) lim' (cpu_limits c),
             min_cpu_limit := (if lim = min_cpu_limit c \<and> sp_delta storage < 0
                               then min_over (fm_set (sp_payer storage) lim' (cpu_limits c)) else min lim' (min_cpu_limit c))\<rparr>"
proof (cases "explicit_billed_cpu_time c \<or> sp_delta storage = 0 \<or> fm_find (cpu_limits c) (sp_payer storage) = None")
  case True
  then have "c' = c" using u unfolding update_storage_usage_def by (elim disjE) (simp_all split: if_splits)
  then show ?thesis by (rule that(1))
next
  case False
  then obtain lim where l: "fm_find (cpu_limits c) (sp_payer storage) = Some lim" by auto
  from u False l obtain sp cp cost cpu lim' where i: "vec_at (tx_pricelist c) STORAGE = Inr sp" "vec_at (tx_pricelist c) CPU = Inr cp"
    and cost: "safe_prop_ceil uint64_t \<bar>sp_delta storage\<bar> (numerator sp) (denominator sp) True = Inr cost"
    and cpu: "(if cost \<noteq> 0 then if numerator cp \<noteq> 0 then safe_prop_ceil uint64_t cost (denominator cp) (numerator cp) False
               else Inr UINT64_MAX else Inr 0) = Inr cpu"
    and lim': "(if sp_delta storage > 0 then bind_res (eos_assert (lim \<ge> cpu) Account_resources_exceeded) (\<lambda>_. Inr (lim - cpu))
               else Inr (if UINT64_MAX - lim > cpu then lim + cpu else UINT64_MAX)) = Inr lim'"
    and c': "c' = c\<lparr>cpu_limits := fm_set (sp_payer storage) lim' (cpu_limits c),
             min_cpu_limit := (if lim = min_cpu_limit c \<and> sp_delta storage < 0
                               then min_over (fm_set (sp_payer storage) lim' (cpu_limits c)) else min lim' (min_cpu_limit c))\<rparr>"
    unfolding update_storage_usage_def by (simp add: bind_res_Inr Let_def del: One_nat_def) (elim exE conjE, simp split: if_splits)
  have pr: "0 \<le> numerator sp" "0 \<le> denominator sp" "0 \<le> numerator cp" "0 \<le> denominator cp"
    using i p by (auto simp: vec_at_Inr prices_ok_def)
  have "0 \<le> cost" using safe_prop_ceil_range [OF cost] pr by simp
  then have "0 \<le> cpu" using cpu safe_prop_ceil_range [of cost "denominator cp" "numerator cp" False cpu] pr by (auto split: if_splits)
  then show ?thesis by (rule that(2) [OF l]) (use lim' False c' in \<open>auto simp: res_simps split: if_splits\<close>)
qed

lemma update_storage_usage_ok:
  assumes ok: "tx_limits_ok c" and p: "prices_ok (tx_pricelist c)" and u: "update_storage_usage storage c = Inr c'"
  shows "tx_limits_ok c'" and "\<exists>lims mn. c' = c\<lparr>cpu_limits := lims, min_cpu_limit := mn\<rparr> \<and> fst ` set lims = fst ` set (cpu_limits c)"
proof -
  have "tx_limits_ok c' \<and> (\<exists>lims mn. c' = c\<lparr>cpu_limits := lims, min_cpu_limit := mn\<rparr> \<and> fst ` set lims = fst ` set (cpu_limits c))"
    using p u
  proof (cases rule: update_storage_usage_cases)
    case 1
    have "c = c\<lparr>cpu_limits := cpu_limits c, min_cpu_limit := min_cpu_limit c\<rparr>" by simp
    then show ?thesis using ok 1 by metis
  next
    case (2 lim cpu lim')
    let ?k = "sp_payer storage" and ?m = "cpu_limits c"
    have m: "fm_invar ?m" and r: "0 \<le> lim \<and> lim \<le> UINT64_MAX" and mn: "min_cpu_limit c = min_over ?m"
      using ok 2(1) by (auto simp: tx_limits_ok_def)
    have v: "0 \<le> lim' \<and> lim' \<le> UINT64_MAX" using 2(2,4) r by (auto split: if_splits)
    have "min_cpu_limit c' = min_over (fm_set ?k lim' ?m)"
    proof (cases "lim = min_cpu_limit c \<and> sp_delta storage < 0")
      case False
      then have "lim' \<le> lim \<or> lim \<noteq> min_over ?m" using 2(2-4) mn by (auto split: if_splits)
      with min_over_set [OF m 2(1)] v False show ?thesis by (simp add: 2(5) mn)
    qed (simp add: 2(5))
    moreover have "0 \<le> w \<and> w \<le> UINT64_MAX" if "fm_find (fm_set ?k lim' ?m) j = Some w" for j w
      using that v ok by (auto simp: tx_limits_ok_def split: if_splits)
    moreover have "fst ` set (fm_set ?k lim' ?m) = fst ` set ?m"
      using fm_find_SomeD [OF 2(1)] by (force simp: insert_absorb)
    ultimately have "tx_limits_ok c' \<and> fst ` set (fm_set ?k lim' ?m) = fst ` set ?m"
      using fm_invar_set [OF m] by (auto simp: tx_limits_ok_def 2(5))
    then show ?thesis using 2(5) by blast
  qed
  then show "tx_limits_ok c'" and "\<exists>lims mn. c' = c\<lparr>cpu_limits := lims, min_cpu_limit := mn\<rparr> \<and> fst ` set lims = fst ` set (cpu_limits c)" by auto
qed


lemma net_loop:
  "fold_res (\<lambda>(a, b) (lims, mn).
       bind_res (eos_assert (b \<ge> cpu) e) (\<lambda>_. Inr (lims @ [(a, b - cpu)], min mn (b - cpu)))) xs (acc, min_over acc)
   = (if \<forall>b \<in> set xs. cpu \<le> snd b
      then Inr (acc @ map (\<lambda>(a, b). (a, b - cpu)) xs, min_over (acc @ map (\<lambda>(a, b). (a, b - cpu)) xs)) else Inl e)"
proof (induction xs arbitrary: acc)
  case (Cons x xs)
  obtain a b where x: "x = (a, b)" by force
  show ?case using Cons [of "acc @ [(a, b - cpu)]"] by (simp add: x eos_assert_def min_over_snoc)
qed simp

lemma fm_find_map_snd: "fm_find (map (\<lambda>(a, b). (a, f b)) m) k = map_option f (fm_find m k)"
  by (induction m k rule: fm_find.induct) auto

lemma fm_invar_map_snd: "fm_invar (map (\<lambda>(a, b). (a, f b)) m) \<longleftrightarrow> fm_invar m"
proof -
  have "map fst (map (\<lambda>(a, b). (a, f b)) m) = map fst m" by (induction m) auto
  then show ?thesis by (simp only: fm_invar_def)
qed

text \<open>The consistency check in the loop over the limits never fails.\<close>

lemma available_add_net_usage_ok:
  assumes ok: "tx_limits_ok c" and p: "prices_ok (tx_pricelist c)" and "0 \<le> delta"
  shows "available_add_net_usage delta c \<noteq> Inl Transaction_exception"
    and "available_add_net_usage delta c = Inr c' \<Longrightarrow> tx_limits_ok c' \<and> (\<exists>lims mn. c' = c\<lparr>cpu_limits := lims, min_cpu_limit := mn\<rparr> \<and> fst ` set lims = fst ` set (cpu_limits c))"
proof -
  have m: "fm_invar (cpu_limits c)" and mn: "min_cpu_limit c = min_over (cpu_limits c)" using ok by (auto simp: tx_limits_ok_def)
  have le: "\<forall>b \<in> set (cpu_limits c). cpu \<le> snd b" if "cpu \<le> min_cpu_limit c" for cpu
    using that min_over_le(2) [OF m] fm_find_Some_iff [OF m] by (fastforce simp: mn)
  have loop: "fold_res (\<lambda>(a, b) (lims, mn).
       bind_res (eos_assert (b \<ge> cpu) Transaction_exception) (\<lambda>_. Inr (lims @ [(a, b - cpu)], min mn (b - cpu))))
       (cpu_limits c) ([], UINT64_MAX)
     = Inr (map (\<lambda>(a, b). (a, b - cpu)) (cpu_limits c), min_over (map (\<lambda>(a, b). (a, b - cpu)) (cpu_limits c)))"
    if "cpu \<le> min_cpu_limit c" for cpu
    using net_loop [of cpu Transaction_exception "cpu_limits c" "[]"] le [OF that] by (simp add: min_over_def)
  have c: "c = c\<lparr>cpu_limits := cpu_limits c, min_cpu_limit := min_cpu_limit c\<rparr>" by simp
  have safe: "safe_prop_ceil uint64_t x n d s \<noteq> Inl Transaction_exception" for x n d s
    by (auto simp: safe_prop_ceil_def downgrade_cast_def Let_def res_simps)
  show "available_add_net_usage delta c \<noteq> Inl Transaction_exception"
    using assms(3) safe by (auto simp: available_add_net_usage_def res_simps loop vec_at_def split: if_splits)
  show "tx_limits_ok c' \<and> (\<exists>lims mn. c' = c\<lparr>cpu_limits := lims, min_cpu_limit := mn\<rparr> \<and> fst ` set lims = fst ` set (cpu_limits c))"
    if a: "available_add_net_usage delta c = Inr c'"
  proof (cases "c' = c")
    case True
    then show ?thesis using ok c by metis
  next
    case False
    then obtain cp np cost cpu where i: "vec_at (tx_pricelist c) NET = Inr np" "vec_at (tx_pricelist c) CPU = Inr cp"
      and cost: "safe_prop_ceil uint64_t delta (numerator np) (denominator np) True = Inr cost"
      and cpu: "safe_prop_ceil uint64_t cost (denominator cp) (numerator cp) False = Inr cpu" "cpu \<le> min_cpu_limit c"
      and c': "c' = c\<lparr>cpu_limits := map (\<lambda>(a, b). (a, b - cpu)) (cpu_limits c),
                       min_cpu_limit := min_over (map (\<lambda>(a, b). (a, b - cpu)) (cpu_limits c))\<rparr>"
      using a by (auto simp: available_add_net_usage_def res_simps loop split: if_splits)
    have pr: "0 \<le> numerator np" "0 \<le> denominator np" "0 \<le> numerator cp" "0 \<le> denominator cp"
      using i p by (auto simp: vec_at_Inr prices_ok_def)
    have "0 \<le> cpu" using safe_prop_ceil_range [OF cost assms(3)] safe_prop_ceil_range [OF cpu(1)] pr by simp
    moreover have "cpu \<le> v" if "fm_find (cpu_limits c) k = Some v" for k v
      using min_over_le(2) [OF m that] cpu(2) by (simp add: mn)
    ultimately have "tx_limits_ok c'"
      using ok by (fastforce simp: tx_limits_ok_def c' fm_invar_map_snd fm_find_map_snd)
    moreover have "fst ` set (map (\<lambda>(a, b). (a, b - cpu)) (cpu_limits c)) = fst ` set (cpu_limits c)" by force
    ultimately show ?thesis using c' by blast
  qed
qed

lemma sum_deltas_set:
  "fm_invar m \<Longrightarrow> sum_list (map snd (fm_set k v m)) =
     sum_list (map snd m) + v - (case fm_find m k of Some d \<Rightarrow> d | None \<Rightarrow> (0 :: int))"
proof (induction k v m rule: fm_set.induct)
  case (2 k v a w m)
  then show ?case by (auto simp: fm_invar_Cons fm_find_less split: option.split)
qed simp

lemma to_int64_id: "- (2 ^ 63) \<le> x \<Longrightarrow> x < 2 ^ 63 \<Longrightarrow> to_int64 x = x"
  by (simp add: to_int64_def)

lemma hl_check_Inr: "hl_check skip h x = Inr u \<Longrightarrow> \<not> skip \<Longrightarrow> x \<le> 0 \<or> x \<le> hl_max h"
  by (auto simp: hl_check_def split: if_splits)

text \<open>The timer touches neither limits nor usage.\<close>

lemma reset_billing_timer_simps [simp]:
  "tx_control (reset_billing_timer nows c) = tx_control c"
  "tx_trx (reset_billing_timer nows c) = tx_trx c"
  "tx_id (reset_billing_timer nows c) = tx_id c"
  "hard_limits (reset_billing_timer nows c) = hard_limits c"
  "bill_to_accounts (reset_billing_timer nows c) = bill_to_accounts c"
  "accounts_storage_deltas (reset_billing_timer nows c) = accounts_storage_deltas c"
  "tx_pricelist (reset_billing_timer nows c) = tx_pricelist c"
  "is_input (reset_billing_timer nows c) = is_input c"
  "billed_cpu_time_us (reset_billing_timer nows c) = billed_cpu_time_us c"
  "explicit_billed_cpu_time (reset_billing_timer nows c) = explicit_billed_cpu_time c"
  "billed_ram_bytes (reset_billing_timer nows c) = billed_ram_bytes c"
  "explicit_billed_ram_bytes (reset_billing_timer nows c) = explicit_billed_ram_bytes c"
  "storage_providers (reset_billing_timer nows c) = storage_providers c"
  "is_initialized (reset_billing_timer nows c) = is_initialized c"
  "net_usage (reset_billing_timer nows c) = net_usage c"
  "storage_bytes (reset_billing_timer nows c) = storage_bytes c"
  "cpu_limits (reset_billing_timer nows c) = cpu_limits c"
  "min_cpu_limit (reset_billing_timer nows c) = min_cpu_limit c"
  by (simp_all add: reset_billing_timer_def resume_billing_timer_def pause_billing_timer_def Let_def)


section \<open>Any use of resources\<close>

text \<open>The calls by which the execution of actions uses resources, and their readings of the clock.\<close>

datatype usage_event =
    Net_usage "int \<times> int" int
  | Storage_usage "int \<times> int" storage_payer_info
  | Pause_timer int
  | Resume_timer int

definition usage_step ::
  "usage_event \<Rightarrow> ('k, 'h, 'd, 'g) transaction_context \<Rightarrow> ('k, 'h, 'd, 'g) transaction_context res" where
  "usage_step ev c =
     (case ev of
        Net_usage nows u \<Rightarrow> add_net_usage nows u c
      | Storage_usage nows storage \<Rightarrow> add_storage_usage nows storage c
      | Pause_timer now \<Rightarrow> Inr (pause_billing_timer now c)
      | Resume_timer now \<Rightarrow> Inr (resume_billing_timer now c))"

text \<open>The code adds message sizes, which are 32-bit numbers.\<close>

definition event_ok :: "usage_event \<Rightarrow> bool" where
  "event_ok ev \<longleftrightarrow> (case ev of Net_usage _ u \<Rightarrow> 0 \<le> u \<and> u < 2 ^ 62 | _ \<Rightarrow> True)"

text \<open>
  The books of a transaction: limits in range with the right minimum, the storage total is the sum of
  the deltas of the payers, and the network usage is within its limit.
\<close>

definition billing_ok :: "('k, 'h, 'd, 'g) transaction_context \<Rightarrow> bool" where
  "billing_ok c \<longleftrightarrow>
     tx_limits_ok c \<and> prices_ok (tx_pricelist c) \<and>
     fm_invar (accounts_storage_deltas c) \<and> storage_bytes c = sum_list (map snd (accounts_storage_deltas c)) \<and>
     0 \<le> net_usage c \<and> (\<not> tx_skip c \<longrightarrow> hl_max (hl_at NET c) < 2 ^ 62 \<and> net_usage c \<le> hl_max (hl_at NET c))"

definition tx_setup where
  "tx_setup c = (tx_control c, tx_trx c, hard_limits c, bill_to_accounts c, tx_pricelist c, storage_providers c,
                 is_initialized c, is_input c, explicit_billed_cpu_time c, billed_ram_bytes c, explicit_billed_ram_bytes c, fst ` set (cpu_limits c))"

lemma limits_ok_cong: "cpu_limits c' = cpu_limits c \<Longrightarrow> min_cpu_limit c' = min_cpu_limit c \<Longrightarrow> tx_limits_ok c' \<longleftrightarrow> tx_limits_ok c"
  by (simp add: tx_limits_ok_def)

lemma add_net_usage_ok:
  assumes ok: "billing_ok c" and u: "0 \<le> u" "u < 2 ^ 62" and run: "add_net_usage nows u c = Inr c'"
  shows "billing_ok c'" and "tx_setup c' = tx_setup c"
    and "net_usage c' = to_uint64 (net_usage c + u)" and "accounts_storage_deltas c' = accounts_storage_deltas c"
proof -
  let ?c = "c\<lparr>net_usage := to_uint64 (net_usage c + u)\<rparr>"
  obtain c1 where h: "hl_check (tx_skip c) (hl_at NET c) (to_int64 (to_uint64 (net_usage c + u))) = Inr ()"
    and a: "available_add_net_usage u ?c = Inr c1" and c': "c' = reset_billing_timer nows c1"
    using run u by (auto simp: add_net_usage_def Let_def bind_res_Inr to_int64_id)
  have l: "tx_limits_ok ?c" and p: "prices_ok (tx_pricelist ?c)" using ok by (simp_all add: billing_ok_def tx_limits_ok_def)
  obtain lims mn where c1: "tx_limits_ok c1" "c1 = ?c\<lparr>cpu_limits := lims, min_cpu_limit := mn\<rparr>"
      "fst ` set lims = fst ` set (cpu_limits c)"
    using available_add_net_usage_ok(2) [OF l p u(1) a] by auto
  have net: "to_uint64 (net_usage c + u) \<le> hl_max (hl_at NET c)" if "\<not> tx_skip c"
  proof -
    have n: "0 \<le> net_usage c" "net_usage c < 2 ^ 62" "net_usage c \<le> hl_max (hl_at NET c)"
      using ok that by (auto simp: billing_ok_def)
    then have "to_int64 (to_uint64 (net_usage c + u)) = net_usage c + u" "to_uint64 (net_usage c + u) = net_usage c + u"
      using u by (simp_all add: to_uint64_def to_int64_def)
    then show ?thesis using hl_check_Inr [OF h that] n u by auto
  qed
  have "tx_limits_ok c'" using c1(1) by (simp add: c' tx_limits_ok_def)
  then show "billing_ok c'" using ok net by (simp add: billing_ok_def c' c1(2) to_uint64_def)
  show "tx_setup c' = tx_setup c" "net_usage c' = to_uint64 (net_usage c + u)"
    "accounts_storage_deltas c' = accounts_storage_deltas c" using c1(3) by (simp_all add: tx_setup_def c' c1(2))
qed

lemma add_storage_usage_ok:
  assumes ok: "billing_ok c" and run: "add_storage_usage nows storage c = Inr c'"
  shows "billing_ok c'" and "tx_setup c' = tx_setup c"
proof -
  have "billing_ok c' \<and> tx_setup c' = tx_setup c"
  proof (cases "c' = c")
    case False
    let ?d = "case fm_find (accounts_storage_deltas c) (sp_payer storage) of Some d \<Rightarrow> d | None \<Rightarrow> 0"
    let ?c = "c\<lparr>storage_bytes := storage_bytes c + sp_delta storage,
                accounts_storage_deltas := fm_set (sp_payer storage) (?d + sp_delta storage) (accounts_storage_deltas c)\<rparr>"
    obtain c1 where a: "update_storage_usage storage ?c = Inr c1" and c': "c' = reset_billing_timer nows c1"
      using run False by (auto simp: add_storage_usage_def Let_def bind_res_Inr add_int64_def split: if_splits)
    have l: "tx_limits_ok ?c" and p: "prices_ok (tx_pricelist ?c)" using ok by (simp_all add: billing_ok_def tx_limits_ok_def)
    obtain lims mn where c1: "tx_limits_ok c1" "c1 = ?c\<lparr>cpu_limits := lims, min_cpu_limit := mn\<rparr>"
      "fst ` set lims = fst ` set (cpu_limits c)"
      using update_storage_usage_ok [OF l p a] by auto
    have "tx_limits_ok c'" using c1(1) by (simp add: c' tx_limits_ok_def)
    moreover have "fm_invar (accounts_storage_deltas c)" "storage_bytes c = sum_list (map snd (accounts_storage_deltas c))"
      using ok by (auto simp: billing_ok_def)
    ultimately show ?thesis
      using ok sum_deltas_set [of "accounts_storage_deltas c" "sp_payer storage" "?d + sp_delta storage"]
      using c1(3) by (simp add: billing_ok_def tx_setup_def c' c1(2) fm_invar_set)
  qed (use ok in simp)
  then show "billing_ok c'" and "tx_setup c' = tx_setup c" by auto
qed

lemma usage_step_ok:
  assumes "billing_ok c" and "event_ok ev" and "usage_step ev c = Inr c'"
  shows "billing_ok c' \<and> tx_setup c' = tx_setup c"
proof (cases ev)
  case (Net_usage nows u)
  then show ?thesis using assms add_net_usage_ok(1,2) [of c u nows c'] by (simp add: usage_step_def event_ok_def)
next
  case (Storage_usage nows storage)
  then show ?thesis using assms add_storage_usage_ok [of c nows storage c'] by (simp add: usage_step_def)
next
  case (Pause_timer now)
  then have "c' = pause_billing_timer now c" using assms(3) by (simp add: usage_step_def)
  then show ?thesis using assms(1) by (simp add: pause_billing_timer_def billing_ok_def tx_setup_def tx_limits_ok_def)
next
  case (Resume_timer now)
  then have "c' = resume_billing_timer now c" using assms(3) by (simp add: usage_step_def)
  then show ?thesis using assms(1) by (simp add: resume_billing_timer_def Let_def billing_ok_def tx_setup_def tx_limits_ok_def)
qed

lemma usage_events_ok:
  assumes "billing_ok c" and "\<forall>ev \<in> set evs. event_ok ev" and "fold_res usage_step evs c = Inr c'"
  shows "billing_ok c' \<and> tx_setup c' = tx_setup c"
  by (rule fold_res_invariant [OF assms(3), where P = "\<lambda>d. billing_ok d \<and> tx_setup d = tx_setup c"])
    (use assms(1,2) usage_step_ok in auto)


section \<open>Initialization\<close>

definition fresh :: "('k, 'h, 'd, 'g) transaction_context \<Rightarrow> bool" where
  "fresh c \<longleftrightarrow> length (hard_limits c) = resources_num \<and> bill_to_accounts c = [] \<and> cpu_limits c = [] \<and> storage_providers c = [] \<and>
     accounts_storage_deltas c = [] \<and> storage_bytes c = 0 \<and> net_usage c = 0"

lemma new_transaction_context_fresh: "new_transaction_context s trx i start = Inr c \<Longrightarrow> fresh c"
  by (auto simp: new_transaction_context_def fresh_def new_hard_limits_def resources_num_def res_simps)

text \<open>The limit of a resource is below what the block has left and what the configuration and the header allow.\<close>

definition limit_within :: "int \<Rightarrow> int \<Rightarrow> hard_limit \<Rightarrow> bool" where
  "limit_within block_limit max_usage h \<longleftrightarrow> hl_max h \<le> block_limit \<and> (max_usage \<noteq> 0 \<longrightarrow> hl_max h \<le> max_usage)"

lemma hl_update_le: "hl_max (hl_update l h) \<le> hl_max h" "l \<noteq> 0 \<Longrightarrow> hl_max (hl_update l h) \<le> l"
  by (auto simp: hl_update_def)

lemma limit_within_update: "limit_within b m h \<Longrightarrow> limit_within b m (hl_update l h)"
  using hl_update_le(1) [of l h] by (auto simp: limit_within_def)

lemma limit_within_init: "limit_within b m (hl_update m (hl_init b h))"
  using hl_update_le [of m "hl_init b h"] by (auto simp: limit_within_def hl_init_def)

lemma limit_within_round: "0 \<le> hl_max h \<Longrightarrow> limit_within b m h \<Longrightarrow> limit_within b m (h\<lparr>hl_max := hl_max h div 8 * 8\<rparr>)"
  using div_times_less_eq_dividend [of "nat (hl_max h)" 8] by (auto simp: limit_within_def)

lemma hl_update_nonneg: "0 \<le> hl_max h \<Longrightarrow> 0 \<le> l \<Longrightarrow> 0 \<le> hl_max (hl_update l h)"
  by (simp add: hl_update_def)

lemma get_block_limit_nonneg: "get_block_limit i cfg db = Inr b \<Longrightarrow> 0 \<le> b \<and> i < length (max_block_usage cfg) \<and> b \<le> max_block_usage cfg ! i"
  by (auto simp: get_block_limit_def res_simps Let_def)

definition limit_ok :: "chain_config \<Rightarrow> 'g resource_db \<Rightarrow> nat \<Rightarrow> hard_limit \<Rightarrow> bool" where
  "limit_ok cfg db i h \<longleftrightarrow>
     (\<exists>b m. get_block_limit i cfg db = Inr b \<and> vec_at (max_transaction_usage cfg) i = Inr m \<and> limit_within b m h \<and> 0 \<le> hl_max h)"

definition hard_limits_ok :: "chain_config \<Rightarrow> 'g resource_db \<Rightarrow> hard_limit list \<Rightarrow> bool" where
  "hard_limits_ok cfg db hl \<longleftrightarrow> length hl = resources_num \<and> (\<forall>j < resources_num. limit_ok cfg db j (hl ! j))"

lemma hard_limits_ok_set: "hard_limits_ok cfg db hl \<Longrightarrow> limit_ok cfg db k h \<Longrightarrow> hard_limits_ok cfg db (hl[k := h])"
  by (cases "k < length hl") (auto simp: hard_limits_ok_def nth_list_update list_update_beyond)

lemma hard_limits_ok_update:
  assumes "hard_limits_ok cfg db hl" and "k < resources_num" and "0 \<le> v"
  shows "hard_limits_ok cfg db (hl[k := hl_update v (hl ! k)])"
proof -
  have "limit_ok cfg db k (hl ! k)" using assms(1,2) by (simp add: hard_limits_ok_def)
  then have "limit_ok cfg db k (hl_update v (hl ! k))"
    using limit_within_update hl_update_nonneg assms(3) unfolding limit_ok_def by blast
  then show ?thesis by (rule hard_limits_ok_set [OF assms(1)])
qed

lemma init_limits_loop:
  assumes f: "fold_res (\<lambda>i hl.
         bind_res (get_block_limit i cfg db) (\<lambda>bl.
         bind_res (vec_at (max_transaction_usage cfg) i) (\<lambda>mx.
           Inr (hl[i := hl_update mx (hl_init bl (hl ! i))])))) [0..<resources_num] hl0 = Inr hl"
    and "length hl0 = resources_num" and nonneg: "\<forall>m \<in> set (max_transaction_usage cfg). 0 \<le> m"
  shows "hard_limits_ok cfg db hl"
  unfolding hard_limits_ok_def
proof (rule fold_res_upt [OF f, where P = "\<lambda>n hl. length hl = resources_num \<and> (\<forall>j < n. limit_ok cfg db j (hl ! j))"])
  fix i hl hl'
  assume i: "i < resources_num" and P: "length hl = resources_num \<and> (\<forall>j < i. limit_ok cfg db j (hl ! j))"
    and s: "bind_res (get_block_limit i cfg db) (\<lambda>bl. bind_res (vec_at (max_transaction_usage cfg) i) (\<lambda>mx.
           Inr (hl[i := hl_update mx (hl_init bl (hl ! i))]))) = Inr hl'"
  obtain b m where b: "get_block_limit i cfg db = Inr b" and m: "vec_at (max_transaction_usage cfg) i = Inr m"
    and hl': "hl' = hl[i := hl_update m (hl_init b (hl ! i))]" using s by (auto simp: bind_res_Inr)
  have "0 \<le> hl_max (hl_update m (hl_init b (hl ! i)))"
    using get_block_limit_nonneg [OF b] m nonneg by (intro hl_update_nonneg) (auto simp: hl_init_def vec_at_Inr)
  then have "limit_ok cfg db i (hl' ! i)" using b m limit_within_init [of b m "hl ! i"] i P by (simp add: hl' limit_ok_def)
  then show "length hl' = resources_num \<and> (\<forall>j < Suc i. limit_ok cfg db j (hl' ! j))" using P by (auto simp: hl' less_Suc_eq)
qed (use assms(2) in simp)

lemma init_hard_limits_ok:
  assumes "init_hard_limits c = Inr c'" and "length (hard_limits c) = resources_num"
    and nonneg: "\<forall>m \<in> set (max_transaction_usage (tx_config c)). 0 \<le> m"
  obtains hl where "c' = c\<lparr>hard_limits := hl\<rparr>" and "hard_limits_ok (tx_config c) (cs_res (tx_control c)) hl"
proof -
  let ?ok = "hard_limits_ok (tx_config c) (cs_res (tx_control c))" and ?t = "tx_trx c"
  obtain h0 where f: "fold_res (\<lambda>i hl.
         bind_res (get_block_limit i (tx_config c) (cs_res (tx_control c))) (\<lambda>bl.
         bind_res (vec_at (max_transaction_usage (tx_config c)) i) (\<lambda>mx.
           Inr (hl[i := hl_update mx (hl_init bl (hl ! i))])))) [0..<resources_num] (hard_limits c) = Inr h0"
    using assms(1) by (auto simp: init_hard_limits_def bind_res_Inr)
  define h1 where "h1 = h0[CPU := hl_update (uint (max_cpu_usage_ms ?t) * 1000) (h0 ! CPU)]"
  define h2 where "h2 = h1[NET := hl_update (uint (max_net_usage_words ?t) * 8) (h1 ! NET)]"
  define h3 where "h3 = h2[RAM := hl_update (uint (max_ram_kbytes ?t) * 1024) (h2 ! RAM)]"
  define h4 where "h4 = h3[STORAGE := hl_update (uint (max_storage_kbytes ?t) * 1024) (h3 ! STORAGE)]"
  define h5 where "h5 = h4[NET := (h4 ! NET)\<lparr>hl_max := hl_max (h4 ! NET) div 8 * 8\<rparr>]"
  have "?ok h0" by (rule init_limits_loop [OF f assms(2) nonneg])
  then have "?ok h1" unfolding h1_def by (rule hard_limits_ok_update) (simp_all add: resources_num_def)
  then have "?ok h2" unfolding h2_def by (rule hard_limits_ok_update) (simp_all add: resources_num_def)
  then have "?ok h3" unfolding h3_def by (rule hard_limits_ok_update) (simp_all add: resources_num_def)
  then have o4: "?ok h4" unfolding h4_def by (rule hard_limits_ok_update) (simp_all add: resources_num_def)
  then have "limit_ok (tx_config c) (cs_res (tx_control c)) NET (h4 ! NET)" by (simp add: hard_limits_ok_def resources_num_def)
  then have "limit_ok (tx_config c) (cs_res (tx_control c)) NET ((h4 ! NET)\<lparr>hl_max := hl_max (h4 ! NET) div 8 * 8\<rparr>)"
    unfolding limit_ok_def using limit_within_round [of "h4 ! NET"] by (auto simp del: One_nat_def)
  from hard_limits_ok_set [OF o4 this] have "?ok h5" by (simp add: h5_def)
  moreover have "c' = c\<lparr>hard_limits := h5\<rparr>"
    using assms(1) f by (simp add: init_hard_limits_def Let_def h1_def h2_def h3_def h4_def h5_def)
  ultimately show ?thesis using that by blast
qed


text \<open>The accounts billed are the actors of the transaction without the accounts that have a provider.\<close>

definition actors_of :: "'d transaction \<Rightarrow> (64 word) set" where
  "actors_of trx = (\<Union>act \<in> set (trx_actions trx). actor ` set (act_authorization act))"

lemma fold_insort_insert:
  "sorted xs \<Longrightarrow> distinct xs \<Longrightarrow> sorted (fold insort_insert ys xs) \<and> distinct (fold insort_insert ys xs) \<and>
     set (fold insort_insert ys xs) = set ys \<union> set xs"
  by (induction ys arbitrary: xs) (auto simp: sorted_insort_insert distinct_insort_insert set_insort_insert)

lemma fold_remove1:
  "sorted xs \<Longrightarrow> distinct xs \<Longrightarrow> sorted (fold remove1 ys xs) \<and> distinct (fold remove1 ys xs) \<and>
     set (fold remove1 ys xs) = set xs - set ys"
  by (induction ys arbitrary: xs) (auto simp: sorted_remove1)

lemma collect_billing_ok:
  assumes run: "collect_billing unpack c = Inr c'" and "bill_to_accounts c = []" and "storage_providers c = []"
  obtains bta sp where "c' = c\<lparr>storage_providers := sp, bill_to_accounts := bta\<rparr>" and "fm_invar sp" and "distinct bta"
    and "set bta = actors_of (tx_trx c) - fst ` set sp"
proof -
  let ?f = "\<lambda>act c.
         bind_res (if act_account act = system_account_name \<and> act_name act = providebw_name
                   then bind_res (unpack (act_data act)) (\<lambda>bw. add_storage_provider bw c)
                   else Inr c) (\<lambda>c.
           Inr (c\<lparr>bill_to_accounts := fold insort_insert (map actor (act_authorization act)) (bill_to_accounts c)\<rparr>))"
  obtain d where d: "fold_res ?f (trx_actions (tx_trx c)) c = Inr d"
    and c': "c' = d\<lparr>bill_to_accounts := fold remove1 (map fst (storage_providers d)) (bill_to_accounts d)\<rparr>"
    using run by (auto simp: collect_billing_def bind_res_Inr)
  have "\<exists>sp bta. d = c\<lparr>storage_providers := sp, bill_to_accounts := bta\<rparr> \<and> fm_invar sp \<and> sorted bta \<and> distinct bta \<and>
     set bta = (\<Union>act \<in> set acts. actor ` set (act_authorization act)) \<union> set bta0"
    if "fold_res ?f acts (c\<lparr>storage_providers := sp0, bill_to_accounts := bta0\<rparr>) = Inr d" "fm_invar sp0" "sorted bta0" "distinct bta0"
    for acts sp0 bta0
    using that
  proof (induction acts arbitrary: sp0 bta0)
    case (Cons act acts)
    obtain sp1 where s1: "?f act (c\<lparr>storage_providers := sp0, bill_to_accounts := bta0\<rparr>) =
        Inr (c\<lparr>storage_providers := sp1, bill_to_accounts := fold insort_insert (map actor (act_authorization act)) bta0\<rparr>)"
      and r: "fold_res ?f acts (c\<lparr>storage_providers := sp1, bill_to_accounts := fold insort_insert (map actor (act_authorization act)) bta0\<rparr>) = Inr d"
      and i: "fm_invar sp1"
      using Cons.prems(1,2) by (auto simp: add_storage_provider_def res_simps fm_invar_emplace split: if_splits)
    note srt = fold_insort_insert [OF Cons.prems(3,4), of "map actor (act_authorization act)"]
    obtain sp bta where x: "d = c\<lparr>storage_providers := sp, bill_to_accounts := bta\<rparr>" "fm_invar sp" "sorted bta" "distinct bta"
      "set bta = (\<Union>act \<in> set acts. actor ` set (act_authorization act)) \<union> set (fold insort_insert (map actor (act_authorization act)) bta0)"
      using Cons.IH [OF r i] srt by blast
    have "set bta = (\<Union>act \<in> set (act # acts). actor ` set (act_authorization act)) \<union> set bta0" using x(5) srt by auto
    with x(1-4) show ?case by blast
  next
    case Nil
    then have "d = c\<lparr>storage_providers := sp0, bill_to_accounts := bta0\<rparr>" by simp
    with Nil(2-4) show ?case by (intro exI [of _ sp0] exI [of _ bta0]) simp
  qed
  note collected = this
  have "c\<lparr>storage_providers := storage_providers c, bill_to_accounts := bill_to_accounts c\<rparr> = c" by simp
  note c0 = this [unfolded assms(2,3)]
  obtain sp bta
    where e: "d = c\<lparr>storage_providers := sp, bill_to_accounts := bta\<rparr>" "fm_invar sp" "sorted bta" "distinct bta"
      "set bta = actors_of (tx_trx c)"
    using collected [of "trx_actions (tx_trx c)" "[]" "[]", unfolded c0, OF d] unfolding actors_of_def by auto
  show ?thesis
    by (rule that [of "fold remove1 (map fst sp) bta" sp, OF _ e(2)])
      (use e(5) fold_remove1 [OF e(3,4), of "map fst sp"] in \<open>simp_all add: c' e(1)\<close>)
qed

lemma available_loop_ok:
  assumes "fold_res (\<lambda>a (rl, lims, mn).
          bind_res (get_account_balance fuel now a ps True rl) (\<lambda>(balance, rl).
          bind_res (if numerator cp \<noteq> 0 \<and> balance < UINT64_MAX
                    then safe_prop uint64_t balance (denominator cp) (numerator cp) False
                    else Inr UINT64_MAX) (\<lambda>lim.
            Inr (rl, fm_set a lim lims, min lim mn)))) as (rl, lims, mn) = Inr (rl', lims', mn')"
    and "distinct as" and "set as \<inter> fst ` set lims = {}" and "fm_invar lims" and "mn = min_over lims"
    and "\<forall>k v. fm_find lims k = Some v \<longrightarrow> 0 \<le> v \<and> v \<le> UINT64_MAX"
  shows "fm_invar lims' \<and> mn' = min_over lims' \<and> (\<forall>k v. fm_find lims' k = Some v \<longrightarrow> 0 \<le> v \<and> v \<le> UINT64_MAX) \<and>
     fst ` set lims' = set as \<union> fst ` set lims"
  using assms
proof (induction as arbitrary: rl lims mn)
  case (Cons a as)
  let ?g = "\<lambda>a (rl, lims, mn).
          bind_res (get_account_balance fuel now a ps True rl) (\<lambda>(balance, rl).
          bind_res (if numerator cp \<noteq> 0 \<and> balance < UINT64_MAX
                    then safe_prop uint64_t balance (denominator cp) (numerator cp) False
                    else Inr UINT64_MAX) (\<lambda>lim.
            Inr (rl, fm_set a lim lims, min lim mn)))"
  obtain st where g: "?g a (rl, lims, mn) = Inr st" and r': "fold_res ?g as st = Inr (rl', lims', mn')"
    using Cons.prems(1) unfolding fold_res.simps bind_res_Inr by blast
  obtain balance rl1 lim where l: "(if numerator cp \<noteq> 0 \<and> balance < UINT64_MAX
                    then safe_prop uint64_t balance (denominator cp) (numerator cp) False else Inr UINT64_MAX) = Inr lim"
    and st: "st = (rl1, fm_set a lim lims, min lim mn)"
    using g by (auto simp: bind_res_Inr)
  note r = r' [unfolded st]
  have lim: "0 \<le> lim" "lim \<le> UINT64_MAX" using l safe_prop_range [of balance "denominator cp" "numerator cp" lim] by (auto split: if_splits)
  have new: "fm_find lims a = None" using Cons.prems(3) by (auto simp: fm_find_None_iff)
  have "min lim mn = min_over (fm_set a lim lims)"
  proof (rule min_over_eqI)
    show "\<And>k v. fm_find (fm_set a lim lims) k = Some v \<Longrightarrow> min lim mn \<le> v"
      using min_over_le(2) [OF Cons.prems(4)] Cons.prems(5) by (auto simp: min_le_iff_disj split: if_splits)
    show "min lim mn = UINT64_MAX \<or> (\<exists>k. fm_find (fm_set a lim lims) k = Some (min lim mn))"
    proof (cases "lim \<le> mn")
      case False
      then have mn: "min lim mn = mn" by simp
      from min_over_le(3) [OF Cons.prems(4)] show ?thesis
      proof
        assume "min_over lims = UINT64_MAX"
        then show ?thesis unfolding mn by (simp add: Cons.prems(5))
      next
        assume "\<exists>k. fm_find lims k = Some (min_over lims)"
        then obtain k where k: "fm_find lims k = Some mn" by (auto simp: Cons.prems(5))
        with new have "k \<noteq> a" by auto
        with k show ?thesis unfolding mn by (intro disjI2 exI [of _ k]) simp
      qed
    qed (intro disjI2 exI [of _ a], simp)
  qed (use Cons.prems(4) lim in \<open>auto simp: fm_invar_set\<close>)
  note mn1 = this
  have r1: "\<forall>k v. fm_find (fm_set a lim lims) k = Some v \<longrightarrow> 0 \<le> v \<and> v \<le> UINT64_MAX"
    using Cons.prems(6) lim by (simp del: fm_find_set add: fm_find_set)
  have d: "distinct as" "set as \<inter> fst ` set (fm_set a lim lims) = {}" using Cons.prems(2,3) by auto
  have "fst ` set (fm_set a lim lims) = insert a (fst ` set lims)" by simp
  with Cons.IH [OF r d fm_invar_set [OF Cons.prems(4)] mn1 r1] show ?case by simp
qed simp

lemma configuration_kept:
  "add_account_usage a i u slot db = Inr db' \<Longrightarrow> configuration db' = configuration db"
  "get_account_balance fuel t a prices upd db = Inr (b, db') \<Longrightarrow> configuration db' = configuration db"
  by (auto simp: add_account_usage_def get_account_balance_def get_account_stake_ratio_def res_simps Let_def
      split: if_splits option.splits)

lemma update_account_usage_configuration:
  assumes "update_account_usage accs slot db = Inr db'"
  shows "configuration db' = configuration db"
  using assms unfolding update_account_usage_def
proof (rule fold_res_invariant [where P = "\<lambda>d. configuration d = configuration db"])
  fix a d d'
  assume "configuration d = configuration db" and "fold_res (\<lambda>i. add_account_usage a i 0 slot) [0..<resources_num] d = Inr d'"
  then show "configuration d' = configuration db"
    using fold_res_invariant [where P = "\<lambda>x. configuration x = configuration db", of "\<lambda>i. add_account_usage a i 0 slot" "[0..<resources_num]" d d']
      configuration_kept(1) by metis
qed simp

lemma available_init_ok:
  assumes run: "available_init fuel c = Inr c'" and "cpu_limits c = []" and "distinct (bill_to_accounts c)"
  obtains rl lims mn where "c' = c\<lparr>tx_control := (tx_control c)\<lparr>cs_res := rl\<rparr>, cpu_limits := lims, min_cpu_limit := mn\<rparr>"
    and "tx_limits_ok c'" and "fst ` set lims = set (bill_to_accounts c)" and "configuration rl = tx_config c"
proof -
  obtain cp rl1 where "vec_at (tx_pricelist c) CPU = Inr cp"
    and u: "update_account_usage (bill_to_accounts c) (uint (set_time_point (cs_now (tx_control c)))) (cs_res (tx_control c)) = Inr rl1"
    using run by (auto simp: available_init_def Let_def bind_res_Inr)
  with run obtain rl lims mn where f: "fold_res (\<lambda>a (rl, lims, mn).
          bind_res (get_account_balance fuel (cs_now (tx_control c)) a (tx_pricelist c) True rl) (\<lambda>(balance, rl).
          bind_res (if numerator cp \<noteq> 0 \<and> balance < UINT64_MAX
                    then safe_prop uint64_t balance (denominator cp) (numerator cp) False
                    else Inr UINT64_MAX) (\<lambda>lim.
            Inr (rl, fm_set a lim lims, min lim mn)))) (bill_to_accounts c) (rl1, cpu_limits c, UINT64_MAX) = Inr (rl, lims, mn)"
    and c': "c' = c\<lparr>tx_control := (tx_control c)\<lparr>cs_res := rl\<rparr>, cpu_limits := lims, min_cpu_limit := mn\<rparr>"
    by (auto simp: available_init_def Let_def bind_res_Inr)
  have "fm_invar lims \<and> mn = min_over lims \<and> (\<forall>k v. fm_find lims k = Some v \<longrightarrow> 0 \<le> v \<and> v \<le> UINT64_MAX) \<and>
     fst ` set lims = set (bill_to_accounts c) \<union> fst ` set (cpu_limits c)"
    by (rule available_loop_ok [OF f assms(3)]) (simp_all add: assms(2) min_over_def)
  moreover have "(\<lambda>(rl, lims, mn). configuration rl = tx_config c) (rl, lims, mn)"
    by (rule fold_res_invariant [OF f, where P = "\<lambda>(rl, lims, mn). configuration rl = tx_config c"])
      (use update_account_usage_configuration [OF u] in \<open>auto simp: bind_res_Inr dest!: configuration_kept(2)\<close>)
  ultimately show ?thesis by (intro that [OF c']) (simp_all add: c' tx_limits_ok_def assms(2))
qed

text \<open>The state from which prices are computed has no negative numbers.\<close>

definition price_state_ok :: "'g resource_db \<Rightarrow> bool" where
  "price_state_ok db \<longleftrightarrow> (\<forall>v \<in> set (virtual_limits (rl_state db)). 0 \<le> v) \<and>
     (\<forall>w \<in> set (account_usage_average_windows (rl_config db)). 0 \<le> w)"

lemma used_pcts_nonneg:
  assumes "used_pcts db = Inr up" and "i < length up"
  shows "0 \<le> up ! i"
proof -
  have "\<forall>u \<in> set up. 0 \<le> u"
    using assms(1) unfolding used_pcts_def
    by (rule fold_res_invariant [where P = "\<lambda>up. \<forall>u \<in> set up. 0 \<le> u"])
      (auto simp: res_simps min_resource_usage_pct_def percent_1_def dest!: set_update_subset_insert [THEN subsetD])
  with assms(2) show ?thesis by simp
qed

lemma get_pricelist_ok:
  assumes ok: "price_state_ok db" and run: "get_pricelist db = Inr ps"
  shows "prices_ok ps"
proof -
  have start: "prices_ok (replicate resources_num \<lparr>numerator = 0, denominator = 1\<rparr>)" by (simp add: prices_ok_def)
  obtain up where up: "used_pcts db = Inr up" using run by (auto simp: get_pricelist_def bind_res_Inr)
  show ?thesis
  proof (cases "staking db")
    case None
    then show ?thesis using run start up by (simp add: get_pricelist_def Let_def)
  next
    case (Some st)
    let ?sum = "to_uint64 (accumulate_int up)"
    have pos: "0 < st_total_staked st" and f: "fold_res (\<lambda>i ret.
                bind_res (vec_at (virtual_limits (rl_state db)) i) (\<lambda>vl.
                bind_res (vec_at (account_usage_average_windows (rl_config db)) i) (\<lambda>w.
                bind_res (vec_at up i) (\<lambda>u.
                bind_res (safe_prop_ceil uint64_t (st_total_staked st) u ?sum True) (\<lambda>n.
                  Inr (ret[i := \<lparr>numerator = n, denominator = min (vl * w) (2 ^ 64 - 1)\<rparr>])))))
              ) [0..<resources_num] (replicate resources_num \<lparr>numerator = 0, denominator = 1\<rparr>) = Inr ps"
      using run Some up by (simp_all add: get_pricelist_def Let_def res_simps)
    show ?thesis
    proof (rule fold_res_invariant [where P = prices_ok, OF f start])
      fix i ret ret'
      assume p: "prices_ok ret" and s: "bind_res (vec_at (virtual_limits (rl_state db)) i) (\<lambda>vl.
                bind_res (vec_at (account_usage_average_windows (rl_config db)) i) (\<lambda>w.
                bind_res (vec_at up i) (\<lambda>u.
                bind_res (safe_prop_ceil uint64_t (st_total_staked st) u ?sum True) (\<lambda>n.
                  Inr (ret[i := \<lparr>numerator = n, denominator = min (vl * w) (2 ^ 64 - 1)\<rparr>]))))) = Inr ret'"
      obtain vl w u n where v: "vec_at (virtual_limits (rl_state db)) i = Inr vl"
        "vec_at (account_usage_average_windows (rl_config db)) i = Inr w" "vec_at up i = Inr u"
        "safe_prop_ceil uint64_t (st_total_staked st) u ?sum True = Inr n"
        and r: "ret' = ret[i := \<lparr>numerator = n, denominator = min (vl * w) (2 ^ 64 - 1)\<rparr>]"
        using s by (auto simp: bind_res_Inr)
      have "0 \<le> n" using safe_prop_ceil_range [OF v(4)] pos used_pcts_nonneg [OF up] v(3) by (auto simp: vec_at_Inr to_uint64_def)
      moreover have "0 \<le> vl" "0 \<le> w" using v(1,2) ok by (auto simp: vec_at_Inr price_state_ok_def)
      ultimately show "prices_ok ret'"
        using p by (cases "i < length ret") (auto simp: prices_ok_def r nth_list_update list_update_beyond)
    qed
  qed
qed


text \<open>What the controller provides: a fresh context and numbers within the range the code is meant for.\<close>

definition tx_input_ok :: "('k, 'h, 'd, 'g) transaction_context \<Rightarrow> bool" where
  "tx_input_ok c \<longleftrightarrow> fresh c \<and> price_state_ok (cs_res (tx_control c)) \<and>
     (\<forall>m \<in> set (max_transaction_usage (tx_config c)). 0 \<le> m) \<and> (\<forall>m \<in> set (max_block_usage (tx_config c)). m < 2 ^ 62)"

lemma limit_ok_bound:
  assumes "hard_limits_ok cfg db hl" and "i < resources_num" and "\<forall>m \<in> set (max_block_usage cfg). m < 2 ^ 62"
  shows "0 \<le> hl_max (hl ! i)" and "hl_max (hl ! i) < 2 ^ 62"
proof -
  obtain b m where "get_block_limit i cfg db = Inr b" "limit_within b m (hl ! i)" "0 \<le> hl_max (hl ! i)"
    using assms(1,2) by (auto simp: hard_limits_ok_def limit_ok_def)
  moreover from this(1) have "b < 2 ^ 62" using get_block_limit_nonneg [of i cfg db b] assms(3) nth_mem by fastforce
  ultimately show "0 \<le> hl_max (hl ! i)" and "hl_max (hl ! i) < 2 ^ 62" by (auto simp: limit_within_def)
qed

lemma init_ok:
  assumes inp: "tx_input_ok c0" and n: "0 \<le> n" "n < 2 ^ 62"
    and run: "init fuel unpack nows timer_expired now n c0 = Inr c"
  shows "billing_ok c" and "hard_limits_ok (tx_config c0) (cs_res (tx_control c0)) (hard_limits c)"
    and "tx_skip c = tx_skip c0" and "tx_config c = tx_config c0" and "tx_trx c = tx_trx c0"
    and "billed_ram_bytes c = billed_ram_bytes c0" and "set (bill_to_accounts c) = fst ` set (cpu_limits c)"
    and "fst ` set (cpu_limits c) = actors_of (tx_trx c) - fst ` set (storage_providers c)"
proof -
  obtain c1 c2 prices c3 c4 where r1: "init_hard_limits c0 = Inr c1" and r2: "collect_billing unpack c1 = Inr c2"
    and pr: "get_pricelist (cs_res (tx_control c2)) = Inr prices"
    and r3: "available_init fuel (c2\<lparr>tx_pricelist := prices\<rparr>) = Inr c3"
    and r4: "(if n > 0 then add_net_usage nows n (init_deadline c3) else Inr (init_deadline c3)) = Inr c4"
    and c: "c = c4\<lparr>is_initialized := True\<rparr>"
    using run by (auto simp: init_def bind_res_Inr)
  have fr: "fresh c0" and len: "length (hard_limits c0) = resources_num"
    and ps: "price_state_ok (cs_res (tx_control c0))"
    and nonneg: "\<forall>m \<in> set (max_transaction_usage (tx_config c0)). 0 \<le> m"
    and blk: "\<forall>m \<in> set (max_block_usage (tx_config c0)). m < 2 ^ 62"
    using inp by (auto simp: tx_input_ok_def fresh_def)
  obtain hl where c1: "c1 = c0\<lparr>hard_limits := hl\<rparr>" and hl: "hard_limits_ok (tx_config c0) (cs_res (tx_control c0)) hl"
    by (rule init_hard_limits_ok [OF r1 len nonneg])
  have "bill_to_accounts c1 = []" "storage_providers c1 = []" using fr by (simp_all add: c1 fresh_def)
  then obtain bta sp where c2: "c2 = c1\<lparr>storage_providers := sp, bill_to_accounts := bta\<rparr>" "distinct bta"
    "set bta = actors_of (tx_trx c1) - fst ` set sp" by (rule collect_billing_ok [OF r2])
  have "cpu_limits (c2\<lparr>tx_pricelist := prices\<rparr>) = []" "distinct (bill_to_accounts (c2\<lparr>tx_pricelist := prices\<rparr>))"
    using fr c2(2) by (simp_all add: c2(1) c1 fresh_def)
  then obtain rl lims mn where c3: "c3 = c2\<lparr>tx_pricelist := prices, tx_control := (tx_control c2)\<lparr>cs_res := rl\<rparr>,
        cpu_limits := lims, min_cpu_limit := mn\<rparr>" "tx_limits_ok c3" "fst ` set lims = set bta" "configuration rl = tx_config c0"
    by (rule available_init_ok [OF r3]) (simp_all add: c2(1) c1)
  have "prices_ok prices" using get_pricelist_ok [OF ps] pr by (simp add: c2(1) c1)
  moreover have "tx_limits_ok (init_deadline c3)" using c3(2) by (simp add: init_deadline_def Let_def tx_limits_ok_def)
  ultimately have ok3: "billing_ok (init_deadline c3)"
    using fr limit_ok_bound [OF hl _ blk, of NET]
    by (simp add: billing_ok_def c3(1) c2(1) c1 fresh_def init_deadline_def Let_def resources_num_def)
  have ok4: "billing_ok c4 \<and> tx_setup c4 = tx_setup (init_deadline c3)"
    using r4 add_net_usage_ok(1,2) [OF ok3 n, of nows c4] ok3 by (auto split: if_splits)
  then show "billing_ok c" by (simp add: c billing_ok_def tx_limits_ok_def)
  have "tx_setup c4 = tx_setup (init_deadline c3)" using ok4 by simp
  note st = this [unfolded tx_setup_def]
  show "hard_limits_ok (tx_config c0) (cs_res (tx_control c0)) (hard_limits c)" "tx_skip c = tx_skip c0" "tx_config c = tx_config c0"
    "tx_trx c = tx_trx c0" "billed_ram_bytes c = billed_ram_bytes c0" "set (bill_to_accounts c) = fst ` set (cpu_limits c)"
    "fst ` set (cpu_limits c) = actors_of (tx_trx c) - fst ` set (storage_providers c)"
    using st hl c2(3) c3(3,4) by (simp_all add: c c3(1) c2(1) c1 init_deadline_def Let_def)
qed


section \<open>The properties\<close>

lemma min_over_Min: "min_over lims = Min (insert UINT64_MAX (snd ` set lims))"
proof (rule sym, rule Min_eqI)
  show "min_over lims \<in> insert UINT64_MAX (snd ` set lims)" using foldl_min_in [of UINT64_MAX lims] by (auto simp: min_over_def)
  show "\<And>y. y \<in> insert UINT64_MAX (snd ` set lims) \<Longrightarrow> min_over lims \<le> y"
    using foldl_min_le [of UINT64_MAX lims] by (auto simp: min_over_def)
qed simp

text \<open>
  C9.  The books of a transaction balance.  Initialize a transaction and let it use network and storage
  in any order.  Then the cached CPU limit is the minimum of the limits of the billed accounts, the
  billed accounts are the actors of the transaction except those with a storage provider, the storage
  total is the sum over the payers, and the network usage is within its limit unless checks are skipped.
\<close>

theorem transaction_books_balance:
  assumes "tx_input_ok c0" and "0 \<le> n" and "n < 2 ^ 62" and "init fuel unpack nows timer_expired now n c0 = Inr c"
    and "\<forall>ev \<in> set evs. event_ok ev" and "fold_res usage_step evs c = Inr c'"
  shows "min_cpu_limit c' = Min (insert UINT64_MAX (snd ` set (cpu_limits c'))) \<and>
     fst ` set (cpu_limits c') = actors_of (tx_trx c0) - fst ` set (storage_providers c') \<and>
     storage_bytes c' = sum_list (map snd (accounts_storage_deltas c')) \<and>
     (tx_skip c0 \<or> net_usage c' \<le> hl_max (hl_at NET c'))"
proof -
  note i = init_ok [OF assms(1-4)]
  have ok: "billing_ok c'" and st: "tx_setup c' = tx_setup c" using usage_events_ok [OF i(1) assms(5,6)] by auto
  have "min_cpu_limit c' = Min (insert UINT64_MAX (snd ` set (cpu_limits c')))"
    and "storage_bytes c' = sum_list (map snd (accounts_storage_deltas c'))"
    using ok by (auto simp: billing_ok_def tx_limits_ok_def min_over_Min)
  moreover have "fst ` set (cpu_limits c') = actors_of (tx_trx c0) - fst ` set (storage_providers c')"
    and "tx_skip c0 \<or> net_usage c' \<le> hl_max (hl_at NET c')"
    using i(3,5,8) st ok by (auto simp: tx_setup_def billing_ok_def)
  ultimately show ?thesis by blast
qed

text \<open>The bill of a transaction, in the order of the resources.\<close>

definition tx_bill :: "('k, 'h, 'd, 'g) transaction_context \<Rightarrow> int list" where
  "tx_bill c = [billed_cpu_time_us c, net_usage c, billed_ram_bytes c, storage_bytes c]"

lemma round_up_bound:
  assumes "0 \<le> x" and "x < 2 ^ 62" and "0 < k" and "k \<le> 1024"
  shows "0 \<le> (x + (k - 1)) div k * k \<and> (x + (k - 1)) div k * k < (2 :: int) ^ 63"
proof -
  have "(x + (k - 1)) div k * k \<le> x + (k - 1)" using pos_mod_sign [OF assms(3), of "x + (k - 1)"] div_mult_mod_eq [of "x + (k - 1)" k] by linarith
  moreover have "0 \<le> (x + (k - 1)) div k" using assms(1,3) by (simp add: pos_imp_zdiv_nonneg_iff)
  ultimately show ?thesis using assms by simp
qed

lemma validate_bw_usage_within:
  assumes ok: "billing_ok c" and "\<not> tx_skip c" and run: "validate_bw_usage ram now c = Inr d"
    and "0 \<le> ram" "ram < 2 ^ 62" and "0 \<le> billed_ram_bytes c" "billed_ram_bytes c < 2 ^ 62"
    and "min_transaction_ram_usage (tx_config c) < 2 ^ 62" and pos: "\<forall>i < resources_num. 0 \<le> hl_max (hl_at i c)"
    and "i < resources_num"
  shows "tx_bill d ! i \<le> hl_max (hl_at i c)"
proof -
  have net: "0 \<le> net_usage c" "net_usage c < 2 ^ 62" using ok assms(2) by (auto simp: billing_ok_def)
  obtain c1 where r1: "(if is_input c then
                 bind_res (update_permission_usages (tx_trx c) (cs_auth (tx_control c))) (\<lambda>db.
                   Inr (c\<lparr>tx_control := (tx_control c)\<lparr>cs_auth := db\<rparr>\<rparr>))
               else Inr c) = Inr c1"
    using run unfolding validate_bw_usage_def bind_res_Inr by blast
  then have c1: "\<exists>db. c1 = c\<lparr>tx_control := (tx_control c)\<lparr>cs_auth := db\<rparr>\<rparr>"
    by (cases "is_input c") (auto simp: bind_res_Inr intro: exI [of _ "cs_auth (tx_control c)"])
  let ?c2 = "update_billed_ram_bytes ram c1"
  obtain sb where r2: "update_billed_cpu_time now (?c2\<lparr>storage_bytes := sb div 1024 * 1024,
        net_usage := to_uint64 (net_usage ?c2 + 7) div 8 * 8\<rparr>) = Inr d"
    and chk: "hl_check (tx_skip d) (hl_at CPU d) (billed_cpu_time_us d) = Inr ()"
      "hl_check (tx_skip d) (hl_at NET d) (to_int64 (net_usage d)) = Inr ()"
      "hl_check (tx_skip d) (hl_at RAM d) (to_int64 (billed_ram_bytes d)) = Inr ()"
      "hl_check (tx_skip d) (hl_at STORAGE d) (storage_bytes d) = Inr ()"
    using run r1 by (simp add: validate_bw_usage_def Let_def bind_res_Inr) blast
  have d: "hard_limits d = hard_limits ?c2" "tx_skip d = tx_skip ?c2" "net_usage d = to_uint64 (net_usage ?c2 + 7) div 8 * 8"
    "billed_ram_bytes d = billed_ram_bytes ?c2"
    using r2 by (auto simp: update_billed_cpu_time_def Let_def bind_res_Inr split: if_splits)
  have c2: "hard_limits ?c2 = hard_limits c" "tx_skip ?c2 = tx_skip c" "net_usage ?c2 = net_usage c"
    and r: "billed_ram_bytes ?c2 = billed_ram_bytes c \<or>
         billed_ram_bytes ?c2 = max (to_uint64 (ram + 1023) div 1024 * 1024) (min_transaction_ram_usage (tx_config c))"
    using c1 by (auto simp: update_billed_ram_bytes_def)
  have "to_int64 (net_usage d) = net_usage d"
    using net round_up_bound [OF net, of 8] by (simp add: d c2 to_uint64_def to_int64_id)
  moreover have "to_int64 (billed_ram_bytes d) = billed_ram_bytes d"
    using r assms(4-8) round_up_bound [OF assms(4,5), of 1024] unfolding d(4) by (auto simp: to_uint64_def intro!: to_int64_id)
  ultimately have "\<forall>i < resources_num. tx_bill d ! i \<le> 0 \<or> tx_bill d ! i \<le> hl_max (hl_at i c)"
    using chk [THEN hl_check_Inr] assms(2) d c2
    by (simp add: tx_bill_def resources_num_def numeral_eq_Suc All_less_Suc)
  then show ?thesis using pos assms(10) by fastforce
qed


text \<open>
  C8.  A finished transaction stays within its limits.  When a transaction was initialized, used network
  and storage in any order and was finalized with checks on, its bill for each of CPU, network, RAM and
  storage is at most what the block had left when the transaction began, and at most the configured
  maximum per transaction where there is one.
\<close>

theorem transaction_within_limits:
  assumes "tx_input_ok c0" and "0 \<le> n" and "n < 2 ^ 62" and "init fuel unpack nows timer_expired now n c0 = Inr c"
    and "\<forall>ev \<in> set evs. event_ok ev" and "fold_res usage_step evs c = Inr c'"
    and "\<not> tx_skip c0" and "0 \<le> billed_ram_bytes c0" and "billed_ram_bytes c0 < 2 ^ 62"
    and "min_transaction_ram_usage (tx_config c0) < 2 ^ 62" and "0 \<le> ram" and "ram < 2 ^ 62"
    and "tx_finalize fuel' ram now' c' = Inr d" and "i < resources_num"
  shows "\<exists>b m. get_block_limit i (tx_config c0) (cs_res (tx_control c0)) = Inr b \<and>
     vec_at (max_transaction_usage (tx_config c0)) i = Inr m \<and> tx_bill d ! i \<le> b \<and> (m = 0 \<or> tx_bill d ! i \<le> m)"
proof -
  note ini = init_ok [OF assms(1-4)]
  have ok: "billing_ok c'" and st: "tx_setup c' = tx_setup c" using usage_events_ok [OF ini(1) assms(5,6)] by auto
  obtain d0 rl where v: "validate_bw_usage ram now' c' = Inr d0" and d: "d = d0\<lparr>tx_control := (tx_control d0)\<lparr>cs_res := rl\<rparr>\<rparr>"
    using assms(13) by (auto simp: tx_finalize_def Let_def bind_res_Inr)
  have c': "hard_limits c' = hard_limits c" "tx_skip c' = tx_skip c0" "tx_config c' = tx_config c0" "billed_ram_bytes c' = billed_ram_bytes c0"
    using st ini(3,4,6) by (auto simp: tx_setup_def)
  have blk: "\<forall>m \<in> set (max_block_usage (tx_config c0)). m < 2 ^ 62" using assms(1) by (simp add: tx_input_ok_def)
  have "tx_bill d0 ! i \<le> hl_max (hl_at i c')"
    by (rule validate_bw_usage_within [OF ok _ v assms(11,12) _ _ _ _ assms(14)])
      (use assms(7-10) c' limit_ok_bound(1) [OF ini(2) _ blk] in simp_all)
  moreover have "tx_bill d = tx_bill d0" by (simp add: tx_bill_def d)
  moreover obtain b m where "get_block_limit i (tx_config c0) (cs_res (tx_control c0)) = Inr b"
    "vec_at (max_transaction_usage (tx_config c0)) i = Inr m" "limit_within b m (hl_at i c)"
    using ini(2) assms(14) unfolding hard_limits_ok_def limit_ok_def by blast
  ultimately show ?thesis using c'(1) by (fastforce simp: limit_within_def)
qed



section \<open>Examples\<close>

definition ex_tx :: "(nat, nat, unit, unit) transaction_context" where
  "ex_tx =
     (let s = ex_chain_state\<lparr>cs_auth := (cs_auth ex_chain_state)\<lparr>pending_block_time := 946684818000000\<rparr>,
                             cs_res := ex_resource_db (ex_stake_db 0) 0\<rparr>;
          trx = (ex_transaction 6)\<lparr>trx_actions := [\<lparr>act_account = 1, act_name = 5,
                   act_authorization = [Permission_level 2 active_name], act_data = ()\<rparr>]\<rparr>
      in case new_transaction_context s trx 1 100 of Inr c \<Rightarrow> c | Inl _ \<Rightarrow> undefined)"

definition ex_init :: "(nat, nat, unit, unit) transaction_context res" where
  "ex_init = init 10 (\<lambda>_. Inl Fc_exception) (200, 210) False 250 16 ex_tx"

definition ex_usage :: "usage_event list" where
  "ex_usage = [Net_usage (300, 310) 8, Storage_usage (400, 410) \<lparr>sp_owner = 2, sp_payer = 2, sp_delta = 10\<rparr>, Pause_timer 500,
     Resume_timer 600, Storage_usage (700, 710) \<lparr>sp_owner = 2, sp_payer = 2, sp_delta = -4\<rparr>]"


lemma ex_runs:
  "case bind_res ex_init (fold_res usage_step ex_usage) of
     Inr c \<Rightarrow> (case tx_finalize 10 300 800 c of Inr d \<Rightarrow> tx_bill d = [560, 24, 1024, 1024] | Inl _ \<Rightarrow> False)
   | Inl _ \<Rightarrow> False"
  by code_simp

lemma ex_states:
  obtains c c' d where "ex_init = Inr c" and "fold_res usage_step ex_usage c = Inr c'" and "tx_finalize 10 300 800 c' = Inr d"
    and "tx_bill d = [560, 24, 1024, 1024]"
proof -
  obtain c' where "bind_res ex_init (fold_res usage_step ex_usage) = Inr c'"
    and d: "case tx_finalize 10 300 800 c' of Inr d \<Rightarrow> tx_bill d = [560, 24, 1024, 1024] | Inl _ \<Rightarrow> False"
    using ex_runs by (cases "bind_res ex_init (fold_res usage_step ex_usage)") simp_all
  then obtain c where "ex_init = Inr c" "fold_res usage_step ex_usage c = Inr c'" unfolding bind_res_Inr by blast
  moreover obtain d where "tx_finalize 10 300 800 c' = Inr d" "tx_bill d = [560, 24, 1024, 1024]"
    using d by (cases "tx_finalize 10 300 800 c'") simp_all
  ultimately show ?thesis by (rule that)
qed

lemma ex_tx_simps:
  "fresh ex_tx" "cs_res (tx_control ex_tx) = ex_resource_db (ex_stake_db 0) 0" "\<not> tx_skip ex_tx" "billed_ram_bytes ex_tx = 0"
  by (simp_all add: ex_tx_def Let_def new_transaction_context_def ex_transaction_def eos_assert_def fresh_def new_hard_limits_def
      resources_num_def ex_chain_state_def)

lemma ex_tx_input_ok: "tx_input_ok ex_tx"
  by (simp add: tx_input_ok_def ex_tx_simps price_state_ok_def ex_resource_db_def initial_configuration_def)

lemma ex_usage_ok: "\<forall>ev \<in> set ex_usage. event_ok ev"
  by (simp add: ex_usage_def event_ok_def)

theorem transaction_books_balance_witness:
  "\<exists>c c'. ex_init = Inr c \<and> fold_res usage_step ex_usage c = Inr c' \<and>
     min_cpu_limit c' = Min (insert UINT64_MAX (snd ` set (cpu_limits c'))) \<and>
     storage_bytes c' = sum_list (map snd (accounts_storage_deltas c'))"
proof -
  obtain c c' where i: "ex_init = Inr c" and u: "fold_res usage_step ex_usage c = Inr c'" by (rule ex_states)
  have "(0 :: int) \<le> 16" "(16 :: int) < 2 ^ 62" by simp_all
  from transaction_books_balance [OF ex_tx_input_ok this i [unfolded ex_init_def] ex_usage_ok u] i u show ?thesis by blast
qed

theorem transaction_within_limits_witness:
  "\<exists>c c' d b m. ex_init = Inr c \<and> fold_res usage_step ex_usage c = Inr c' \<and> tx_finalize 10 300 800 c' = Inr d \<and>
     get_block_limit RAM initial_configuration (cs_res (tx_control ex_tx)) = Inr b \<and>
     vec_at (max_transaction_usage initial_configuration) RAM = Inr m \<and> tx_bill d ! RAM \<le> b \<and> tx_bill d ! RAM = 1024"
proof -
  obtain c c' d where i: "ex_init = Inr c" and u: "fold_res usage_step ex_usage c = Inr c'" and f: "tx_finalize 10 300 800 c' = Inr d"
    and b: "tx_bill d = [560, 24, 1024, 1024]" by (rule ex_states)
  have n: "(0 :: int) \<le> 16" "(16 :: int) < 2 ^ 62" by simp_all
  have cfg: "tx_config ex_tx = initial_configuration" by (simp add: ex_tx_simps ex_resource_db_def)
  have "\<exists>b m. get_block_limit RAM (tx_config ex_tx) (cs_res (tx_control ex_tx)) = Inr b \<and>
     vec_at (max_transaction_usage (tx_config ex_tx)) RAM = Inr m \<and> tx_bill d ! RAM \<le> b \<and> (m = 0 \<or> tx_bill d ! RAM \<le> m)"
    by (rule transaction_within_limits [OF ex_tx_input_ok n i [unfolded ex_init_def] ex_usage_ok u ex_tx_simps(3) _ _ _ _ _ f])
      (simp_all add: ex_tx_simps ex_resource_db_def initial_configuration_def resources_num_def)
  then show ?thesis using i u f b by (auto simp: cfg)
qed


text \<open>
  A refund of storage is rounded up like a charge: freeing in single bytes what was taken at once
  raises the CPU limit of an account above what it was.
\<close>

definition ex_refunds :: "usage_event list" where
  "ex_refunds = Storage_usage (300, 310) \<lparr>sp_owner = 2, sp_payer = 2, sp_delta = 3\<rparr> #
     replicate 3 (Storage_usage (400, 410) \<lparr>sp_owner = 2, sp_payer = 2, sp_delta = -1\<rparr>)"

lemma storage_refund_exceeds_charge:
  "case ex_init of
     Inr c \<Rightarrow> (case fold_res usage_step ex_refunds c of Inr c' \<Rightarrow> storage_bytes c' = 0 \<and> min_cpu_limit c' > min_cpu_limit c | _ \<Rightarrow> False)
   | _ \<Rightarrow> False"
  by code_simp

end
