(* ===== verification/ElasticLimits.thy ===== *)
theory ElasticLimits
  imports ResourceLimits
begin

text \<open>
  The elastic limits of \<^verbatim>\<open>resource_limits.cpp\<close> over many blocks: a chain without usage returns
  to the maximal limits.  Each idle block raises a limit by the share \<^verbatim>\<open>increase_rate\<close>, rounded
  down; the limit moves as long as that share of the smallest limit is at least one unit, which the
  default configuration satisfies.
\<close>

section \<open>One block\<close>

text \<open>Parameters with which a limit can grow from its minimum.\<close>

definition growing :: "elastic_limit_parameters \<Rightarrow> bool" where
  "growing p \<longleftrightarrow>
     0 < el_periods p \<and> 0 \<le> el_target p \<and> 0 \<le> el_min p \<and> el_min p \<le> el_max p \<and> el_max p < 2 ^ 64 \<and>
     0 < denominator (increase_rate p) \<and> denominator (increase_rate p) \<le> numerator (increase_rate p) \<and>
     denominator (increase_rate p) \<le> (numerator (increase_rate p) - denominator (increase_rate p)) * el_min p"

lemma update_elastic_limit_grows:
  assumes g: "growing p" and "el_min p \<le> cur" and "cur \<le> el_max p" and "av \<le> el_target p"
  obtains v where "update_elastic_limit cur av p = Inr v" and "min (cur + 1) (el_max p) \<le> v" and "el_min p \<le> v" and "v \<le> el_max p"
proof -
  let ?n = "numerator (increase_rate p)" and ?d = "denominator (increase_rate p)"
  have d: "0 < ?d" "?d \<le> ?n" "0 \<le> el_min p" "el_max p < 2 ^ 64" "el_min p \<le> el_max p" using g by (auto simp: growing_def)
  have "(?n - ?d) * el_min p \<le> (?n - ?d) * cur" using d(2) assms(2) by (simp add: mult_left_mono)
  then have "?d \<le> (?n - ?d) * cur" using g by (auto simp: growing_def)
  then have "(cur + 1) * ?d \<le> cur * ?n" by (simp add: algebra_simps)
  then have q: "cur + 1 \<le> cur * ?n div ?d" using zdiv_mono1 [OF _ d(1), of "(cur + 1) * ?d" "cur * ?n"] d(1) by simp
  have "update_elastic_limit cur av p = Inr (min (max (min (cur * ?n div ?d) (ty_max uint64_t)) (el_min p)) (el_max p))"
    using safe_prop_clamp_nonneg [of cur ?n ?d uint64_t] d assms by (simp add: update_elastic_limit_def)
  then show ?thesis by (rule that) (use q d in \<open>auto simp: ty_max_def min_def max_def\<close>)
qed

definition idle_ema :: "int \<Rightarrow> ema \<Rightarrow> bool" where
  "idle_ema t a \<longleftrightarrow> value_ex a = 0 \<and> consumed a = 0 \<and> last_ordinal a \<le> t"

lemma ema_add_idle:
  assumes "idle_ema t a" and "0 \<le> t" and "t < slot" and "0 < w"
  shows "ema_add 0 slot w a = Inr \<lparr>last_ordinal = slot, value_ex = 0, consumed = 0\<rparr>"
proof -
  have a: "value_ex a = 0" "consumed a = 0" "last_ordinal a < slot" using assms by (auto simp: idle_ema_def)
  have "downgrade_cast uint64_t uint128_t 0 True = Inr 0" by (simp add: downgrade_uint64)
  moreover have "integer_divide_ceil 0 w = Inr 0" using assms(4) by (simp add: integer_divide_ceil_def)
  moreover have "ema_decay slot w a = Inr \<lparr>last_ordinal = slot, value_ex = 0, consumed = 0\<rparr>"
    using a assms by (cases a) (simp add: ema_decay_def eos_assert_def safe_prop_def average_def)
  ultimately show ?thesis
    by (simp add: ema_add_def Let_def eos_assert_def a max_raw_value_def rate_limiting_precision_def to_uint64_def)
qed

text \<open>An idle state at the slot \<open>t\<close>: nothing is pending, the averages are zero, the limits in range.\<close>

definition idle :: "resource_limits_config_object \<Rightarrow> int \<Rightarrow> resource_limits_state_object \<Rightarrow> bool" where
  "idle cfg t st \<longleftrightarrow>
     length (block_usage_accumulators st) = resources_num \<and> length (pending_usage st) = resources_num \<and>
     length (virtual_limits st) = resources_num \<and>
     (\<forall>i < resources_num. pending_usage st ! i = 0 \<and> idle_ema t (block_usage_accumulators st ! i) \<and>
        el_min (limit_parameters cfg ! i) \<le> virtual_limits st ! i \<and> virtual_limits st ! i \<le> el_max (limit_parameters cfg ! i))"

lemma fold_res_upt_total:
  assumes "P 0 s" and "\<And>i r. i < n \<Longrightarrow> P i r \<Longrightarrow> \<exists>r'. f i r = Inr r' \<and> P (Suc i) r'"
  shows "\<exists>s'. fold_res f [0..<n] s = Inr s' \<and> P n s'"
  using assms(2)
proof (induction n)
  case (Suc n)
  then obtain r where r: "fold_res f [0..<n] s = Inr r" "P n r" by (meson less_Suc_eq)
  moreover obtain r' where "f n r = Inr r'" "P (Suc n) r'" using Suc.prems [OF lessI r(2)] by blast
  ultimately have "fold_res f [0..<Suc n] s = Inr r'" by (simp add: fold_res_append)
  then show ?case using \<open>P (Suc n) r'\<close> by blast
qed (use assms(1) in simp)


definition turned :: "resource_limits_config_object \<Rightarrow> int \<Rightarrow> nat \<Rightarrow> resource_limits_state_object \<Rightarrow> resource_limits_state_object \<Rightarrow> bool" where
  "turned cfg slot i st st' \<longleftrightarrow>
     pending_usage st' ! i = 0 \<and> block_usage_accumulators st' ! i = \<lparr>last_ordinal = slot, value_ex = 0, consumed = 0\<rparr> \<and>
     min (virtual_limits st ! i + 1) (el_max (limit_parameters cfg ! i)) \<le> virtual_limits st' ! i \<and>
     el_min (limit_parameters cfg ! i) \<le> virtual_limits st' ! i \<and> virtual_limits st' ! i \<le> el_max (limit_parameters cfg ! i)"

definition well_sized :: "resource_limits_state_object \<Rightarrow> bool" where
  "well_sized st \<longleftrightarrow> length (block_usage_accumulators st) = resources_num \<and> length (pending_usage st) = resources_num \<and>
     length (virtual_limits st) = resources_num"

definition growing_config :: "resource_limits_config_object \<Rightarrow> bool" where
  "growing_config cfg \<longleftrightarrow> length (limit_parameters cfg) = resources_num \<and> (\<forall>p \<in> set (limit_parameters cfg). growing p)"

lemma idle_turn:
  assumes cfg: "growing_config cfg" and st0: "idle cfg t st0" and t: "0 \<le> t" "t < slot" and i: "i < resources_num"
    and sz: "well_sized st" and same: "same_entries i st0 st"
  obtains st' where "bind_res (vec_at (block_usage_accumulators st) i) (\<lambda>acc.
         bind_res (vec_at (pending_usage st) i) (\<lambda>p.
         bind_res (vec_at (limit_parameters cfg) i) (\<lambda>lp.
         bind_res (ema_add p slot (el_periods lp) acc) (\<lambda>acc'.
         bind_res (update_virtual_limit cfg i
                     (st\<lparr>block_usage_accumulators := (block_usage_accumulators st)[i := acc']\<rparr>)) (\<lambda>st'.
           Inr (st'\<lparr>pending_usage := (pending_usage st')[i := 0]\<rparr>)))))) = Inr st'"
    and "well_sized st'" and "turned cfg slot i st0 st'" and "\<And>j. j \<noteq> i \<Longrightarrow> same_entries j st st'"
proof -
  let ?p = "limit_parameters cfg ! i" and ?a = "\<lparr>last_ordinal = slot, value_ex = 0, consumed = 0\<rparr>"
  have len: "i < length (block_usage_accumulators st)" "i < length (pending_usage st)" "i < length (virtual_limits st)"
    "i < length (limit_parameters cfg)" using sz cfg i by (simp_all add: well_sized_def growing_config_def)
  have g: "growing ?p" using cfg len(4) by (simp add: growing_config_def)
  then have w: "0 < el_periods ?p" "0 \<le> el_target ?p" by (auto simp: growing_def)
  have e: "idle_ema t (block_usage_accumulators st ! i)" "pending_usage st ! i = 0" "virtual_limits st ! i = virtual_limits st0 ! i"
    "el_min ?p \<le> virtual_limits st ! i" "virtual_limits st ! i \<le> el_max ?p"
    using st0 i same by (auto simp: idle_def same_entries_def)
  have av: "average ?a \<le> el_target ?p" using w(2) by (simp add: average_def)
  obtain v where v: "update_elastic_limit (virtual_limits st ! i) (average ?a) ?p = Inr v"
    "min (virtual_limits st ! i + 1) (el_max ?p) \<le> v" "el_min ?p \<le> v" "v \<le> el_max ?p"
    by (rule update_elastic_limit_grows [OF g e(4,5) av])
  let ?s = "st\<lparr>block_usage_accumulators := (block_usage_accumulators st)[i := ?a], virtual_limits := (virtual_limits st)[i := v],
              pending_usage := (pending_usage st)[i := 0]\<rparr>"
  show ?thesis
  proof (rule that [of ?s])
    show "well_sized ?s" using sz by (simp add: well_sized_def)
    show "turned cfg slot i st0 ?s" using v e(3) len by (simp add: turned_def)
    show "\<And>j. j \<noteq> i \<Longrightarrow> same_entries j st ?s" by (simp add: same_entries_def)
  qed (use len v(1) ema_add_idle [OF e(1) t w(1)] e(2) in \<open>simp add: vec_at_def update_virtual_limit_def\<close>)
qed

lemma idle_block:
  assumes cfg: "growing_config (rl_config db)" and st0: "idle (rl_config db) t (rl_state db)" and t: "0 \<le> t" "t < slot"
  obtains st where "process_block_usage slot db = Inr (db\<lparr>rl_state := st\<rparr>)" and "idle (rl_config db) slot st"
    and "\<And>i. i < resources_num \<Longrightarrow>
      min (virtual_limits (rl_state db) ! i + 1) (el_max (limit_parameters (rl_config db) ! i)) \<le> virtual_limits st ! i"
proof -
  let ?st0 = "rl_state db" and ?cfg = "rl_config db"
  define f where "f = (\<lambda>i st.
         bind_res (vec_at (block_usage_accumulators st) i) (\<lambda>acc.
         bind_res (vec_at (pending_usage st) i) (\<lambda>p.
         bind_res (vec_at (limit_parameters ?cfg) i) (\<lambda>lp.
         bind_res (ema_add p slot (el_periods lp) acc) (\<lambda>acc'.
         bind_res (update_virtual_limit ?cfg i
                     (st\<lparr>block_usage_accumulators := (block_usage_accumulators st)[i := acc']\<rparr>)) (\<lambda>st'.
           Inr (st'\<lparr>pending_usage := (pending_usage st')[i := 0]\<rparr>)))))))"
  define P where "P = (\<lambda>n st. well_sized st \<and> (\<forall>j < n. turned ?cfg slot j ?st0 st) \<and> (\<forall>j \<ge> n. same_entries j ?st0 st))"
  have "\<exists>st. fold_res f [0..<resources_num] ?st0 = Inr st \<and> P resources_num st"
  proof (rule fold_res_upt_total)
    show "P 0 ?st0" using st0 by (simp add: P_def idle_def well_sized_def same_entries_def)
  next
    fix i r assume i: "i < resources_num" and p: "P i r"
    have "well_sized r" "same_entries i ?st0 r" using p by (simp_all add: P_def)
    from idle_turn [OF cfg st0 t i this] obtain r' where r': "f i r = Inr r'" "well_sized r'" "turned ?cfg slot i ?st0 r'"
      "\<And>j. j \<noteq> i \<Longrightarrow> same_entries j r r'" unfolding f_def by blast
    have "turned ?cfg slot j ?st0 r'" if "j < i" for j
      using r'(4) [of j] p that by (simp add: P_def turned_def same_entries_def)
    moreover have "same_entries j ?st0 r'" if "j \<ge> Suc i" for j
      using r'(4) [of j] p that by (simp add: P_def same_entries_def)
    ultimately have "P (Suc i) r'" using r'(2,3) by (auto simp: P_def less_Suc_eq)
    with r'(1) show "\<exists>r'. f i r = Inr r' \<and> P (Suc i) r'" by blast
  qed
  then obtain st where run: "fold_res f [0..<resources_num] ?st0 = Inr st" and p: "P resources_num st" by blast
  show ?thesis
  proof (rule that [of st])
    show "process_block_usage slot db = Inr (db\<lparr>rl_state := st\<rparr>)"
      unfolding process_block_usage_def f_def [symmetric] by (simp add: run)
    show "idle ?cfg slot st" using p by (simp add: P_def idle_def turned_def well_sized_def idle_ema_def)
    show "\<And>i. i < resources_num \<Longrightarrow> min (virtual_limits ?st0 ! i + 1) (el_max (limit_parameters ?cfg ! i)) \<le> virtual_limits st ! i"
      using p by (simp add: P_def turned_def)
  qed
qed

section \<open>Many blocks\<close>

lemma idle_blocks:
  assumes "growing_config (rl_config db)" and "idle (rl_config db) t (rl_state db)" and "0 \<le> t" and "sorted_wrt (<) (t # slots)"
  shows "\<exists>db'. fold_res process_block_usage slots db = Inr db' \<and>
     (\<forall>i < resources_num. min (virtual_limits (rl_state db) ! i + int (length slots)) (el_max (limit_parameters (rl_config db) ! i))
        \<le> virtual_limits (rl_state db') ! i \<and> virtual_limits (rl_state db') ! i \<le> el_max (limit_parameters (rl_config db) ! i))"
  using assms
proof (induction slots arbitrary: t db)
  case Nil
  then show ?case by (auto simp: idle_def)
next
  case (Cons slot slots)
  have "t < slot" using Cons.prems(4) by simp
  from idle_block [OF Cons.prems(1-3) this] obtain st where st: "process_block_usage slot db = Inr (db\<lparr>rl_state := st\<rparr>)"
    "idle (rl_config db) slot st"
    and up: "\<And>i. i < resources_num \<Longrightarrow>
      min (virtual_limits (rl_state db) ! i + 1) (el_max (limit_parameters (rl_config db) ! i)) \<le> virtual_limits st ! i" by blast
  let ?db = "db\<lparr>rl_state := st\<rparr>"
  obtain db' where run: "fold_res process_block_usage slots ?db = Inr db'"
    and r: "\<And>i. i < resources_num \<Longrightarrow> min (virtual_limits st ! i + int (length slots)) (el_max (limit_parameters (rl_config db) ! i))
        \<le> virtual_limits (rl_state db') ! i \<and> virtual_limits (rl_state db') ! i \<le> el_max (limit_parameters (rl_config db) ! i)"
    using Cons.IH [of ?db slot] Cons.prems(1,3,4) st(2) \<open>t < slot\<close> by auto
  have "min (virtual_limits (rl_state db) ! i + int (length (slot # slots))) (el_max (limit_parameters (rl_config db) ! i))
        \<le> virtual_limits (rl_state db') ! i" if "i < resources_num" for i
    using up [OF that] r [OF that] by (auto simp: min_def split: if_splits)
  then show ?case using run r st(1) by auto
qed


text \<open>
  C16.  An idle chain recovers.  Start from a state with nothing pending and zero averages, under
  parameters whose increase of the smallest limit is at least one unit.  Then every sequence of idle
  blocks is processed without an error, and once it is as long as the largest distance of a limit from
  its maximum, all limits are at their maximum.
\<close>

theorem idle_limits_recover:
  assumes "growing_config (rl_config db)" and "idle (rl_config db) t (rl_state db)" and "0 \<le> t" and "sorted_wrt (<) (t # slots)"
    and "\<forall>i < resources_num. el_max (limit_parameters (rl_config db) ! i) - virtual_limits (rl_state db) ! i \<le> int (length slots)"
  shows "\<exists>db'. fold_res process_block_usage slots db = Inr db' \<and>
     (\<forall>i < resources_num. virtual_limits (rl_state db') ! i = el_max (limit_parameters (rl_config db) ! i))"
proof -
  obtain db' where run: "fold_res process_block_usage slots db = Inr db'"
    and r: "\<And>i. i < resources_num \<Longrightarrow>
       min (virtual_limits (rl_state db) ! i + int (length slots)) (el_max (limit_parameters (rl_config db) ! i))
        \<le> virtual_limits (rl_state db') ! i \<and> virtual_limits (rl_state db') ! i \<le> el_max (limit_parameters (rl_config db) ! i)"
    using idle_blocks [OF assms(1-4)] by blast
  have "virtual_limits (rl_state db') ! i = el_max (limit_parameters (rl_config db) ! i)" if i: "i < resources_num" for i
    using r [OF i] assms(5) [rule_format, OF i] by (auto simp: min_def split: if_splits)
  with run show ?thesis by blast
qed

text \<open>The condition is needed: a limit whose increase is below one unit stays where it is.\<close>

lemma small_limit_stuck:
  assumes "0 < denominator (increase_rate p)" and "denominator (increase_rate p) \<le> numerator (increase_rate p)"
    and "(numerator (increase_rate p) - denominator (increase_rate p)) * cur < denominator (increase_rate p)"
    and "0 \<le> cur" and "el_min p \<le> cur" and "cur \<le> el_max p" and "el_max p < 2 ^ 64" and "av \<le> el_target p"
  shows "update_elastic_limit cur av p = Inr cur"
proof -
  let ?n = "numerator (increase_rate p)" and ?d = "denominator (increase_rate p)"
  have e: "cur * ?n = (?n - ?d) * cur + cur * ?d" by (simp add: algebra_simps)
  have "0 \<le> (?n - ?d) * cur" using assms(2,4) by simp
  then have "(?n - ?d) * cur div ?d = 0" using assms(3) by (rule div_pos_pos_trivial)
  then have "cur * ?n div ?d = cur" unfolding e using assms(1) by simp
  then show ?thesis
    using safe_prop_clamp_nonneg [of cur ?n ?d uint64_t] assms by (simp add: update_elastic_limit_def ty_max_def)
qed

section \<open>Example\<close>

text \<open>The configuration a new chain starts with.\<close>

definition ex_config :: resource_limits_config_object where
  "ex_config = (case initialize_database of Inr (cfg, _) \<Rightarrow> cfg | Inl _ \<Rightarrow> undefined)"

definition ex_idle_db :: "unit resource_db" where
  "ex_idle_db = (ex_resource_db (ex_stake_db 0) 0)
     \<lparr>rl_config := ex_config,
      rl_state := \<lparr>block_usage_accumulators = replicate 4 new_ema, pending_usage = replicate 4 0,
                   virtual_limits = map (\<lambda>p. el_max p - 2) (limit_parameters ex_config)\<rparr>\<rparr>"

lemma ex_config_params:
  "limit_parameters ex_config =
     [\<lparr>el_target = 140000, el_min = 1400000, el_max = 1400000000, el_periods = 20,
       decrease_rate = \<lparr>numerator = 9900, denominator = 10000\<rparr>, increase_rate = \<lparr>numerator = 10010, denominator = 10000\<rparr>\<rparr>,
      \<lparr>el_target = 524288, el_min = 1048576, el_max = 1048576000, el_periods = 20,
       decrease_rate = \<lparr>numerator = 9900, denominator = 10000\<rparr>, increase_rate = \<lparr>numerator = 10010, denominator = 10000\<rparr>\<rparr>,
      \<lparr>el_target = 67108864, el_min = 33554432, el_max = 33554432000, el_periods = 20,
       decrease_rate = \<lparr>numerator = 9900, denominator = 10000\<rparr>, increase_rate = \<lparr>numerator = 10010, denominator = 10000\<rparr>\<rparr>,
      \<lparr>el_target = 3268, el_min = 1634, el_max = 326862, el_periods = 28800,
       decrease_rate = \<lparr>numerator = 9900, denominator = 10000\<rparr>, increase_rate = \<lparr>numerator = 10010, denominator = 10000\<rparr>\<rparr>]"
  by code_simp

lemma ex_config_growing: "growing_config ex_config"
  by (simp add: growing_config_def ex_config_params growing_def resources_num_def)

lemma ex_idle: "idle ex_config 0 (rl_state ex_idle_db)"
  by (simp add: idle_def ex_idle_db_def ex_config_params resources_num_def idle_ema_def new_ema_def numeral_eq_Suc All_less_Suc)

theorem idle_limits_recover_witness:
  "\<exists>db'. fold_res process_block_usage [7, 8] ex_idle_db = Inr db' \<and>
     virtual_limits (rl_state db') ! CPU = 1400000000 \<and> virtual_limits (rl_state db') ! STORAGE = 326862"
proof -
  have c: "rl_config ex_idle_db = ex_config" by (simp add: ex_idle_db_def)
  have "\<exists>db'. fold_res process_block_usage [7, 8] ex_idle_db = Inr db' \<and>
     (\<forall>i < resources_num. virtual_limits (rl_state db') ! i = el_max (limit_parameters (rl_config ex_idle_db) ! i))"
    by (rule idle_limits_recover [of _ 0])
      (use ex_config_growing ex_idle in \<open>simp_all add: c ex_idle_db_def ex_config_params resources_num_def numeral_eq_Suc All_less_Suc\<close>)
  then show ?thesis by (auto simp: c ex_config_params resources_num_def)
qed

end
