(* ===== verification/Journal.thy ===== *)
theory Journal
  imports Prelude
begin

text \<open>
  Pending writes to the chain database: \<^verbatim>\<open>include/cyberway/chaindb/object_value.hpp\<close>,
  \<^verbatim>\<open>include/cyberway/chaindb/journal.hpp\<close> and \<^verbatim>\<open>chaindb/journal.cpp\<close>.

  An operation on a row (\<open>write_operation\<close>) is merged into the operation already pending for the
  row. The specification is \<open>effect\<close>, what an operation makes of a stored row: the merged operation
  has the effect of both (\<open>write_effect\<close>), so that the rows a reader sees through the journal
  (\<open>rows\<close>) change exactly as the callers ask. A \<^verbatim>\<open>write_ctx\<close> caches the position of one row and
  is not modelled.
\<close>

section \<open>Objects\<close>

type_synonym revision_t = int

abbreviation impossible_revision :: revision_t where "impossible_revision \<equiv> - 1"
abbreviation unset_revision :: revision_t where "unset_revision \<equiv> - 2"
abbreviation start_revision :: revision_t where "start_revision \<equiv> 1"

abbreviation pk_Unset :: "64 word" where "pk_Unset \<equiv> - 2"
abbreviation pk_End :: "64 word" where "pk_End \<equiv> - 1"

definition pk_is_good :: "64 word \<Rightarrow> bool" where
  "pk_is_good v \<longleftrightarrow> v \<noteq> pk_Unset \<and> v \<noteq> pk_End"

datatype undo_record = Rec_Unknown | OldValue | RemovedValue | NewValue | NextPk

text \<open>
  The values of rows are kept abstract, apart from the null variant and from the object that holds
  the next primary key of a table.
\<close>

datatype 'v variant = Null | Row 'v | Next_pk_value "64 word"

record service_state =
  sv_pk :: "64 word"
  sv_payer :: "64 word"
  sv_size :: "32 word"
  sv_in_ram :: bool
  sv_code :: "64 word"
  sv_scope :: "64 word"
  sv_table :: "64 word"
  sv_revision :: revision_t
  sv_undo_pk :: "64 word"
  sv_undo_rec :: undo_record
  sv_undo_revision :: revision_t
  sv_undo_payer :: "64 word"
  sv_undo_size :: "64 word"
  sv_undo_in_ram :: bool

definition service0 :: service_state where
  "service0 = \<lparr>sv_pk = pk_Unset, sv_payer = 0, sv_size = 0, sv_in_ram = True, sv_code = 0, sv_scope = 0,
     sv_table = 0, sv_revision = impossible_revision, sv_undo_pk = pk_Unset, sv_undo_rec = Rec_Unknown,
     sv_undo_revision = impossible_revision, sv_undo_payer = 0, sv_undo_size = 0, sv_undo_in_ram = True\<rparr>"

record 'v object_value =
  ov_service :: service_state
  ov_value :: "'v variant"

definition object0 :: "'v object_value" where
  "object0 = \<lparr>ov_service = service0, ov_value = Null\<rparr>"

definition clone_service :: "'v object_value \<Rightarrow> 'v object_value" where
  "clone_service obj = object0\<lparr>ov_service := ov_service obj\<rparr>"

definition ov_pk :: "'v object_value \<Rightarrow> 64 word" where
  "ov_pk obj = sv_pk (ov_service obj)"

definition set_service_revision :: "revision_t \<Rightarrow> 'v object_value \<Rightarrow> 'v object_value" where
  "set_service_revision r obj = obj\<lparr>ov_service := (ov_service obj)\<lparr>sv_revision := r\<rparr>\<rparr>"

text \<open>The tables of the database, in the order of \<^verbatim>\<open>table_object::index\<close>: code, table, scope.\<close>

type_synonym table_key = "64 word \<times> 64 word \<times> 64 word"

section \<open>Operations\<close>

datatype operation_t = Op_Unknown | Op_Insert | Op_Update | Op_Revision | Op_Remove

record 'v write_operation =
  wo_operation :: operation_t
  wo_find_revision :: revision_t
  wo_object :: "'v object_value"

definition wop0 :: "'v write_operation" where
  "wop0 = \<lparr>wo_operation = Op_Unknown, wo_find_revision = unset_revision, wo_object = object0\<rparr>"

definition wop_insert :: "'v object_value \<Rightarrow> 'v write_operation" where
  "wop_insert obj = wop0\<lparr>wo_operation := Op_Insert, wo_object := obj\<rparr>"

definition wop_update :: "'v object_value \<Rightarrow> 'v write_operation" where
  "wop_update obj = wop0\<lparr>wo_operation := Op_Update, wo_object := obj\<rparr>"

definition wop_update_rev :: "revision_t \<Rightarrow> 'v object_value \<Rightarrow> 'v write_operation" where
  "wop_update_rev find_rev obj = (wop_update obj)\<lparr>wo_find_revision := find_rev\<rparr>"

definition wop_revision :: "revision_t \<Rightarrow> 'v object_value \<Rightarrow> 'v write_operation" where
  "wop_revision find_rev obj = wop0\<lparr>wo_operation := Op_Revision, wo_find_revision := find_rev,
     wo_object := set_service_revision (find_rev - 1) obj\<rparr>"

definition wop_remove :: "'v object_value \<Rightarrow> 'v write_operation" where
  "wop_remove obj = wop0\<lparr>wo_operation := Op_Remove, wo_object := obj\<rparr>"

definition wop_remove_rev :: "revision_t \<Rightarrow> 'v object_value \<Rightarrow> 'v write_operation" where
  "wop_remove_rev find_rev obj = (wop_remove obj)\<lparr>wo_find_revision := find_rev\<rparr>"

definition copy_find_revision :: "revision_t \<Rightarrow> 'v write_operation \<Rightarrow> 'v write_operation" where
  "copy_find_revision find_rev dst =
     (if wo_find_revision dst \<noteq> unset_revision then dst
      else dst\<lparr>wo_find_revision := if start_revision \<le> find_rev then find_rev else impossible_revision\<rparr>)"

definition wop_merge_insert :: "'v write_operation \<Rightarrow> 'v write_operation \<Rightarrow> 'v write_operation res" where
  "wop_merge_insert src dst =
     (case wo_operation dst of
        Op_Unknown \<Rightarrow> Inr src
      | Op_Remove \<Rightarrow> Inr (copy_find_revision (wo_find_revision src)
                            (dst\<lparr>wo_operation := Op_Update, wo_object := wo_object src\<rparr>))
      | _ \<Rightarrow> Inl Driver_write_exception)"

definition wop_merge_revision :: "'v write_operation \<Rightarrow> 'v write_operation \<Rightarrow> 'v write_operation res" where
  "wop_merge_revision src dst =
     (let set_service = \<lambda>d. copy_find_revision (wo_find_revision src)
            (d\<lparr>wo_object := (wo_object d)\<lparr>ov_service := ov_service (wo_object src)\<rparr>\<rparr>)
      in case wo_operation dst of
           Op_Unknown \<Rightarrow> Inr (set_service (dst\<lparr>wo_operation := wo_operation src\<rparr>))
         | Op_Remove \<Rightarrow> Inl Driver_write_exception
         | _ \<Rightarrow> Inr (set_service dst))"

definition wop_merge_update :: "'v write_operation \<Rightarrow> 'v write_operation \<Rightarrow> 'v write_operation res" where
  "wop_merge_update src dst =
     (let set_object = \<lambda>d. copy_find_revision (wo_find_revision src) (d\<lparr>wo_object := wo_object src\<rparr>)
      in case wo_operation dst of
           Op_Unknown \<Rightarrow> Inr (set_object (dst\<lparr>wo_operation := wo_operation src\<rparr>))
         | Op_Revision \<Rightarrow> Inr (set_object (dst\<lparr>wo_operation := wo_operation src\<rparr>))
         | Op_Remove \<Rightarrow> Inl Driver_write_exception
         | _ \<Rightarrow> Inr (set_object dst))"

definition wop_merge_remove :: "'v write_operation \<Rightarrow> 'v write_operation \<Rightarrow> 'v write_operation res" where
  "wop_merge_remove src dst =
     (case wo_operation dst of
        Op_Insert \<Rightarrow> Inr wop0
      | Op_Remove \<Rightarrow> Inl Driver_write_exception
      | _ \<Rightarrow> Inr (copy_find_revision (wo_find_revision src)
               (dst\<lparr>wo_operation := wo_operation src, wo_object := wo_object src\<rparr>)))"

definition wop_merge :: "'v write_operation \<Rightarrow> 'v write_operation \<Rightarrow> 'v write_operation res" where
  "wop_merge src dst =
     (case wo_operation src of
        Op_Insert \<Rightarrow> wop_merge_insert src dst
      | Op_Update \<Rightarrow> wop_merge_update src dst
      | Op_Revision \<Rightarrow> wop_merge_revision src dst
      | Op_Remove \<Rightarrow> wop_merge_remove src dst
      | Op_Unknown \<Rightarrow> Inr dst)"

section \<open>The journal\<close>

record 'v journal_info =
  ji_data :: "'v write_operation"
  ji_undo_map :: "(64 word \<times> 'v write_operation) list"

definition info0 :: "'v journal_info" where
  "info0 = \<lparr>ji_data = wop0, ji_undo_map = []\<rparr>"

type_synonym 'v journal = "(table_key \<times> (64 word \<times> 'v journal_info) list) list"

definition journal_clear :: "'v journal \<Rightarrow> 'v journal" where
  "journal_clear j = []"

definition create_ctx :: "table_key \<Rightarrow> 'v journal \<Rightarrow> 'v journal" where
  "create_ctx t j = fm_emplace t [] j"

definition info_map :: "'v journal \<Rightarrow> table_key \<Rightarrow> (64 word \<times> 'v journal_info) list" where
  "info_map j t = (case fm_find j t of None \<Rightarrow> [] | Some m \<Rightarrow> m)"

definition ctx_info :: "'v journal \<Rightarrow> table_key \<Rightarrow> 64 word \<Rightarrow> 'v journal_info" where
  "ctx_info j t pk = (case fm_find (info_map j t) pk of None \<Rightarrow> info0 | Some i \<Rightarrow> i)"

definition put_info :: "table_key \<Rightarrow> 64 word \<Rightarrow> 'v journal_info \<Rightarrow> 'v journal \<Rightarrow> 'v journal" where
  "put_info t pk i j = fm_set t (fm_set pk i (info_map j t)) j"

definition write_data :: "table_key \<Rightarrow> 'v write_operation \<Rightarrow> 'v journal \<Rightarrow> 'v journal res" where
  "write_data t data j =
     (let pk = ov_pk (wo_object data); info = ctx_info j t pk
      in bind_res (wop_merge data (ji_data info)) (\<lambda>d. Inr (put_info t pk (info\<lparr>ji_data := d\<rparr>) j)))"

definition write_undo :: "table_key \<Rightarrow> 'v write_operation \<Rightarrow> 'v journal \<Rightarrow> 'v journal res" where
  "write_undo t undo0 j =
     (let undo = copy_find_revision impossible_revision undo0;
          pk = ov_pk (wo_object undo); info = ctx_info j t pk; upk = sv_undo_pk (ov_service (wo_object undo))
      in bind_res (case fm_find (ji_undo_map info) upk of
                     None \<Rightarrow> Inr undo
                   | Some dst \<Rightarrow> wop_merge undo dst)
           (\<lambda>u. Inr (put_info t pk (info\<lparr>ji_undo_map := fm_set upk u (ji_undo_map info)\<rparr>) j)))"

definition journal_write :: "table_key \<Rightarrow> 'v write_operation \<Rightarrow> 'v write_operation \<Rightarrow> 'v journal \<Rightarrow> 'v journal res" where
  "journal_write t data undo j = bind_res (write_data t data j) (write_undo t undo)"

text \<open>
  \<^verbatim>\<open>apply_range_changes\<close> takes the tables of a range out of the journal and hands their operations to
  the write context of the driver: the result is the calls in their order and the journal that is
  left.
\<close>

datatype 'v ctx_call =
    Start_table table_key
  | Add_data "'v write_operation"
  | Add_prepare_undo "'v write_operation"
  | Add_complete_undo "'v write_operation"

definition undo_calls :: "64 word \<times> 'v write_operation \<Rightarrow> 'v ctx_call list" where
  "undo_calls p = (let undo = snd p in
     case wo_operation undo of
       Op_Insert \<Rightarrow> [Add_prepare_undo undo]
     | Op_Unknown \<Rightarrow> []
     | _ \<Rightarrow> [Add_complete_undo undo])"

definition info_calls :: "64 word \<times> 'v journal_info \<Rightarrow> 'v ctx_call list" where
  "info_calls p = (let info = snd p in
     (if wo_operation (ji_data info) \<noteq> Op_Unknown then [Add_data (ji_data info)] else []) @
     concat (map undo_calls (ji_undo_map info)))"

definition table_calls :: "table_key \<times> (64 word \<times> 'v journal_info) list \<Rightarrow> 'v ctx_call list" where
  "table_calls p = (if snd p = [] then [] else Start_table (fst p) # concat (map info_calls (snd p)))"

definition apply_range_changes :: "(table_key \<Rightarrow> bool) \<Rightarrow> 'v journal \<Rightarrow> 'v ctx_call list \<times> 'v journal" where
  "apply_range_changes in_range j =
     (concat (map table_calls (filter (\<lambda>p. in_range (fst p)) j)), filter (\<lambda>p. \<not> in_range (fst p)) j)"

definition apply_code_changes :: "64 word \<Rightarrow> 'v journal \<Rightarrow> 'v ctx_call list \<times> 'v journal" where
  "apply_code_changes code = apply_range_changes (\<lambda>t. fst t = code)"

definition apply_table_changes :: "table_key \<Rightarrow> 'v journal \<Rightarrow> 'v ctx_call list \<times> 'v journal" where
  "apply_table_changes table = apply_range_changes (\<lambda>t. fst t = fst table \<and> fst (snd t) = fst (snd table))"

definition apply_all_changes :: "'v journal \<Rightarrow> 'v ctx_call list \<times> 'v journal" where
  "apply_all_changes = apply_range_changes (\<lambda>t. True)"

section \<open>What a reader sees\<close>

text \<open>What is stored of an object besides its revision, and what an operation makes of a stored row.\<close>

record 'v row =
  rw_value :: "'v variant"
  rw_payer :: "64 word"
  rw_size :: "32 word"
  rw_in_ram :: bool

definition row_of :: "'v object_value \<Rightarrow> 'v row" where
  "row_of obj = \<lparr>rw_value = ov_value obj, rw_payer = sv_payer (ov_service obj),
     rw_size = sv_size (ov_service obj), rw_in_ram = sv_in_ram (ov_service obj)\<rparr>"

definition effect :: "'v write_operation \<Rightarrow> 'v row option \<Rightarrow> 'v row option" where
  "effect w cur =
     (case wo_operation w of
        Op_Unknown \<Rightarrow> cur
      | Op_Insert \<Rightarrow> Some (row_of (wo_object w))
      | Op_Update \<Rightarrow> map_option (\<lambda>_. row_of (wo_object w)) cur
      | Op_Revision \<Rightarrow> map_option (\<lambda>r. (row_of (wo_object w))\<lparr>rw_value := rw_value r\<rparr>) cur
      | Op_Remove \<Rightarrow> None)"

definition op_fits :: "operation_t \<Rightarrow> 'r option \<Rightarrow> bool" where
  "op_fits w cur = (case w of Op_Unknown \<Rightarrow> True | Op_Insert \<Rightarrow> cur = None | _ \<Rightarrow> cur \<noteq> None)"

type_synonym 'v stored = "table_key \<Rightarrow> 64 word \<Rightarrow> 'v row option"

definition rows :: "'v stored \<Rightarrow> 'v journal \<Rightarrow> 'v stored" where
  "rows st j t pk = effect (ji_data (ctx_info j t pk)) (st t pk)"

definition journal_fits :: "'v stored \<Rightarrow> 'v journal \<Rightarrow> bool" where
  "journal_fits st j \<longleftrightarrow> (\<forall>t pk. op_fits (wo_operation (ji_data (ctx_info j t pk))) (st t pk))"

definition undo_op :: "'v journal \<Rightarrow> table_key \<Rightarrow> 64 word \<Rightarrow> 64 word \<Rightarrow> operation_t" where
  "undo_op j t pk u = (case fm_find (ji_undo_map (ctx_info j t pk)) u of
     None \<Rightarrow> Op_Unknown | Some w \<Rightarrow> wo_operation w)"

section \<open>Merging\<close>

lemmas wop_defs = wop_insert_def wop_update_def wop_update_rev_def wop_revision_def wop_remove_def
  wop_remove_rev_def wop0_def

lemma copy_find_revision_simps [simp]:
  "wo_operation (copy_find_revision r w) = wo_operation w"
  "wo_object (copy_find_revision r w) = wo_object w"
  by (simp_all add: copy_find_revision_def)

lemma set_service_revision_simps [simp]:
  "ov_pk (set_service_revision r obj) = ov_pk obj"
  "ov_value (set_service_revision r obj) = ov_value obj"
  "row_of (set_service_revision r obj) = row_of obj"
  by (simp_all add: set_service_revision_def ov_pk_def row_of_def)

lemma clone_service_simps [simp]:
  "ov_service (clone_service obj) = ov_service obj" "ov_pk (clone_service obj) = ov_pk obj"
  by (simp_all add: clone_service_def ov_pk_def)

theorem write_effect:
  assumes "op_fits (wo_operation dst) cur" and "op_fits (wo_operation src) (effect dst cur)"
  shows "\<exists>w. wop_merge src dst = Inr w \<and> op_fits (wo_operation w) cur \<and> effect w cur = effect src (effect dst cur)"
  using assms
  by (cases "wo_operation src"; cases "wo_operation dst"; cases cur)
     (auto simp: wop_merge_def wop_merge_insert_def wop_merge_update_def wop_merge_revision_def
        wop_merge_remove_def effect_def op_fits_def row_of_def wop0_def Let_def)

definition merged_op :: "operation_t \<Rightarrow> operation_t \<Rightarrow> operation_t" where
  "merged_op src dst =
     (case src of
        Op_Unknown \<Rightarrow> dst
      | Op_Insert \<Rightarrow> (if dst = Op_Remove then Op_Update else Op_Insert)
      | Op_Update \<Rightarrow> (if dst = Op_Insert then Op_Insert else Op_Update)
      | Op_Revision \<Rightarrow> (if dst = Op_Unknown then Op_Revision else dst)
      | Op_Remove \<Rightarrow> (if dst = Op_Insert then Op_Unknown else Op_Remove))"

definition op_merges :: "operation_t \<Rightarrow> operation_t \<Rightarrow> bool" where
  "op_merges src dst \<longleftrightarrow>
     (if src = Op_Insert then dst = Op_Unknown \<or> dst = Op_Remove else src = Op_Unknown \<or> dst \<noteq> Op_Remove)"

lemma wop_merge_iff:
  "(\<exists>w. wop_merge src dst = Inr w) \<longleftrightarrow> op_merges (wo_operation src) (wo_operation dst)"
  by (cases "wo_operation src"; cases "wo_operation dst")
     (auto simp: wop_merge_def wop_merge_insert_def wop_merge_update_def wop_merge_revision_def
        wop_merge_remove_def op_merges_def Let_def)

lemma wop_merge_operation:
  "wop_merge src dst = Inr w \<Longrightarrow> wo_operation w = merged_op (wo_operation src) (wo_operation dst)"
  by (cases "wo_operation src"; cases "wo_operation dst")
     (auto simp: wop_merge_def wop_merge_insert_def wop_merge_update_def wop_merge_revision_def
        wop_merge_remove_def merged_op_def wop0_def Let_def)

section \<open>Writing\<close>

lemma info_map_put: "info_map (put_info t pk i j) t' = (if t' = t then fm_set pk i (info_map j t) else info_map j t')"
  by (simp add: info_map_def put_info_def)

lemma ctx_info_put: "ctx_info (put_info t pk i j) t' pk' = (if t' = t \<and> pk' = pk then i else ctx_info j t' pk')"
  by (simp add: ctx_info_def info_map_put)

lemma ctx_info_create [simp]: "ctx_info (create_ctx t j) = ctx_info j"
  by (auto simp: ctx_info_def info_map_def create_ctx_def fm_find_emplace fun_eq_iff split: option.splits)

lemma write_data_ok:
  assumes "journal_fits st j" and "op_fits (wo_operation w) (rows st j t (ov_pk (wo_object w)))"
  obtains j' where "write_data t w j = Inr j'" and "journal_fits st j'" and "undo_op j' = undo_op j"
    and "rows st j' = (rows st j)(t := (rows st j t)(ov_pk (wo_object w) := effect w (rows st j t (ov_pk (wo_object w)))))"
proof -
  let ?pk = "ov_pk (wo_object w)" and ?i = "ctx_info j t (ov_pk (wo_object w))"
  have "op_fits (wo_operation (ji_data ?i)) (st t ?pk)"
    using assms(1) unfolding journal_fits_def by blast
  from write_effect [OF this, of w] assms(2) obtain d where d: "wop_merge w (ji_data ?i) = Inr d"
    "op_fits (wo_operation d) (st t ?pk)" "effect d (st t ?pk) = effect w (rows st j t ?pk)"
    by (auto simp: rows_def)
  let ?j = "put_info t ?pk (?i\<lparr>ji_data := d\<rparr>) j"
  have "write_data t w j = Inr ?j" using d(1) by (simp add: write_data_def Let_def)
  moreover have "journal_fits st ?j" using assms(1) d(2) by (auto simp: journal_fits_def ctx_info_put)
  moreover have "undo_op ?j = undo_op j" by (auto simp: undo_op_def ctx_info_put fun_eq_iff)
  moreover have "rows st ?j = (rows st j)(t := (rows st j t)(?pk := effect w (rows st j t ?pk)))"
    using d(3) by (auto simp: rows_def ctx_info_put fun_eq_iff)
  ultimately show ?thesis by (rule that)
qed

lemma write_undo_ok:
  fixes w :: "'v write_operation"
  defines "pk \<equiv> ov_pk (wo_object w)" and "u \<equiv> sv_undo_pk (ov_service (wo_object w))"
  assumes "op_merges (wo_operation w) (undo_op j t pk u)"
  obtains j' where "write_undo t w j = Inr j'" and "rows st j' = rows st j"
    and "journal_fits st j' = journal_fits st j"
    and "undo_op j' = (\<lambda>t' pk' u'. if t' = t \<and> pk' = pk \<and> u' = u then merged_op (wo_operation w) (undo_op j t pk u)
                                  else undo_op j t' pk' u')"
proof -
  let ?w = "copy_find_revision impossible_revision w" and ?i = "ctx_info j t pk"
  obtain d where d: "(case fm_find (ji_undo_map ?i) u of None \<Rightarrow> Inr ?w | Some dst \<Rightarrow> wop_merge ?w dst) = Inr d"
    and o: "wo_operation d = merged_op (wo_operation w) (undo_op j t pk u)"
  proof (cases "fm_find (ji_undo_map ?i) u")
    case None
    then show ?thesis by (intro that [of ?w]) (simp_all add: undo_op_def merged_op_def split: operation_t.splits)
  next
    case (Some dst)
    then have "op_merges (wo_operation ?w) (wo_operation dst)" using assms by (simp add: undo_op_def)
    then obtain d where "wop_merge ?w dst = Inr d" unfolding wop_merge_iff [symmetric] by blast
    with Some wop_merge_operation [OF this] show ?thesis by (intro that [of d]) (simp_all add: undo_op_def)
  qed
  let ?j = "put_info t pk (?i\<lparr>ji_undo_map := fm_set u d (ji_undo_map ?i)\<rparr>) j"
  have "write_undo t w j = Inr ?j" using d by (simp add: write_undo_def pk_def u_def Let_def)
  moreover have "rows st ?j = rows st j" by (auto simp: rows_def ctx_info_put fun_eq_iff)
  moreover have "journal_fits st ?j = journal_fits st j" by (auto simp: journal_fits_def ctx_info_put)
  moreover have "undo_op ?j = (\<lambda>t' pk' u'. if t' = t \<and> pk' = pk \<and> u' = u
      then merged_op (wo_operation w) (undo_op j t pk u) else undo_op j t' pk' u')"
    using o by (auto simp: undo_op_def ctx_info_put fun_eq_iff)
  ultimately show ?thesis by (rule that)
qed

section \<open>Flushing\<close>

text \<open>
  What a driver makes of the calls it receives: the operations of a table are carried out on the
  rows of the table that was started last. Undo records are kept elsewhere.
\<close>

fun run_calls :: "'v ctx_call list \<Rightarrow> table_key \<Rightarrow> 'v stored \<Rightarrow> 'v stored" where
  "run_calls [] t st = st"
| "run_calls (Start_table t' # cs) t st = run_calls cs t' st"
| "run_calls (Add_data w # cs) t st =
     run_calls cs t (st(t := (st t)(ov_pk (wo_object w) := effect w (st t (ov_pk (wo_object w))))))"
| "run_calls (Add_prepare_undo w # cs) t st = run_calls cs t st"
| "run_calls (Add_complete_undo w # cs) t st = run_calls cs t st"

definition info_ok :: "64 word \<times> 'v journal_info \<Rightarrow> bool" where
  "info_ok p \<longleftrightarrow> wo_operation (ji_data (snd p)) = Op_Unknown \<or> ov_pk (wo_object (ji_data (snd p))) = fst p"

definition journal_ok :: "'v journal \<Rightarrow> bool" where
  "journal_ok j \<longleftrightarrow> fm_invar j \<and> (\<forall>p \<in> set j. fm_invar (snd p) \<and> (\<forall>i \<in> set (snd p). info_ok i))"

lemma run_calls_skip: "\<forall>c \<in> set cs. \<exists>w. c = Add_prepare_undo w \<or> c = Add_complete_undo w \<Longrightarrow>
  run_calls (cs @ ds) t st = run_calls ds t st"
  by (induction cs) auto

lemma run_undo_calls: "run_calls (concat (map undo_calls m) @ ds) t st = run_calls ds t st"
  by (rule run_calls_skip) (auto simp: undo_calls_def Let_def split: operation_t.splits)

lemma effect_Unknown: "wo_operation w = Op_Unknown \<Longrightarrow> effect w cur = cur"
  by (simp add: effect_def)

lemma run_info_calls:
  "info_ok (pk, i) \<Longrightarrow> run_calls (info_calls (pk, i) @ ds) t st
     = run_calls ds t (st(t := (st t)(pk := effect (ji_data i) (st t pk))))"
  by (auto simp: info_calls_def info_ok_def run_undo_calls effect_Unknown Let_def)

lemma run_table:
  assumes "fm_invar m" and "\<forall>i \<in> set m. info_ok i"
  shows "run_calls (concat (map info_calls m) @ ds) t st
     = run_calls ds t (st(t := \<lambda>pk. case fm_find m pk of None \<Rightarrow> st t pk | Some i \<Rightarrow> effect (ji_data i) (st t pk)))"
  using assms
proof (induction m arbitrary: st)
  case (Cons p m)
  obtain pk i where p: "p = (pk, i)" by (cases p)
  have n: "fm_find m pk = None" using Cons.prems(1) by (force simp: p fm_invar_Cons fm_find_None_iff)
  have "info_ok (pk, i)" and "fm_invar m" and "\<forall>i \<in> set m. info_ok i"
    using Cons.prems by (auto simp: p fm_invar_Cons)
  then show ?case
    by (simp add: p run_info_calls Cons.IH n fun_upd_def cong: if_cong option.case_cong)
      (rule arg_cong [where f = "run_calls ds t"], auto simp: fun_eq_iff n split: option.splits)
qed simp

lemma info_map_Cons: "info_map ((a, m) # j) t = (if t = a then m else info_map j t)"
  by (simp add: info_map_def)

lemma run_range:
  assumes "journal_ok j"
  shows "run_calls (concat (map table_calls (filter (\<lambda>p. P (fst p)) j))) t0 st
           = (\<lambda>t pk. if P t then rows st j t pk else st t pk)"
  using assms
proof (induction j arbitrary: st t0)
  case Nil
  then show ?case by (auto simp: rows_def ctx_info_def info_map_def info0_def wop0_def effect_Unknown fun_eq_iff)
next
  case (Cons p j)
  obtain a m where p: "p = (a, m)" by (cases p)
  have ok: "journal_ok j" and m: "fm_invar m" "\<forall>i \<in> set m. info_ok i"
    using Cons.prems by (auto simp: p journal_ok_def fm_invar_Cons)
  have "fm_find j a = None" using Cons.prems by (force simp: p journal_ok_def fm_invar_Cons fm_find_None_iff)
  then have n: "info_map j a = []" by (simp add: info_map_def)
  have e: "effect (ji_data info0) r = r" for r :: "'a row option" by (simp add: info0_def wop0_def effect_Unknown)
  let ?st = "st(a := \<lambda>pk. case fm_find m pk of None \<Rightarrow> st a pk | Some i \<Rightarrow> effect (ji_data i) (st a pk))"
  have r: "rows ?st j t pk = (if t = a then rows st (p # j) a pk else rows st (p # j) t pk)" for t pk
    by (cases "t = a") (auto simp: rows_def ctx_info_def p info_map_Cons n e split: option.splits)
  have "m = [] \<Longrightarrow> ?st = st" by (auto simp: fun_eq_iff)
  then have h: "run_calls (table_calls (a, m) @ ds) t0 st = run_calls ds (if m = [] then t0 else a) ?st" for ds
    using run_table [OF m, of ds a st] by (cases "m = []") (simp_all add: table_calls_def)
  show ?case
  proof (cases "P a")
    case True
    have "run_calls (concat (map table_calls (filter (\<lambda>p. P (fst p)) (p # j)))) t0 st
        = (\<lambda>t pk. if P t then rows ?st j t pk else ?st t pk)"
      using True Cons.IH [OF ok] by (simp add: p h)
    then show ?thesis using True by (auto simp: r fun_eq_iff)
  next
    case False
    then show ?thesis
      using Cons.IH [OF ok, of t0 st] by (auto simp: p rows_def ctx_info_def info_map_Cons fun_eq_iff)
  qed
qed

lemma rows_drop_range:
  assumes "fm_invar j"
  shows "rows st (filter (\<lambda>p. \<not> P (fst p)) j) t pk = (if P t then st t pk else rows st j t pk)"
proof -
  have "fm_find (filter (\<lambda>p. \<not> P (fst p)) j) t = (if P t then None else fm_find j t)"
    by (induction j) auto
  then show ?thesis by (auto simp: rows_def ctx_info_def info_map_def info0_def wop0_def effect_Unknown)
qed

lemma flush_keeps_rows:
  assumes "journal_ok j" and "apply_range_changes P j = (cs, j')"
  shows "rows (run_calls cs t0 st) j' = rows st j"
proof -
  have cs: "cs = concat (map table_calls (filter (\<lambda>p. P (fst p)) j))" and j': "j' = filter (\<lambda>p. \<not> P (fst p)) j"
    using assms(2) by (auto simp: apply_range_changes_def)
  have j: "fm_invar j" using assms(1) by (simp add: journal_ok_def)
  have st: "run_calls cs t0 st t pk = (if P t then rows st j t pk else st t pk)" for t pk
    by (simp add: cs run_range [OF assms(1)])
  show ?thesis
  proof (intro ext)
    fix t pk
    have "\<not> P t \<Longrightarrow> rows (run_calls cs t0 st) j t pk = rows st j t pk" by (simp add: rows_def st)
    then show "rows (run_calls cs t0 st) j' t pk = rows st j t pk"
      by (simp add: j' rows_drop_range [OF j] st)
  qed
qed

section \<open>Sequences of writes\<close>

definition put_row :: "table_key \<times> 'v write_operation \<Rightarrow> 'v stored \<Rightarrow> 'v stored" where
  "put_row p st = (let t = fst p; w = snd p; pk = ov_pk (wo_object w)
                   in st(t := (st t)(pk := effect w (st t pk))))"

fun writes_fit :: "(table_key \<times> 'v write_operation) list \<Rightarrow> 'v stored \<Rightarrow> bool" where
  "writes_fit [] st = True"
| "writes_fit (p # ps) st =
     (op_fits (wo_operation (snd p)) (st (fst p) (ov_pk (wo_object (snd p)))) \<and> writes_fit ps (put_row p st))"

lemma set_fm_set_subset: "set (fm_set k v m) \<subseteq> insert (k, v) (set m)"
  by (induction k v m rule: fm_set.induct) auto

lemma wop_merge_pk:
  assumes "wop_merge src dst = Inr w" and "wo_operation dst = Op_Unknown \<or> ov_pk (wo_object dst) = ov_pk (wo_object src)"
  shows "wo_operation w = Op_Unknown \<or> ov_pk (wo_object w) = ov_pk (wo_object src)"
  using assms
  by (cases "wo_operation src"; cases "wo_operation dst")
     (auto simp: wop_merge_def wop_merge_insert_def wop_merge_update_def wop_merge_revision_def
        wop_merge_remove_def ov_pk_def wop0_def Let_def)

lemma info_map_ok:
  assumes "journal_ok j"
  shows "fm_invar (info_map j t)" and "\<And>i. i \<in> set (info_map j t) \<Longrightarrow> info_ok i"
proof -
  have "fm_invar (info_map j t) \<and> (\<forall>i \<in> set (info_map j t). info_ok i)"
  proof (cases "fm_find j t")
    case (Some m)
    then have "(t, m) \<in> set j" by (rule fm_find_SomeD)
    with Some assms show ?thesis by (force simp: info_map_def journal_ok_def)
  qed (simp add: info_map_def)
  then show "fm_invar (info_map j t)" and "\<And>i. i \<in> set (info_map j t) \<Longrightarrow> info_ok i" by simp_all
qed

lemma journal_ok_put:
  assumes "journal_ok j" and "info_ok (pk, i)"
  shows "journal_ok (put_info t pk i j)"
proof -
  have "fm_invar (fm_set pk i (info_map j t)) \<and> (\<forall>i \<in> set (fm_set pk i (info_map j t)). info_ok i)"
    using info_map_ok [OF assms(1), where t = t] assms(2) set_fm_set_subset [of pk i "info_map j t"] by (auto intro: fm_invar_set)
  moreover have "fm_invar (put_info t pk i j)"
    using assms(1) by (simp add: journal_ok_def put_info_def fm_invar_set)
  moreover have "p = (t, fm_set pk i (info_map j t)) \<or> p \<in> set j" if "p \<in> set (put_info t pk i j)" for p
    using that set_fm_set_subset [of t "fm_set pk i (info_map j t)" j] by (auto simp: put_info_def)
  ultimately show ?thesis using assms(1) unfolding journal_ok_def by (metis snd_conv)
qed

lemma info_ok_ctx_info:
  assumes "journal_ok j"
  shows "info_ok (pk, ctx_info j t pk)"
proof (cases "fm_find (info_map j t) pk")
  case (Some i)
  then show ?thesis using info_map_ok(2) [OF assms fm_find_SomeD [OF Some]] by (simp add: ctx_info_def)
qed (simp add: ctx_info_def info_ok_def info0_def wop0_def)

lemma write_data_journal_ok:
  assumes "journal_ok j" and "write_data t w j = Inr j'"
  shows "journal_ok j'"
proof -
  let ?pk = "ov_pk (wo_object w)"
  obtain d where d: "wop_merge w (ji_data (ctx_info j t ?pk)) = Inr d"
    and j': "j' = put_info t ?pk ((ctx_info j t ?pk)\<lparr>ji_data := d\<rparr>) j"
    using assms(2) by (auto simp: write_data_def Let_def bind_res_Inr)
  have "wo_operation d = Op_Unknown \<or> ov_pk (wo_object d) = ?pk"
    using wop_merge_pk [OF d] info_ok_ctx_info [OF assms(1), of ?pk t] by (simp add: info_ok_def)
  then show ?thesis unfolding j' by (intro journal_ok_put [OF assms(1)]) (simp add: info_ok_def)
qed

lemma write_sequence:
  assumes "journal_ok j" and "journal_fits st j" and "writes_fit ps (rows st j)"
  shows "\<exists>j'. fold_res (\<lambda>p. write_data (fst p) (snd p)) ps j = Inr j' \<and> journal_ok j' \<and>
           journal_fits st j' \<and> rows st j' = fold put_row ps (rows st j)"
  using assms
proof (induction ps arbitrary: j)
  case (Cons p ps)
  obtain j1 where w: "write_data (fst p) (snd p) j = Inr j1" and f: "journal_fits st j1"
    and r: "rows st j1 = put_row p (rows st j)"
    using write_data_ok [OF Cons.prems(2), of "snd p" "fst p"] Cons.prems(3)
    by (auto simp: put_row_def Let_def)
  with Cons.IH [OF write_data_journal_ok [OF Cons.prems(1) w] f] Cons.prems(3) show ?case by simp
qed simp


definition ex_object :: "64 word \<Rightarrow> 64 word \<Rightarrow> nat \<Rightarrow> nat object_value" where
  "ex_object pk payer v = object0\<lparr>ov_service := service0\<lparr>sv_pk := pk, sv_payer := payer\<rparr>, ov_value := Row v\<rparr>"

definition ex_writes :: "(table_key \<times> nat write_operation) list" where
  "ex_writes = [((1, 1, 1), wop_insert (ex_object 7 1 10)), ((1, 1, 1), wop_update (ex_object 7 2 20)),
     ((1, 1, 1), wop_remove (ex_object 7 2 20)), ((1, 1, 1), wop_insert (ex_object 7 3 30))]"


end
